(* ===== verification/Prelude.thy ===== *)
theory Prelude
  imports Main "HOL-Library.Word" "HOL-Library.Monad_Syntax"
begin

text \<open>
  What every component of the model shares: the machine integers and byte strings of the Rust code,
  the way a panic is a value, the checked arithmetic of the standard library, decimal digits, and
  the list lemmas the component proofs use again and again.

  A Rust \<open>u8\<close>, \<open>u32\<close>, \<open>u64\<close> is a word of that width; a \<open>usize\<close> that only indexes a buffer in
  memory is a \<open>nat\<close>, because no buffer is longer than \<open>isize::MAX\<close> bytes. A \<open>&str\<close> is the list
  of its UTF-8 bytes. A function that can panic returns a sum, \<open>Inl\<close> the panic; an \<open>Option\<close> of the
  code is an \<open>option\<close>, and its \<open>?\<close> operator the bind of that monad.
\<close>

section \<open>Machine types\<close>

type_synonym u8 = "8 word"
type_synonym u32 = "32 word"
type_synonym u64 = "64 word"
type_synonym bytes = "u8 list"

datatype panic =
    SliceStartIndex \<comment> \<open>\<open>&buf[pos..]\<close> with \<open>pos > buf.len()\<close>\<close>
  | IndexOutOfBounds \<comment> \<open>\<open>xs[i]\<close> with \<open>i >= xs.len()\<close>\<close>
  | AssertionFailed \<comment> \<open>a failed \<open>assert!\<close>\<close>
  | UnknownName \<comment> \<open>the explicit \<open>panic!\<close> of a failed lookup by name\<close>

type_synonym 'a run = "panic + 'a"

named_theorems fits \<open>checked arithmetic as a range test on natural numbers\<close>
named_theorems digit_simps \<open>decimal digits and their values\<close>

section \<open>Byte literals\<close>

definition ascii :: "string \<Rightarrow> bytes" where
  "ascii s = map of_char s"

abbreviation b_quote :: u8 where "b_quote \<equiv> 34"
abbreviation b_comma :: u8 where "b_comma \<equiv> 44"
abbreviation b_dot :: u8 where "b_dot \<equiv> 46"
abbreviation b_zero :: u8 where "b_zero \<equiv> 48"
abbreviation b_lbracket :: u8 where "b_lbracket \<equiv> 91"
abbreviation b_backslash :: u8 where "b_backslash \<equiv> 92"
abbreviation b_rbracket :: u8 where "b_rbracket \<equiv> 93"

lemma length_ascii [simp]: "length (ascii s) = length s"
  by (simp add: ascii_def)

section \<open>Checked arithmetic\<close>

text \<open>\<open>fit n\<close> is the word of value \<open>n\<close> if there is one: what every checked operation computes.\<close>

definition fit :: "nat \<Rightarrow> 'a::len word option" where
  "fit n = (if n < 2 ^ LENGTH('a) then Some (of_nat n) else None)"

definition checked_mul :: "'a::len word \<Rightarrow> 'a word \<Rightarrow> 'a word option" where
  "checked_mul a b = (if unat a * unat b < 2 ^ LENGTH('a) then Some (a * b) else None)"

definition checked_add :: "'a::len word \<Rightarrow> 'a word \<Rightarrow> 'a word option" where
  "checked_add a b = (if unat a + unat b < 2 ^ LENGTH('a) then Some (a + b) else None)"

lemma checked_mul_fit [fits]: "checked_mul a b = fit (unat a * unat b)"
  by (simp add: checked_mul_def fit_def)

lemma checked_add_fit [fits]: "checked_add a b = fit (unat a + unat b)"
  by (simp add: checked_add_def fit_def)

lemma fit_None_iff: "(fit n :: 'a::len word option) = None \<longleftrightarrow> 2 ^ LENGTH('a) \<le> n"
  by (simp add: fit_def not_less)

lemma fit_Some_iff:
  "(fit n :: 'a::len word option) = Some w \<longleftrightarrow> n < 2 ^ LENGTH('a) \<and> w = of_nat n"
  by (auto simp: fit_def)

lemma fit_unat [simp]: "fit (unat (w :: 'a::len word)) = Some w"
  by (simp add: fit_def)

lemma unat_of_nat_small: "n < 2 ^ LENGTH('a) \<Longrightarrow> unat (of_nat n :: 'a::len word) = n"
  by (simp add: unat_of_nat)

lemma fit_eq_Some_iff: "fit n = Some w \<longleftrightarrow> unat w = n"
  by (metis fit_Some_iff fit_unat unat_of_nat_small)

lemma fit_u64:
  assumes "n < 18446744073709551616"
  obtains w :: u64 where "fit n = Some w" and "unat w = n"
proof
  show "fit n = Some (of_nat n :: u64)" using assms by (simp add: fit_def)
  then show "unat (of_nat n :: u64) = n" by (simp only: fit_eq_Some_iff)
qed

lemma checked_mul_Some_iff: "checked_mul a b = Some c \<longleftrightarrow> unat c = unat a * unat b"
  by (simp add: checked_mul_fit fit_eq_Some_iff)

lemma checked_add_Some_iff: "checked_add a b = Some c \<longleftrightarrow> unat c = unat a + unat b"
  by (simp add: checked_add_fit fit_eq_Some_iff)

lemma u64_bound: "unat (w :: u64) < 18446744073709551616"
proof -
  have "unat w < 2 ^ LENGTH(64)" by (rule unsigned_less)
  then show ?thesis by simp
qed

text \<open>
  Chaining two checked operations: the second sees the value of the first, so the chain is one range
  test on the final value, provided the values only grow on the way.
\<close>

lemma bind_fit:
  assumes "\<And>w :: 'a::len word. unat w = n \<Longrightarrow> f w = g n"
    and "2 ^ LENGTH('a) \<le> n \<Longrightarrow> g n = None"
  shows "Option.bind (fit n :: 'a word option) f = g n"
  using assms by (cases "n < 2 ^ LENGTH('a)") (auto simp: fit_def unat_of_nat_small)

lemma bind_map_option [simp]: "Option.bind (map_option f x) g = Option.bind x (\<lambda>y. g (f y))"
  by (cases x) simp_all

section \<open>Decimal digits\<close>

text \<open>
  The code reads a digit as \<open>b.wrapping_sub(b'0')\<close> and rejects a result above nine.
\<close>

definition is_digit :: "u8 \<Rightarrow> bool" where
  "is_digit b \<longleftrightarrow> \<not> 9 < b - b_zero"

lemma digit_test [simp]: "9 < b - b_zero \<longleftrightarrow> \<not> is_digit b"
  by (simp add: is_digit_def)

definition digit_val :: "u8 \<Rightarrow> nat" where
  "digit_val b = unat (b - b_zero)"

fun dec_acc :: "nat \<Rightarrow> bytes \<Rightarrow> nat" where
  "dec_acc v [] = v"
| "dec_acc v (b # ds) = dec_acc (v * 10 + digit_val b) ds"

abbreviation digits_val :: "bytes \<Rightarrow> nat" where
  "digits_val \<equiv> dec_acc 0"

abbreviation all_digits :: "bytes \<Rightarrow> bool" where
  "all_digits ds \<equiv> list_all is_digit ds"

lemma digit_val_less [digit_simps]: "is_digit b \<Longrightarrow> digit_val b < 10"
  using is_digit_def [of b] by (simp add: digit_val_def word_less_nat_alt del: digit_test)

lemma unat_ucast_u8: "unat (ucast (b :: u8) :: u64) = unat b"
proof -
  have "unat b < 2 ^ LENGTH(8)" by (rule unsigned_less)
  then have "unat b < 2 ^ LENGTH(64)" by simp
  then show ?thesis by (simp add: unsigned_ucast_eq take_bit_nat_eq_self)
qed

lemma unat_ucast_digit [digit_simps]: "unat (ucast (b - b_zero) :: u64) = digit_val b"
  by (simp add: digit_val_def unat_ucast_u8)

lemma dec_acc_linear: "dec_acc v ds = v * 10 ^ length ds + digits_val ds"
proof (induction ds arbitrary: v)
  case Nil
  then show ?case by simp
next
  case (Cons d ds)
  show ?case
    using Cons.IH [of "v * 10 + digit_val d"] Cons.IH [of "digit_val d"]
    by (simp add: algebra_simps)
qed

lemma dec_acc_append: "dec_acc v (xs @ ys) = dec_acc (dec_acc v xs) ys"
  by (induction xs arbitrary: v) simp_all

lemma dec_acc_ge: "v \<le> dec_acc v ds"
proof -
  have "v * 1 \<le> v * 10 ^ length ds"
    by (intro mult_le_mono) simp_all
  then show ?thesis unfolding dec_acc_linear [of v] by linarith
qed

lemma digits_val_less: "all_digits ds \<Longrightarrow> digits_val ds < 10 ^ length ds"
proof (induction ds rule: rev_induct)
  case Nil
  then show ?case by simp
next
  case (snoc d ds)
  then show ?case using digit_val_less [of d] by (simp add: dec_acc_append)
qed

lemma digit_neq [digit_simps]:
  assumes "is_digit b"
  shows "b \<noteq> b_dot" "b \<noteq> b_quote" "b \<noteq> b_comma" "b \<noteq> b_lbracket" "b \<noteq> b_rbracket" "b \<noteq> b_backslash"
  using assms by (auto simp: is_digit_def word_less_nat_alt simp del: digit_test)

lemma takeWhile_digits:
  "all_digits ds \<Longrightarrow> \<forall>b. is_digit b \<longrightarrow> P b \<Longrightarrow> \<not> P c \<Longrightarrow> takeWhile P (ds @ c # rest) = ds"
  by (induction ds) auto

lemma dropWhile_digits:
  "all_digits ds \<Longrightarrow> \<forall>b. is_digit b \<longrightarrow> P b \<Longrightarrow> \<not> P c \<Longrightarrow> dropWhile P (ds @ c # rest) = c # rest"
  by (induction ds) auto

text \<open>
  One digit of an overflow-checked accumulation, and the whole accumulation from there: both parsers
  and the unsigned readers are this lemma under their own loop conditions.
\<close>

lemma push_digit:
  "Option.bind (checked_mul (v :: u64) 10) (\<lambda>m. Option.bind (checked_add m (ucast (b - b_zero))) k)
   = Option.bind (fit (unat v * 10 + digit_val b)) k"
proof -
  have "Option.bind (fit (unat v * 10) :: u64 option)
          (\<lambda>m. Option.bind (fit (unat m + digit_val b)) k)
        = Option.bind (fit (unat v * 10 + digit_val b)) k"
    by (rule bind_fit [where g = "\<lambda>n. Option.bind (fit (n + digit_val b)) k"]) (simp_all add: fit_def)
  then show ?thesis by (simp add: fits digit_simps)
qed

lemma push_digit_value:
  "Option.bind (checked_mul (v :: u64) 10) (\<lambda>m. checked_add m (ucast (b - b_zero)))
   = fit (unat v * 10 + digit_val b)"
  using push_digit [where k = Some] by simp

lemma fst_case_option:
  "fst (case x of None \<Rightarrow> (None, s) | Some v \<Rightarrow> f v) = Option.bind x (\<lambda>v. fst (f v))"
  by (cases x) simp_all

lemma push_digits:
  assumes "\<And>w :: 'a::len word. unat w = n \<Longrightarrow>
      k w = (if all_digits ds then map_option f (fit (dec_acc (unat w) ds)) else None)"
  shows "Option.bind (fit n) k
      = (if all_digits ds then map_option f (fit (dec_acc n ds) :: 'a word option) else None)"
proof (rule bind_fit)
  fix w :: "'a word"
  assume "unat w = n"
  with assms show "k w = (if all_digits ds then map_option f (fit (dec_acc n ds)) else None)"
    by simp
next
  assume "2 ^ LENGTH('a) \<le> n"
  with dec_acc_ge [of n ds]
  show "(if all_digits ds then map_option f (fit (dec_acc n ds) :: 'a word option) else None) = None"
    by (simp add: fit_def)
qed

text \<open>The decimal text of a number, as the standard library prints an unsigned integer.\<close>

fun show_nat :: "nat \<Rightarrow> bytes" where
  "show_nat n = (if n < 10 then [b_zero + of_nat n] else show_nat (n div 10) @ [b_zero + of_nat (n mod 10)])"

declare show_nat.simps [simp del]

definition pad0 :: "nat \<Rightarrow> bytes \<Rightarrow> bytes" where
  "pad0 w s = replicate (w - length s) b_zero @ s"

lemma digit_of_small [digit_simps]:
  "n < 10 \<Longrightarrow> is_digit (b_zero + of_nat n)" "n < 10 \<Longrightarrow> digit_val (b_zero + of_nat n) = n"
  by (simp_all add: is_digit_def digit_val_def word_less_nat_alt unat_of_nat_small del: digit_test)

lemma show_nat_digits [digit_simps]: "all_digits (show_nat n)"
proof (induction n rule: show_nat.induct)
  case (1 n)
  then show ?case by (simp add: show_nat.simps [of n] digit_simps)
qed

lemma show_nat_val [digit_simps]: "digits_val (show_nat n) = n"
proof (induction n rule: show_nat.induct)
  case (1 n)
  then show ?case by (simp add: show_nat.simps [of n] digit_simps dec_acc_append)
qed

lemma show_nat_not_Nil [simp]: "show_nat n \<noteq> []"
  by (simp add: show_nat.simps [of n])

lemma length_show_nat: "n < 10 ^ k \<Longrightarrow> 0 < k \<Longrightarrow> length (show_nat n) \<le> k"
proof (induction n arbitrary: k rule: show_nat.induct)
  case (1 n)
  show ?case
  proof (cases "n < 10")
    case True
    with 1 show ?thesis by (simp add: show_nat.simps [of n])
  next
    case False
    with 1 obtain j where k: "k = Suc j" and "0 < j"
      by (cases k; cases "k - 1") auto
    then have "n div 10 < 10 ^ j" using "1.prems" by (simp add: less_mult_imp_div_less mult.commute)
    with "1.IH" [OF False _ \<open>0 < j\<close>] False k show ?thesis by (simp add: show_nat.simps [of n])
  qed
qed

lemma pad0_digits [digit_simps]: "all_digits s \<Longrightarrow> all_digits (pad0 w s)"
  by (auto simp: pad0_def list_all_iff is_digit_def simp del: digit_test)

lemma dec_acc_replicate_zero: "dec_acc 0 (replicate k b_zero) = 0"
  by (induction k) (simp_all add: digit_val_def)

lemma pad0_val [digit_simps]: "digits_val (pad0 w s) = digits_val s"
  by (simp add: pad0_def dec_acc_append dec_acc_replicate_zero)

lemma length_pad0: "length s \<le> w \<Longrightarrow> length (pad0 w s) = w"
  by (simp add: pad0_def)

section \<open>Reading a list from a position\<close>

lemma drop_eq_Cons_nth: "drop i xs = y # ys \<longleftrightarrow> i < length xs \<and> xs ! i = y \<and> drop (Suc i) xs = ys"
  by (metis Cons_nth_drop_Suc drop_eq_Nil linorder_not_le list.inject list.simps(3))

lemma takeWhile_drop_step:
  "i < length xs \<Longrightarrow> P (xs ! i) \<Longrightarrow> takeWhile P (drop i xs) = xs ! i # takeWhile P (drop (Suc i) xs)"
  by (simp flip: Cons_nth_drop_Suc)

lemma takeWhile_drop_le:
  "k \<le> length (takeWhile P xs) \<Longrightarrow> takeWhile P (drop k xs) = drop k (takeWhile P xs)"
proof (induction xs arbitrary: k)
  case (Cons x xs)
  then show ?case by (cases k) (auto split: if_splits)
qed simp

lemma drop_length_take: "drop (length (take k xs)) xs = drop k xs"
  by (simp add: min_def)

lemma dropWhile_neq_hd:
  "dropWhile (\<lambda>y. y \<noteq> x) xs \<noteq> [] \<and> hd (dropWhile (\<lambda>y. y \<noteq> x) xs) = x \<longleftrightarrow> x \<in> set xs"
  by (induction xs) auto

lemma takeWhile_neq_append: "x \<notin> set p \<Longrightarrow> takeWhile (\<lambda>b. b \<noteq> x) (p @ x # t) = p"
  by (induction p) auto

lemma length_filter_eq: "length (filter P xs) = length xs \<longleftrightarrow> (\<forall>x\<in>set xs. P x)"
proof
  assume "length (filter P xs) = length xs"
  then show "\<forall>x\<in>set xs. P x" using length_filter_less [of _ xs P] by force
next
  assume "\<forall>x\<in>set xs. P x"
  then have "filter P xs = xs" by (simp add: filter_id_conv)
  then show "length (filter P xs) = length xs" by simp
qed

lemma takeWhile_drop_stop:
  "\<not> (i < length xs \<and> P (xs ! i)) \<Longrightarrow> takeWhile P (drop i xs) = []"
  by (cases "i < length xs") (auto simp flip: Cons_nth_drop_Suc)

end
