(* ===== verification/FixedPoint.thy ===== *)
theory FixedPoint
  imports Prelude
begin

text \<open>
  \<open>src/types.rs\<close>, the fixed-point decimal: \<open>FixedPoint::parse\<close>, \<open>Display\<close>, the derived
  order and the raw accessors. The two while loops of \<open>parse\<close> are the functions
  \<open>fp_int_loop\<close> and \<open>fp_frac_loop\<close> over a byte index; the third loop, which only checks the
  digits past the eighth, is \<open>fp_skip_loop\<close>. The reference the parser is compared with is
  \<open>decimal_raw\<close>, which splits the text at the first dot and computes
  \<open>floor (decimal * 10 ^ 8)\<close> on unbounded naturals.
\<close>

section \<open>The type and its order\<close>

datatype fixed_point = FixedPoint (raw: u64)

definition from_raw :: "u64 \<Rightarrow> fixed_point" where
  "from_raw val = FixedPoint val"

text \<open>\<open>PartialOrd, Ord\<close> are derived, so the order is that of the wrapped integer.\<close>

instantiation fixed_point :: linorder
begin

definition less_eq_fixed_point :: "fixed_point \<Rightarrow> fixed_point \<Rightarrow> bool" where
  "less_eq_fixed_point a b \<longleftrightarrow> raw a \<le> raw b"

definition less_fixed_point :: "fixed_point \<Rightarrow> fixed_point \<Rightarrow> bool" where
  "less_fixed_point a b \<longleftrightarrow> raw a < raw b"

instance
  by standard (auto simp: less_eq_fixed_point_def less_fixed_point_def fixed_point.expand)

end

definition SCALE :: u64 where
  "SCALE = 100000000"

definition POW10 :: "u64 list" where
  "POW10 = [1, 10, 100, 1000, 10000, 100000, 1000000, 10000000, 100000000]"

section \<open>Parsing\<close>

function fp_int_loop :: "bytes \<Rightarrow> nat \<Rightarrow> u64 \<Rightarrow> (nat \<times> u64) option" where
  "fp_int_loop bytes i int_part =
     (if i < length bytes \<and> bytes ! i \<noteq> b_dot then
        let d = bytes ! i - b_zero in
        if 9 < d then None
        else do {
          m \<leftarrow> checked_mul int_part 10;
          v \<leftarrow> checked_add m (ucast d);
          fp_int_loop bytes (i + 1) v
        }
      else Some (i, int_part))"
  by pat_completeness auto
termination
  by (relation "measure (\<lambda>(bytes, i, _). length bytes - i)") auto

function fp_frac_loop :: "bytes \<Rightarrow> nat \<Rightarrow> u64 \<Rightarrow> u32 \<Rightarrow> (nat \<times> u64 \<times> u32) option" where
  "fp_frac_loop bytes i frac_part frac_digits =
     (if i < length bytes \<and> frac_digits < 8 then
        let d = bytes ! i - b_zero in
        if 9 < d then None
        else fp_frac_loop bytes (i + 1) (frac_part * 10 + ucast d) (frac_digits + 1)
      else Some (i, frac_part, frac_digits))"
  by pat_completeness auto
termination
  by (relation "measure (\<lambda>(bytes, i, _). length bytes - i)") auto

function fp_skip_loop :: "bytes \<Rightarrow> nat \<Rightarrow> nat option" where
  "fp_skip_loop bytes i =
     (if i < length bytes then
        let d = bytes ! i - b_zero in
        if 9 < d then None else fp_skip_loop bytes (i + 1)
      else Some i)"
  by pat_completeness auto
termination
  by (relation "measure (\<lambda>(bytes, i). length bytes - i)") auto

declare fp_int_loop.simps [simp del] fp_frac_loop.simps [simp del] fp_skip_loop.simps [simp del]

text \<open>What both parsers do with the two parts once the digits are read.\<close>

definition fp_combine :: "u64 \<Rightarrow> u64 \<Rightarrow> u32 \<Rightarrow> fixed_point option" where
  "fp_combine int_part frac_part frac_digits =
     (let frac_part' = frac_part * POW10 ! unat (8 - frac_digits) in
      do {
        m \<leftarrow> checked_mul int_part SCALE;
        value \<leftarrow> checked_add m frac_part';
        Some (FixedPoint value)
      })"

definition fp_parse :: "bytes \<Rightarrow> fixed_point option" where
  "fp_parse s =
     (if s = [] then None
      else do {
        (i, int_part) \<leftarrow> fp_int_loop s 0 0;
        let int_digits = i;
        (i, frac_part, frac_digits) \<leftarrow>
          (if i < length s \<and> s ! i = b_dot then do {
             (i, frac_part, frac_digits) \<leftarrow> fp_frac_loop s (i + 1) 0 0;
             i \<leftarrow> fp_skip_loop s i;
             Some (i, frac_part, frac_digits)
           } else Some (i, 0, 0));
        if int_digits = 0 \<and> frac_digits = 0 then None
        else fp_combine int_part frac_part frac_digits
      })"

text \<open>\<open>write!(f, "{int}.{frac:08}")\<close>\<close>

definition fp_display :: "fixed_point \<Rightarrow> bytes" where
  "fp_display x =
     (let int = raw x div SCALE; frac = raw x mod SCALE
      in show_nat (unat int) @ [b_dot] @ pad0 8 (show_nat (unat frac)))"

section \<open>The reference: a decimal's value on unbounded naturals\<close>

definition decimal_raw :: "bytes \<Rightarrow> nat option" where
  "decimal_raw s =
     (let ip = takeWhile (\<lambda>b. b \<noteq> b_dot) s;
          fp = tl (dropWhile (\<lambda>b. b \<noteq> b_dot) s)
      in if all_digits ip \<and> all_digits fp \<and> (ip \<noteq> [] \<or> fp \<noteq> [])
         then Some (digits_val ip * 10 ^ 8 + digits_val fp * 10 ^ 8 div 10 ^ length fp)
         else None)"

definition fp_of_nat :: "nat \<Rightarrow> fixed_point option" where
  "fp_of_nat n = map_option FixedPoint (fit n)"

section \<open>The loops as functions of the remaining bytes\<close>

lemma fp_int_loop_eq:
  "fp_int_loop s i v =
     (let ds = takeWhile (\<lambda>b. b \<noteq> b_dot) (drop i s) in
      if all_digits ds then map_option (\<lambda>w. (i + length ds, w)) (fit (dec_acc (unat v) ds))
      else None)"
proof (induction "length s - i" arbitrary: i v)
  case 0
  then show ?case by (simp add: fp_int_loop.simps [of s i v])
next
  case (Suc n)
  show ?case
  proof (cases "s ! i \<noteq> b_dot \<and> is_digit (s ! i)")
    case True
    from Suc.hyps(2) have "n = length s - Suc i" and i: "i < length s" by simp_all
    then have "Option.bind (fit (unat v * 10 + digit_val (s ! i))) (fp_int_loop s (Suc i))
        = (let ds = takeWhile (\<lambda>b. b \<noteq> b_dot) (drop (Suc i) s) in
           if all_digits ds then map_option (\<lambda>w. (Suc i + length ds, w))
             (fit (dec_acc (unat v * 10 + digit_val (s ! i)) ds)) else None)"
      using Suc.hyps(1) unfolding Let_def by (intro push_digits) simp
    with True i show ?thesis
      by (simp add: fp_int_loop.simps [of s i v] takeWhile_drop_step push_digit Let_def)
  next
    case False
    with Suc.hyps(2) show ?thesis
      by (auto simp: fp_int_loop.simps [of s i v] takeWhile_drop_step takeWhile_drop_stop)
  qed
qed

text \<open>
  The fraction loop reads at most eight digits in all, so its arithmetic cannot wrap: the value stays
  below \<open>10 ^ 8\<close>.
\<close>

lemma frac_step:
  fixes fd :: u32 and fr :: u64
  assumes "unat fd < 8" and "unat fr < 10 ^ unat fd" and "is_digit b"
  shows "unat (fd + 1) = Suc (unat fd)"
    and "unat (fr * 10 + ucast (b - b_zero)) = unat fr * 10 + digit_val b"
    and "unat fr * 10 + digit_val b < 10 ^ Suc (unat fd)"
proof -
  show "unat (fd + 1) = Suc (unat fd)"
    using assms(1) by (simp add: unat_word_ariths)
  show less: "unat fr * 10 + digit_val b < 10 ^ Suc (unat fd)"
    using assms(2) digit_val_less [OF assms(3)] by simp
  have "(10::nat) ^ Suc (unat fd) \<le> 10 ^ 8"
    using assms(1) by (intro power_increasing) simp_all
  with less show "unat (fr * 10 + ucast (b - b_zero)) = unat fr * 10 + digit_val b"
    by (simp add: unat_word_ariths digit_simps)
qed

lemma fp_frac_loop_eq:
  assumes "unat fd \<le> 8" and "unat fr < 10 ^ unat fd"
  shows "fp_frac_loop s i fr fd =
     (let ds = take (8 - unat fd) (drop i s) in
      if all_digits ds then Some (i + length ds, of_nat (dec_acc (unat fr) ds), fd + of_nat (length ds))
      else None)"
  using assms
proof (induction "length s - i" arbitrary: i fr fd)
  case 0
  then show ?case by (simp add: fp_frac_loop.simps [of s i fr fd])
next
  case (Suc n)
  have lt8: "fd < 8 \<longleftrightarrow> unat fd < 8" by (simp add: word_less_nat_alt)
  show ?case
  proof (cases "unat fd < 8 \<and> is_digit (s ! i)")
    case True
    from Suc.hyps(2) have n: "n = length s - Suc i" and i: "i < length s" by simp_all
    note step = frac_step [OF _ Suc.prems(2), of "s ! i"]
    have fd: "unat (fd + 1) = Suc (unat fd)" using True step(1) by simp
    have fr: "unat (fr * 10 + ucast (s ! i - b_zero)) = unat fr * 10 + digit_val (s ! i)"
      "unat (fr * 10 + ucast (s ! i - b_zero)) < 10 ^ unat (fd + 1)"
      using True step(2,3) fd by simp_all
    have "take (8 - unat fd) (drop i s) = s ! i # take (8 - unat (fd + 1)) (drop (Suc i) s)"
      using True i fd by (simp add: take_Cons' flip: Cons_nth_drop_Suc)
    with Suc.hyps(1) [OF n _ fr(2)] True i fd show ?thesis
      by (simp add: fp_frac_loop.simps [of s i fr fd] lt8 Let_def fr(1))
  next
    case False
    with Suc.hyps(2) show ?thesis
      by (auto simp: fp_frac_loop.simps [of s i fr fd] lt8 take_Cons' Let_def simp flip: Cons_nth_drop_Suc)
  qed
qed

lemma fp_skip_loop_eq:
  "i \<le> length s \<Longrightarrow> fp_skip_loop s i = (if all_digits (drop i s) then Some (length s) else None)"
proof (induction "length s - i" arbitrary: i)
  case 0
  then show ?case by (simp add: fp_skip_loop.simps [of s i])
next
  case (Suc n)
  then have "i < length s" by simp
  with Suc show ?case by (simp add: fp_skip_loop.simps [of s i] Let_def flip: Cons_nth_drop_Suc)
qed

section \<open>The parser computes the reference value\<close>

lemma POW10_nth: "k \<le> 8 \<Longrightarrow> unat (POW10 ! k) = 10 ^ k"
proof -
  assume "k \<le> 8"
  then consider "k = 0" | "k = 1" | "k = 2" | "k = 3" | "k = 4" | "k = 5" | "k = 6" | "k = 7" | "k = 8"
    by linarith
  then show ?thesis by cases (simp_all add: POW10_def)
qed

lemma unat_SCALE [simp]: "unat SCALE = 100000000"
  by (simp add: SCALE_def)

text \<open>The scaled fraction never overflows: the multiplication in the code needs no check.\<close>

lemma frac_scaled:
  fixes fd :: u32 and fr :: u64
  assumes "unat fd \<le> 8" and "unat fr < 10 ^ unat fd"
  shows "unat (fr * POW10 ! unat (8 - fd)) = unat fr * 10 ^ (8 - unat fd)"
    and "unat fr * 10 ^ (8 - unat fd) < 10 ^ 8"
proof -
  have "fd \<le> 8" using assms(1) by (simp add: word_le_nat_alt)
  then have fd: "unat (8 - fd) = 8 - unat fd" by (simp add: unat_sub)
  have "unat fr * 10 ^ (8 - unat fd) < 10 ^ unat fd * 10 ^ (8 - unat fd)"
    using assms(2) by simp
  also have "\<dots> = 10 ^ 8" using assms(1) by (simp flip: power_add)
  finally show "unat fr * 10 ^ (8 - unat fd) < 10 ^ 8" .
  then show "unat (fr * POW10 ! unat (8 - fd)) = unat fr * 10 ^ (8 - unat fd)"
    by (simp add: fd unat_word_ariths POW10_nth)
qed

lemma fp_combine_fit:
  assumes "unat fd \<le> 8" and "unat fr < 10 ^ unat fd"
  shows "Option.bind (fit n) (\<lambda>ip. fp_combine ip fr fd)
    = fp_of_nat (n * 10 ^ 8 + unat fr * 10 ^ (8 - unat fd))"
proof (rule bind_fit [where g = "\<lambda>n. fp_of_nat (n * 10 ^ 8 + unat fr * 10 ^ (8 - unat fd))"])
  fix ip :: u64
  let ?f = "unat fr * 10 ^ (8 - unat fd)"
  assume ip: "unat ip = n"
  have "fp_combine ip fr fd
      = Option.bind (fit (n * 10 ^ 8) :: u64 option) (\<lambda>m. Option.bind (fit (unat m + ?f)) (\<lambda>v. Some (FixedPoint v)))"
    using frac_scaled [OF assms] ip by (simp add: fp_combine_def fits Let_def)
  also have "\<dots> = fp_of_nat (n * 10 ^ 8 + ?f)"
    by (rule bind_fit [where g = "\<lambda>m. fp_of_nat (m + ?f)"])
      (auto simp: fp_of_nat_def fit_def)
  finally show "fp_combine ip fr fd = fp_of_nat (n * 10 ^ 8 + ?f)" .
qed (simp add: fp_of_nat_def fit_def)

text \<open>Keeping eight fraction digits is rounding the scaled value down.\<close>

lemma frac_trunc:
  assumes "all_digits ds"
  shows "digits_val (take 8 ds) * 10 ^ (8 - length (take 8 ds)) = digits_val ds * 10 ^ 8 div 10 ^ length ds"
proof (cases "length ds \<le> 8")
  case True
  then have "(10::nat) ^ 8 = 10 ^ (8 - length ds) * 10 ^ length ds"
    using power_add [of "10::nat" "8 - length ds" "length ds"] by simp
  moreover have "digits_val ds * (10 ^ (8 - length ds) * 10 ^ length ds) div 10 ^ length ds
      = digits_val ds * 10 ^ (8 - length ds)"
    by simp
  ultimately have "digits_val ds * 10 ^ 8 div 10 ^ length ds = digits_val ds * 10 ^ (8 - length ds)"
    by (simp only:)
  with True show ?thesis by simp
next
  case False
  let ?k = "length ds - 8"
  have "all_digits (drop 8 ds)" using assms by (simp add: list_all_iff) (meson in_set_dropD)
  then have lo: "digits_val (drop 8 ds) < 10 ^ ?k" using digits_val_less by fastforce
  have split: "digits_val ds = digits_val (take 8 ds) * 10 ^ ?k + digits_val (drop 8 ds)"
    using dec_acc_append [of 0 "take 8 ds" "drop 8 ds"] dec_acc_linear [of "digits_val (take 8 ds)" "drop 8 ds"]
    by simp
  have "(digits_val (take 8 ds) * 10 ^ ?k + digits_val (drop 8 ds)) div 10 ^ ?k = digits_val (take 8 ds)"
    using lo by simp
  with split have "digits_val ds div 10 ^ ?k = digits_val (take 8 ds)" by (simp only:)
  moreover have "digits_val ds * 10 ^ 8 div 10 ^ length ds = digits_val ds div 10 ^ ?k"
  proof -
    have "(10::nat) ^ length ds = 10 ^ ?k * 10 ^ 8"
      using False power_add [of "10::nat" ?k 8] by simp
    moreover have "digits_val ds * 10 ^ 8 div (10 ^ ?k * 10 ^ 8) = digits_val ds div 10 ^ ?k"
      by (rule div_mult_mult2) simp
    ultimately show ?thesis by (simp only:)
  qed
  ultimately show ?thesis using False by simp
qed

lemma fp_fraction:
  assumes "i \<le> length s"
  shows "do {
       (j, fr, fd) \<leftarrow> fp_frac_loop s i 0 0;
       j \<leftarrow> fp_skip_loop s j;
       Some (j, fr, fd)
     } = (let ds = drop i s in
          if all_digits ds
          then Some (length s, of_nat (digits_val (take 8 ds)), of_nat (length (take 8 ds)))
          else None)"
proof -
  have "all_digits (drop i s) \<longleftrightarrow> all_digits (take 8 (drop i s)) \<and> all_digits (drop 8 (drop i s))"
    by (subst append_take_drop_id [of 8 "drop i s", symmetric], subst list_all_append) (rule refl)
  moreover have "drop (i + length (take 8 (drop i s))) s = drop 8 (drop i s)"
    by (simp add: min_def add.commute)
  ultimately show ?thesis
    using assms by (simp add: fp_frac_loop_eq fp_skip_loop_eq Let_def)
qed

lemma frac_parts:
  assumes "all_digits ds"
  shows "unat (of_nat (length (take 8 ds)) :: u32) = length (take 8 ds)"
    and "unat (of_nat (digits_val (take 8 ds)) :: u64) = digits_val (take 8 ds)"
    and "digits_val (take 8 ds) < 10 ^ length (take 8 ds)"
    and "(of_nat (length (take 8 ds)) :: u32) = 0 \<longleftrightarrow> ds = []"
proof -
  have "all_digits (take 8 ds)" using assms by (auto simp: list_all_iff dest: in_set_takeD)
  then show less: "digits_val (take 8 ds) < 10 ^ length (take 8 ds)" by (rule digits_val_less)
  also have "\<dots> \<le> 10 ^ 8" by (rule power_increasing) simp_all
  finally show "unat (of_nat (digits_val (take 8 ds)) :: u64) = digits_val (take 8 ds)"
    by (intro unat_of_nat_small) simp
  show k: "unat (of_nat (length (take 8 ds)) :: u32) = length (take 8 ds)"
    by (intro unat_of_nat_small) simp
  have "(of_nat (length (take 8 ds)) :: u32) = 0 \<longleftrightarrow> unat (of_nat (length (take 8 ds)) :: u32) = 0"
    by (simp only: unat_eq_zero)
  then show "(of_nat (length (take 8 ds)) :: u32) = 0 \<longleftrightarrow> ds = []" unfolding k by (auto simp: min_def)
qed

text \<open>
  The common end of both parsers: with the integer digits \<open>ip\<close> and the fraction digits \<open>fp\<close> read,
  the two checked steps are one range test on the scaled value.
\<close>

lemma fp_combine_digits:
  assumes "all_digits fp"
  shows "Option.bind (fit (digits_val ip)) (\<lambda>w.
      fp_combine w (of_nat (digits_val (take 8 fp))) (of_nat (length (take 8 fp))))
    = fp_of_nat (digits_val ip * 10 ^ 8 + digits_val fp * 10 ^ 8 div 10 ^ length fp)"
  using fp_combine_fit [of "of_nat (length (take 8 fp))" "of_nat (digits_val (take 8 fp))" "digits_val ip"]
    frac_parts [OF assms] frac_trunc [OF assms]
  by simp

lemma fp_parse_eq: "fp_parse s = Option.bind (decimal_raw s) fp_of_nat"
proof -
  define ip where "ip = takeWhile (\<lambda>b. b \<noteq> b_dot) s"
  define fp where "fp = tl (dropWhile (\<lambda>b. b \<noteq> b_dot) s)"
  have fp: "fp = drop (Suc (length ip)) s"
    by (simp add: fp_def ip_def dropWhile_eq_drop drop_Suc tl_drop)
  have dot: "s ! length ip = b_dot" if "length ip < length s"
    using nth_length_takeWhile [of "\<lambda>b. b \<noteq> b_dot" s] that by (simp add: ip_def)
  have le: "length ip \<le> length s" by (simp add: ip_def length_takeWhile_le)
  show ?thesis
  proof (cases "s = [] \<or> \<not> all_digits ip")
    case True
    then show ?thesis
      by (auto simp: fp_parse_def decimal_raw_def fp_int_loop_eq Let_def ip_def)
  next
    case False
    show ?thesis
    proof (cases "length ip < length s")
      case True
      then show ?thesis
        using False dot fp_fraction [of "Suc (length ip)" s] fp_combine_digits [of fp ip] frac_parts(4) [of fp]
        by (auto simp: fp_parse_def decimal_raw_def fp_int_loop_eq Let_def
            simp flip: ip_def fp_def fp)
    next
      case no_dot: False
      then have "ip = s" using le ip_def by (metis le_neq_implies_less takeWhile_eq_take take_all)
      moreover from no_dot have "fp = []" by (simp add: fp)
      ultimately show ?thesis
        using False fp_combine_digits [of "[]" ip]
        by (auto simp: fp_parse_def decimal_raw_def fp_int_loop_eq Let_def simp flip: ip_def fp_def)
    qed
  qed
qed

section \<open>Printing and parsing back\<close>

lemma decimal_raw_dot:
  "b_dot \<notin> set ip \<Longrightarrow> decimal_raw (ip @ b_dot # fp) =
     (if all_digits ip \<and> all_digits fp \<and> (ip \<noteq> [] \<or> fp \<noteq> [])
      then Some (digits_val ip * 10 ^ 8 + digits_val fp * 10 ^ 8 div 10 ^ length fp) else None)"
proof -
  assume "b_dot \<notin> set ip"
  then have "takeWhile (\<lambda>b. b \<noteq> b_dot) (ip @ b_dot # fp) = ip"
    and "dropWhile (\<lambda>b. b \<noteq> b_dot) (ip @ b_dot # fp) = b_dot # fp"
    by (induction ip) auto
  then show ?thesis by (simp only: decimal_raw_def Let_def list.sel)
qed

lemma decimal_raw_no_dot:
  "b_dot \<notin> set ip \<Longrightarrow> decimal_raw ip =
     (if all_digits ip \<and> ip \<noteq> [] then Some (digits_val ip * 10 ^ 8) else None)"
proof -
  assume "b_dot \<notin> set ip"
  then have "takeWhile (\<lambda>b. b \<noteq> b_dot) ip = ip" and "dropWhile (\<lambda>b. b \<noteq> b_dot) ip = []"
    by (induction ip) auto
  then show ?thesis by (simp only: decimal_raw_def Let_def list.sel) simp
qed

lemma digits_no_dot: "all_digits ds \<Longrightarrow> b_dot \<notin> set ds"
  by (auto simp: list_all_iff dest: digit_neq(1))

lemma decimal_raw_display: "decimal_raw (fp_display x) = Some (unat (raw x))"
proof -
  let ?b = "unat (raw x) mod 100000000"
  have "length (show_nat ?b) \<le> 8" by (rule length_show_nat) simp_all
  then have len: "length (pad0 8 (show_nat ?b)) = 8" by (rule length_pad0)
  have "decimal_raw (show_nat (unat (raw x) div 100000000) @ b_dot # pad0 8 (show_nat ?b))
      = Some (unat (raw x) div 100000000 * 10 ^ 8 + ?b * 10 ^ 8 div 10 ^ 8)"
    using decimal_raw_dot [of "show_nat (unat (raw x) div 100000000)" "pad0 8 (show_nat ?b)"] len
    by (simp add: digit_simps digits_no_dot)
  also have "\<dots> = Some (unat (raw x))" by simp
  finally show ?thesis by (simp add: fp_display_def Let_def unat_div unat_mod)
qed

lemma fp_display_parse: "fp_parse (fp_display x) = Some x"
  by (simp add: fp_parse_eq decimal_raw_display fp_of_nat_def)

text \<open>Bytes of a displayed price: what a scanner has to skip.\<close>

lemma fp_display_bytes:
  "list_all (\<lambda>b. is_digit b \<or> b = b_dot) (fp_display x)"
  using show_nat_digits [of "unat (raw x div SCALE)"] pad0_digits [OF show_nat_digits]
  by (auto simp: fp_display_def Let_def list_all_iff)

text \<open>To evaluate the parser on a literal: the reference has no machine word to wrap.\<close>

lemmas parse_eval = fp_parse_eq decimal_raw_def ascii_def digit_val_def Let_def fp_of_nat_def fit_def is_digit_def

section \<open>Properties\<close>

text \<open>
  C15. \<open>FixedPoint::parse\<close> computes exactly \<open>floor (decimal * 10 ^ 8)\<close>: it accepts the texts
  that are digits, at most one dot and at least one digit, truncates past the eighth fraction digit,
  and rejects a value that does not fit a \<open>u64\<close>. The reference works on unbounded naturals, so
  no intermediate product or sum of the code wraps.
\<close>

theorem fp_parse_correct:
  "fp_parse s = (case decimal_raw s of
       None \<Rightarrow> None
     | Some n \<Rightarrow> if n < 2 ^ 64 then Some (FixedPoint (of_nat n)) else None)"
  by (simp add: fp_parse_eq fp_of_nat_def fit_def split: option.split)

text \<open>
  Every price prints as a text that parses back to the same price: \<open>Display\<close> and
  \<open>FixedPoint::parse\<close> are inverse on all \<open>2 ^ 64\<close> values.
\<close>

theorem fp_display_roundtrip: "fp_parse (fp_display x) = Some x"
  by (rule fp_display_parse)

end
