(* ===== verification/BookTypes.thy ===== *)
theory BookTypes
  imports FixedPoint
begin

text \<open>
  \<open>src/types.rs\<close>, the order book data: \<open>RawLevel\<close>, \<open>Level\<close>, \<open>OrderBook\<close>, \<open>Summary\<close> and
  \<open>DEPTH\<close>; the exchange table of \<open>src/lib.rs\<close>; and \<open>TaggedSlice\<close> of \<open>src/merger.rs\<close>.

  The code also rests on two crates that are not part of this repository: \<open>memchr::memmem\<close>, whose
  \<open>Finder::find\<close> searches a substring, and \<open>arrayvec\<close>, whose \<open>ArrayVec::try_push\<close> appends below a
  fixed capacity. They are the record \<open>crates\<close>, an argument of every operation that calls them;
  their documented behaviour is the locale \<open>external_crates\<close>, the hypothesis of the lemmas that
  need it. An \<open>ArrayVec\<close> is represented by the slice it dereferences to, a list. An \<open>Instant\<close>
  and a \<open>Duration\<close> are their nanoseconds.
\<close>

section \<open>Data\<close>

definition DEPTH :: nat where
  "DEPTH = 10"

type_synonym exchange_id = u8
type_synonym instant = nat
type_synonym duration = nat

record raw_level =
  rl_price :: fixed_point
  rl_amount :: fixed_point

record level =
  lv_price :: fixed_point
  lv_amount :: fixed_point
  lv_exchange_id :: exchange_id

record order_book =
  ob_exchange_id :: exchange_id
  ob_bids :: "raw_level list"
  ob_asks :: "raw_level list"
  ob_decode_start :: instant

text \<open>\<open>spread_raw: i64\<close> is a 64-bit word read with \<open>sint\<close>.\<close>

record summary =
  sm_spread_raw :: "64 word"
  sm_bids :: "level list"
  sm_asks :: "level list"

definition default_summary :: summary where
  "default_summary = \<lparr>sm_spread_raw = 0, sm_bids = [], sm_asks = []\<rparr>"

record tagged_slice =
  ts_exchange_id :: exchange_id
  ts_levels :: "raw_level list"

definition EXCHANGES :: "bytes list" where
  "EXCHANGES = [ascii ''binance'', ascii ''bitstamp'']"

definition BINANCE_ID :: exchange_id where
  "BINANCE_ID = 0"

definition BITSTAMP_ID :: exchange_id where
  "BITSTAMP_ID = 1"

text \<open>\<open>EXCHANGES[id as usize]\<close> panics past the end of the table.\<close>

definition exchange_name :: "exchange_id \<Rightarrow> bytes run" where
  "exchange_name eid = (if unat eid < length EXCHANGES then Inr (EXCHANGES ! unat eid) else Inl IndexOutOfBounds)"

text \<open>What \<open>OrderBook\<close> promises of its sides: bids descend in price and asks ascend.\<close>

definition bids_sorted :: "raw_level list \<Rightarrow> bool" where
  "bids_sorted ls \<longleftrightarrow> sorted_wrt (\<lambda>a b. rl_price b < rl_price a) ls"

definition asks_sorted :: "raw_level list \<Rightarrow> bool" where
  "asks_sorted ls \<longleftrightarrow> sorted_wrt (\<lambda>a b. rl_price a < rl_price b) ls"

section \<open>The external crates\<close>

record crates =
  memmem_find :: "bytes \<Rightarrow> bytes \<Rightarrow> nat option"
  push_raw :: "nat \<Rightarrow> raw_level list \<Rightarrow> raw_level \<Rightarrow> raw_level list option"
  push_level :: "nat \<Rightarrow> level list \<Rightarrow> level \<Rightarrow> level list option"
  push_slice :: "nat \<Rightarrow> tagged_slice list \<Rightarrow> tagged_slice \<Rightarrow> tagged_slice list option"

definition occurs_at :: "'a list \<Rightarrow> 'a list \<Rightarrow> nat \<Rightarrow> bool" where
  "occurs_at needle hay i \<longleftrightarrow> (\<exists>rest. drop i hay = needle @ rest) \<and> i \<le> length hay"

text \<open>Two bytes that do not stand side by side.\<close>

fun no_pair :: "'a \<Rightarrow> 'a \<Rightarrow> 'a list \<Rightarrow> bool" where
  "no_pair c c' (x # y # zs) \<longleftrightarrow> \<not> (x = c \<and> y = c') \<and> no_pair c c' (y # zs)"
| "no_pair c c' _ = True"

lemma no_pair_drop: "no_pair c c' xs \<Longrightarrow> no_pair c c' (drop n xs)"
proof (induction n arbitrary: xs)
  case (Suc n)
  then show ?case by (cases xs; cases "tl xs") auto
qed simp

lemma no_pair_absent: "c' \<notin> set xs \<Longrightarrow> no_pair c c' xs"
  by (induction c c' xs rule: no_pair.induct) auto

text \<open>\<open>Finder::find\<close>: the index of the first occurrence of the needle, or \<open>None\<close>.\<close>

locale substring_search =
  fixes find :: "bytes \<Rightarrow> bytes \<Rightarrow> nat option"
  assumes find_Some: "find needle hay = Some i \<longleftrightarrow>
      occurs_at needle hay i \<and> (\<forall>j<i. \<not> occurs_at needle hay j)"
    and find_None: "find needle hay = None \<longleftrightarrow> (\<forall>i. \<not> occurs_at needle hay i)"
begin

lemma find_bound: "find needle hay = Some i \<Longrightarrow> i + length needle \<le> length hay"
proof -
  assume "find needle hay = Some i"
  then obtain rest where "drop i hay = needle @ rest" and "i \<le> length hay"
    by (auto simp: find_Some occurs_at_def)
  then have "length hay - i = length needle + length rest" by (metis length_append length_drop)
  with \<open>i \<le> length hay\<close> show ?thesis by linarith
qed

text \<open>
  The needle after text in which its first two bytes do not follow each other: the first occurrence is
  the one after that text, if the two bytes differ.
\<close>

lemma find_after:
  assumes "c \<noteq> c'" and "no_pair c c' junk"
  shows "find (c # c' # needle) (junk @ c # c' # needle @ rest) = Some (length junk)"
proof -
  let ?hay = "junk @ c # c' # needle @ rest"
  have "\<not> occurs_at (c # c' # needle) ?hay j" if j: "j < length junk" for j
  proof
    assume "occurs_at (c # c' # needle) ?hay j"
    then obtain r where r: "drop j ?hay = c # c' # needle @ r" by (auto simp: occurs_at_def)
    obtain d ds where d: "drop j junk = d # ds" using j by (cases "drop j junk") auto
    have "no_pair c c' (d # ds)" using no_pair_drop [OF assms(2), of j] d by simp
    with r j d assms(1) show False by (cases ds) auto
  qed
  then show ?thesis by (auto simp: find_Some occurs_at_def)
qed

lemma find_absent: "c \<in> set needle \<Longrightarrow> c \<notin> set hay \<Longrightarrow> find needle hay = None"
  unfolding find_None occurs_at_def by (metis Un_iff in_set_dropD set_append)

end

text \<open>\<open>ArrayVec::try_push\<close>: append, or hand the element back when the vector is full.\<close>

locale bounded_push =
  fixes push :: "nat \<Rightarrow> 'a list \<Rightarrow> 'a \<Rightarrow> 'a list option"
  assumes push_eq: "push cap xs x = (if length xs < cap then Some (xs @ [x]) else None)"
begin

lemma push_bound: "push cap xs x = Some ys \<Longrightarrow> length ys \<le> cap"
  by (auto simp: push_eq split: if_splits)

end

locale external_crates =
  search: substring_search "memmem_find X" +
  raw_vec: bounded_push "push_raw X" +
  level_vec: bounded_push "push_level X" +
  slice_vec: bounded_push "push_slice X"
  for X :: crates

text \<open>Concrete functions with the documented behaviour, for the witnesses.\<close>

fun first_occurrence :: "bytes \<Rightarrow> bytes \<Rightarrow> nat option" where
  "first_occurrence needle [] = (if needle = [] then Some 0 else None)"
| "first_occurrence needle (b # hay) =
     (if take (length needle) (b # hay) = needle then Some 0
      else map_option Suc (first_occurrence needle hay))"

definition bounded_append :: "nat \<Rightarrow> 'a list \<Rightarrow> 'a \<Rightarrow> 'a list option" where
  "bounded_append cap xs x = (if length xs < cap then Some (xs @ [x]) else None)"

definition reference_crates :: crates where
  "reference_crates = \<lparr>memmem_find = first_occurrence, push_raw = bounded_append,
     push_level = bounded_append, push_slice = bounded_append\<rparr>"

lemma occurs_at_0: "occurs_at needle hay 0 \<longleftrightarrow> take (length needle) hay = needle"
  by (auto simp: occurs_at_def) (metis append_take_drop_id)

lemma occurs_at_Suc: "occurs_at needle (b # hay) (Suc i) \<longleftrightarrow> occurs_at needle hay i"
  by (simp add: occurs_at_def)

lemma occurs_at_Nil: "occurs_at needle [] i \<longleftrightarrow> needle = [] \<and> i = 0"
  by (auto simp: occurs_at_def)

lemma first_occurrence_Some:
  "first_occurrence needle hay = Some i \<longleftrightarrow>
     occurs_at needle hay i \<and> (\<forall>j<i. \<not> occurs_at needle hay j)"
proof (induction hay arbitrary: i)
  case Nil
  then show ?case by (auto simp: occurs_at_Nil)
next
  case (Cons b hay)
  show ?case
    by (cases i) (auto simp: occurs_at_0 occurs_at_Suc Cons.IH less_Suc_eq_0_disj)
qed

lemma first_occurrence_None:
  "first_occurrence needle hay = None \<longleftrightarrow> (\<forall>i. \<not> occurs_at needle hay i)"
proof (induction hay)
  case Nil
  then show ?case by (auto simp: occurs_at_Nil)
next
  case (Cons b hay)
  have "(\<forall>i. \<not> occurs_at needle (b # hay) i)
      \<longleftrightarrow> \<not> occurs_at needle (b # hay) 0 \<and> (\<forall>i. \<not> occurs_at needle hay i)"
    by (metis not0_implies_Suc occurs_at_Suc)
  with Cons.IH show ?case by (simp add: occurs_at_0)
qed

interpretation reference: external_crates reference_crates
  by unfold_locales
    (simp_all add: reference_crates_def first_occurrence_Some first_occurrence_None bounded_append_def)

end
