(* ===== verification/Scanner.thy ===== *)
theory Scanner
  imports BookTypes
begin

text \<open>
  \<open>src/json_walker.rs\<close>: the byte scanner and the level reader. A \<open>Scanner\<close> is its buffer and its
  position (\<open>buf\<close> and \<open>src\<close> are the same bytes). An operation taking \<open>&mut self\<close> returns its result
  and the scanner it leaves, also when the result is \<open>None\<close>. A \<open>memmem::Finder\<close> is the needle it
  was built from; its \<open>find\<close> is the crate's (\<open>memmem_find\<close>).

  Every loop is a function of the position. The lemmas ending in \<open>_eq\<close> rewrite each into a function
  of the bytes that remain, and the section on \<open>advances\<close> shows that operations only move forward.
\<close>

section \<open>State and byte operations\<close>

record scanner =
  buf :: bytes
  pos :: nat

definition scanner_new :: "bytes \<Rightarrow> scanner" where
  "scanner_new json = \<lparr>buf = json, pos = 0\<rparr>"

definition peek :: "scanner \<Rightarrow> u8 option" where
  "peek s = (if pos s < length (buf s) then Some (buf s ! pos s) else None)"

definition is_ws :: "u8 \<Rightarrow> bool" where
  "is_ws b \<longleftrightarrow> b = 32 \<or> b = 9 \<or> b = 10 \<or> b = 13"

function skip_ws :: "scanner \<Rightarrow> scanner" where
  "skip_ws s =
     (if pos s < length (buf s) \<and> is_ws (buf s ! pos s) then skip_ws (s\<lparr>pos := pos s + 1\<rparr>) else s)"
  by pat_completeness auto
termination
  by (relation "measure (\<lambda>s. length (buf s) - pos s)") auto

definition expect_byte :: "scanner \<Rightarrow> u8 \<Rightarrow> bool \<times> scanner" where
  "expect_byte s byte =
     (if pos s < length (buf s) \<and> buf s ! pos s = byte then (True, s\<lparr>pos := pos s + 1\<rparr>) else (False, s))"

text \<open>\<open>&self.buf[self.pos..]\<close> panics when the position is past the end of the buffer.\<close>

definition seek :: "crates \<Rightarrow> scanner \<Rightarrow> bytes \<Rightarrow> (unit option \<times> scanner) run" where
  "seek X s needle =
     (if length (buf s) < pos s then Inl SliceStartIndex
      else Inr (case memmem_find X needle (drop (pos s) (buf s)) of
          None \<Rightarrow> (None, s)
        | Some offset \<Rightarrow> (Some (), s\<lparr>pos := pos s + (offset + length needle)\<rparr>)))"

section \<open>Strings and integers\<close>

text \<open>\<open>str::get\<close> of a range: \<open>None\<close> off a UTF-8 character boundary or out of range.\<close>

definition is_continuation :: "u8 \<Rightarrow> bool" where
  "is_continuation b \<longleftrightarrow> 128 \<le> b \<and> b < 192"

definition is_char_boundary :: "bytes \<Rightarrow> nat \<Rightarrow> bool" where
  "is_char_boundary s i \<longleftrightarrow>
     i = 0 \<or> i = length s \<or> (i < length s \<and> \<not> is_continuation (s ! i))"

definition str_get :: "bytes \<Rightarrow> nat \<Rightarrow> nat \<Rightarrow> bytes option" where
  "str_get s a b =
     (if a \<le> b \<and> is_char_boundary s a \<and> is_char_boundary s b then Some (take (b - a) (drop a s)) else None)"

function read_string_loop :: "nat \<Rightarrow> scanner \<Rightarrow> bytes option \<times> scanner" where
  "read_string_loop start s =
     (if pos s < length (buf s) then
        (let b = buf s ! pos s in
         if b = b_quote then
           (case str_get (buf s) start (pos s) of
              None \<Rightarrow> (None, s)
            | Some result \<Rightarrow> (Some result, s\<lparr>pos := pos s + 1\<rparr>))
         else if b = b_backslash then read_string_loop start (s\<lparr>pos := pos s + 2\<rparr>)
         else read_string_loop start (s\<lparr>pos := pos s + 1\<rparr>))
      else (None, s))"
  by pat_completeness auto
termination
  by (relation "measure (\<lambda>(start, s). length (buf s) - pos s)") auto

definition read_string :: "scanner \<Rightarrow> bytes option \<times> scanner" where
  "read_string s =
     (let s = skip_ws s in
      if length (buf s) \<le> pos s \<or> buf s ! pos s \<noteq> b_quote then (None, s)
      else (let s = s\<lparr>pos := pos s + 1\<rparr> in read_string_loop (pos s) s))"

function read_u64_loop :: "u64 \<Rightarrow> scanner \<Rightarrow> u64 \<times> scanner" where
  "read_u64_loop val s =
     (if pos s < length (buf s) then
        (let d = buf s ! pos s - b_zero in
         if 9 < d then (val, s)
         else (case do { v \<leftarrow> checked_mul val 10; checked_add v (ucast d) } of
             Some v \<Rightarrow> read_u64_loop v (s\<lparr>pos := pos s + 1\<rparr>)
           | None \<Rightarrow> (0, s)))
      else (val, s))"
  by pat_completeness auto
termination
  by (relation "measure (\<lambda>(val, s). length (buf s) - pos s)") auto

definition read_u64 :: "scanner \<Rightarrow> u64 \<times> scanner" where
  "read_u64 s = read_u64_loop 0 (skip_ws s)"

section \<open>Quoted decimals\<close>

function rqd_int_loop :: "u64 \<Rightarrow> u32 \<Rightarrow> scanner \<Rightarrow> (u64 \<times> u32) option \<times> scanner" where
  "rqd_int_loop int_part int_digits s =
     (if pos s < length (buf s) \<and> buf s ! pos s \<noteq> b_dot \<and> buf s ! pos s \<noteq> b_quote then
        (let d = buf s ! pos s - b_zero in
         if 9 < d then (None, s)
         else (case do { m \<leftarrow> checked_mul int_part 10; checked_add m (ucast d) } of
             None \<Rightarrow> (None, s)
           | Some v \<Rightarrow> rqd_int_loop v (int_digits + 1) (s\<lparr>pos := pos s + 1\<rparr>)))
      else (Some (int_part, int_digits), s))"
  by pat_completeness auto
termination
  by (relation "measure (\<lambda>(_, _, s). length (buf s) - pos s)") auto

function rqd_frac_loop :: "u64 \<Rightarrow> u32 \<Rightarrow> scanner \<Rightarrow> (u64 \<times> u32) option \<times> scanner" where
  "rqd_frac_loop frac_part frac_digits s =
     (if pos s < length (buf s) \<and> buf s ! pos s \<noteq> b_quote \<and> frac_digits < 8 then
        (let d = buf s ! pos s - b_zero in
         if 9 < d then (None, s)
         else rqd_frac_loop (frac_part * 10 + ucast d) (frac_digits + 1) (s\<lparr>pos := pos s + 1\<rparr>))
      else (Some (frac_part, frac_digits), s))"
  by pat_completeness auto
termination
  by (relation "measure (\<lambda>(_, _, s). length (buf s) - pos s)") auto

function rqd_skip_loop :: "scanner \<Rightarrow> unit option \<times> scanner" where
  "rqd_skip_loop s =
     (if pos s < length (buf s) \<and> buf s ! pos s \<noteq> b_quote then
        (let d = buf s ! pos s - b_zero in
         if 9 < d then (None, s) else rqd_skip_loop (s\<lparr>pos := pos s + 1\<rparr>))
      else (Some (), s))"
  by pat_completeness auto
termination
  by (relation "measure (\<lambda>s. length (buf s) - pos s)") auto

definition rqd_fraction :: "scanner \<Rightarrow> (u64 \<times> u32) option \<times> scanner" where
  "rqd_fraction s =
     (if pos s < length (buf s) \<and> buf s ! pos s = b_dot then
        (case rqd_frac_loop 0 0 (s\<lparr>pos := pos s + 1\<rparr>) of
           (None, s) \<Rightarrow> (None, s)
         | (Some parts, s) \<Rightarrow>
             (case rqd_skip_loop s of
                (None, s) \<Rightarrow> (None, s)
              | (Some _, s) \<Rightarrow> (Some parts, s)))
      else (Some (0, 0), s))"

text \<open>From the end of the integer digits on.\<close>

definition rqd_finish :: "u64 \<Rightarrow> u32 \<Rightarrow> scanner \<Rightarrow> fixed_point option \<times> scanner" where
  "rqd_finish int_part int_digits s =
     (case rqd_fraction s of
        (None, s) \<Rightarrow> (None, s)
      | (Some (frac_part, frac_digits), s) \<Rightarrow>
          if int_digits = 0 \<and> frac_digits = 0 then (None, s)
          else if length (buf s) \<le> pos s \<or> buf s ! pos s \<noteq> b_quote then (None, s)
          else (fp_combine int_part frac_part frac_digits, s\<lparr>pos := pos s + 1\<rparr>))"

definition read_quoted_decimal :: "scanner \<Rightarrow> fixed_point option \<times> scanner" where
  "read_quoted_decimal s =
     (if length (buf s) \<le> pos s \<or> buf s ! pos s \<noteq> b_quote then (None, s)
      else
        (case rqd_int_loop 0 0 (s\<lparr>pos := pos s + 1\<rparr>) of
           (None, s) \<Rightarrow> (None, s)
         | (Some (int_part, int_digits), s) \<Rightarrow> rqd_finish int_part int_digits s))"

declare skip_ws.simps [simp del] read_string_loop.simps [simp del] read_u64_loop.simps [simp del]
  rqd_int_loop.simps [simp del] rqd_frac_loop.simps [simp del] rqd_skip_loop.simps [simp del]

section \<open>Operations only move forward\<close>

definition advances :: "scanner \<Rightarrow> scanner \<Rightarrow> bool" where
  "advances s s' \<longleftrightarrow> buf s' = buf s \<and> pos s \<le> pos s'
     \<and> (pos s \<le> length (buf s) \<longrightarrow> pos s' \<le> length (buf s))"

named_theorems forward \<open>scanner operations that only move forward\<close>

lemma advances_refl [forward, simp]: "advances s s"
  by (simp add: advances_def)

lemma advances_trans: "advances s s' \<Longrightarrow> advances s' s'' \<Longrightarrow> advances s s''"
  by (auto simp: advances_def)

lemma advances_step: "pos s < length (buf s) \<Longrightarrow> advances s (s\<lparr>pos := Suc (pos s)\<rparr>)"
  by (simp add: advances_def)

lemma advances_pos: "advances s s' \<Longrightarrow> pos s \<le> length (buf s) \<Longrightarrow> pos s' \<le> length (buf s')"
  by (simp add: advances_def)

lemma step_advances:
  "pos s < length (buf s) \<Longrightarrow> advances (s\<lparr>pos := Suc (pos s)\<rparr>) s' \<Longrightarrow> advances s s'"
  by (auto simp: advances_def)

lemma skip_ws_forward [forward]: "advances s (skip_ws s)"
proof (induction s rule: skip_ws.induct)
  case (1 s)
  then show ?case by (subst skip_ws.simps) (auto intro: step_advances)
qed

lemma expect_byte_forward [forward]: "advances s (snd (expect_byte s b))"
  by (simp add: expect_byte_def advances_step)

lemma read_u64_loop_forward: "advances s (snd (read_u64_loop v s))"
proof (induction v s rule: read_u64_loop.induct)
  case (1 v s)
  then show ?case
    by (subst read_u64_loop.simps) (auto simp: Let_def intro: step_advances split: option.splits)
qed

lemma read_u64_forward [forward]: "advances s (snd (read_u64 s))"
  unfolding read_u64_def by (rule advances_trans [OF skip_ws_forward read_u64_loop_forward])

lemma rqd_int_loop_forward [forward]: "advances s (snd (rqd_int_loop v d s))"
proof (induction v d s rule: rqd_int_loop.induct)
  case (1 v d s)
  then show ?case
    by (subst rqd_int_loop.simps) (auto simp: Let_def intro: step_advances split: option.splits)
qed

lemma rqd_frac_loop_forward [forward]: "advances s (snd (rqd_frac_loop v d s))"
proof (induction v d s rule: rqd_frac_loop.induct)
  case (1 v d s)
  then show ?case by (subst rqd_frac_loop.simps) (auto simp: Let_def intro: step_advances)
qed

lemma rqd_skip_loop_forward [forward]: "advances s (snd (rqd_skip_loop s))"
proof (induction s rule: rqd_skip_loop.induct)
  case (1 s)
  then show ?case by (subst rqd_skip_loop.simps) (auto simp: Let_def intro: step_advances)
qed

lemma forward_via: "f s = (r, s') \<Longrightarrow> advances s (snd (f s)) \<Longrightarrow> advances s s'"
  by simp

lemma rqd_fraction_forward [forward]: "advances s (snd (rqd_fraction s))"
proof -
  let ?s = "s\<lparr>pos := pos s + 1\<rparr>"
  have "advances s (snd (rqd_frac_loop 0 0 ?s))"
    and "advances s (snd (rqd_skip_loop (snd (rqd_frac_loop 0 0 ?s))))" if "pos s < length (buf s)"
    using that rqd_frac_loop_forward [of ?s 0 0] rqd_skip_loop_forward
    by (auto intro: step_advances advances_trans)
  then show ?thesis by (auto simp: rqd_fraction_def split: prod.splits option.splits)
qed

lemma rqd_finish_forward [forward]: "advances s (snd (rqd_finish v d s))"
proof -
  let ?s1 = "snd (rqd_fraction s)"
  have "advances s (?s1\<lparr>pos := Suc (pos ?s1)\<rparr>)" if "pos ?s1 < length (buf ?s1)"
    using that rqd_fraction_forward [of s] advances_step [of ?s1] by (blast intro: advances_trans)
  with rqd_fraction_forward [of s] show ?thesis
    by (auto simp: rqd_finish_def not_le split: prod.splits option.splits)
qed

lemma read_quoted_decimal_forward [forward]: "advances s (snd (read_quoted_decimal s))"
proof (cases "pos s < length (buf s)")
  case True
  let ?s1 = "snd (rqd_int_loop 0 0 (s\<lparr>pos := pos s + 1\<rparr>))"
  have "advances s ?s1"
    using True rqd_int_loop_forward [of "s\<lparr>pos := pos s + 1\<rparr>" 0 0] by (simp add: step_advances)
  moreover from this have "advances s (snd (rqd_finish v d ?s1))" for v d
    by (rule advances_trans) (rule rqd_finish_forward)
  ultimately show ?thesis
    by (auto simp: read_quoted_decimal_def split: prod.splits option.splits)
qed (simp add: read_quoted_decimal_def)

section \<open>Level arrays\<close>

text \<open>The body of the level loop up to the closing bracket: one \<open>["price","qty"]\<close> pair.\<close>

definition read_pair :: "scanner \<Rightarrow> raw_level option \<times> scanner" where
  "read_pair s =
     (case expect_byte s b_lbracket of
        (False, s) \<Rightarrow> (None, s)
      | (True, s) \<Rightarrow>
     (case read_quoted_decimal s of
        (None, s) \<Rightarrow> (None, s)
      | (Some price, s) \<Rightarrow>
     (case expect_byte s b_comma of
        (False, s) \<Rightarrow> (None, s)
      | (True, s) \<Rightarrow>
     (case read_quoted_decimal s of
        (None, s) \<Rightarrow> (None, s)
      | (Some amount, s) \<Rightarrow>
     (case expect_byte s b_rbracket of
        (False, s) \<Rightarrow> (None, s)
      | (True, s) \<Rightarrow> (Some \<lparr>rl_price = price, rl_amount = amount\<rparr>, s))))))"

lemma read_pair_forward [forward]: "advances s (snd (read_pair s))"
  unfolding read_pair_def
  using expect_byte_forward [of s b_lbracket]
  by (auto split: prod.split bool.split option.split)
    (metis advances_trans expect_byte_forward read_quoted_decimal_forward snd_conv)+

lemma read_pair_progress:
  assumes "read_pair s = (Some l, s')"
  shows "pos s < pos s' \<and> pos s < length (buf s)"
proof -
  let ?s1 = "s\<lparr>pos := Suc (pos s)\<rparr>"
  have first: "pos s < length (buf s) \<and> buf s ! pos s = b_lbracket"
    using assms by (auto simp: read_pair_def expect_byte_def split: if_splits)
  then have "advances ?s1 s'"
    using assms unfolding read_pair_def
    by (auto simp: expect_byte_def [of s] split: prod.splits bool.splits option.splits)
      (metis advances_trans expect_byte_forward read_quoted_decimal_forward snd_conv)
  with first show ?thesis by (auto simp: advances_def)
qed

text \<open>\<open>loop\<close> of \<open>read_raw_levels::<N>\<close>, with the levels pushed so far.\<close>

function read_levels_loop :: "crates \<Rightarrow> nat \<Rightarrow> raw_level list \<Rightarrow> scanner \<Rightarrow> raw_level list option \<times> scanner" where
  "read_levels_loop X n levels s =
     (case read_pair s of
        (None, s') \<Rightarrow> (None, s')
      | (Some l, s') \<Rightarrow>
          (case (if raw (rl_amount l) \<noteq> 0 then push_raw X n levels l else Some levels) of
             None \<Rightarrow> (Some levels, s')
           | Some levels' \<Rightarrow>
               (case peek s' of
                  Some b \<Rightarrow>
                    if b = b_comma then
                      (if length levels' = n then (Some levels', s'\<lparr>pos := pos s' + 1\<rparr>)
                       else read_levels_loop X n levels' (s'\<lparr>pos := pos s' + 1\<rparr>))
                    else if b = b_rbracket then (Some levels', s'\<lparr>pos := pos s' + 1\<rparr>)
                    else (None, s')
                | None \<Rightarrow> (None, s'))))"
  by pat_completeness auto
termination
proof (relation "measure (\<lambda>(_, _, _, s). length (buf s) - pos s)", goal_cases)
  case (2 X n levels s x s' l levels' b)
  then have "read_pair s = (Some l, s')" by simp
  with read_pair_progress [of s l s'] read_pair_forward [of s] show ?case
    by (auto simp: advances_def)
qed simp

declare read_levels_loop.simps [simp del]

definition read_raw_levels :: "crates \<Rightarrow> nat \<Rightarrow> scanner \<Rightarrow> raw_level list option \<times> scanner" where
  "read_raw_levels X n s =
     (case expect_byte s b_lbracket of
        (False, s) \<Rightarrow> (None, s)
      | (True, s) \<Rightarrow>
          if peek s = Some b_rbracket then (Some [], s\<lparr>pos := pos s + 1\<rparr>)
          else read_levels_loop X n [] s)"

definition read_optional_raw_levels ::
    "crates \<Rightarrow> nat \<Rightarrow> scanner \<Rightarrow> bytes \<Rightarrow> (raw_level list option \<times> scanner) run" where
  "read_optional_raw_levels X n s finder =
     (case seek X s finder of
        Inl p \<Rightarrow> Inl p
      | Inr (Some _, s) \<Rightarrow> Inr (read_raw_levels X n s)
      | Inr (None, s) \<Rightarrow> Inr (Some [], s))"

definition extract_string :: "crates \<Rightarrow> bytes \<Rightarrow> bytes \<Rightarrow> bytes option run" where
  "extract_string X json pattern =
     (case seek X (scanner_new json) pattern of
        Inl p \<Rightarrow> Inl p
      | Inr (None, _) \<Rightarrow> Inr None
      | Inr (Some _, s) \<Rightarrow> Inr (fst (read_string s)))"

section \<open>Operations as functions of the remaining bytes\<close>

definition rest :: "scanner \<Rightarrow> bytes" where
  "rest s = drop (pos s) (buf s)"

definition advance :: "nat \<Rightarrow> scanner \<Rightarrow> scanner" where
  "advance k s = s\<lparr>pos := pos s + k\<rparr>"

lemma rest_advance [simp]: "rest (advance k s) = drop k (rest s)"
  by (simp add: rest_def advance_def add.commute)

lemma advance_advance [simp]: "advance j (advance k s) = advance (k + j) s"
  by (simp add: advance_def add.assoc)

lemma buf_advance [simp]: "buf (advance k s) = buf s"
  by (simp add: advance_def)

lemma pos_advance [simp]: "pos (advance k s) = pos s + k"
  by (simp add: advance_def)

lemma advance_0 [simp]: "advance 0 s = s"
  by (simp add: advance_def)

lemma advance_1: "s\<lparr>pos := Suc (pos s)\<rparr> = advance 1 s"
  by (simp add: advance_def)

text \<open>The three shapes of remaining bytes a loop can meet: none, or one byte and the rest.\<close>

lemma rest_Nil: "rest s = [] \<longleftrightarrow> length (buf s) \<le> pos s"
  by (simp add: rest_def)

lemma rest_Nil_D: "[] = rest s \<Longrightarrow> rest s = [] \<and> \<not> pos s < length (buf s)"
  using rest_Nil [of s] by simp

lemma rest_Cons: "rest s = b # bs \<longleftrightarrow> pos s < length (buf s) \<and> buf s ! pos s = b \<and> rest (advance 1 s) = bs"
  by (simp add: rest_def drop_eq_Cons_nth advance_def)

lemma rest_Cons_D:
  assumes "rest s = b # bs"
  shows "pos s < length (buf s)" "buf s ! pos s = b" "rest (advance 1 s) = bs"
  using assms by (simp_all add: rest_Cons)

lemma at_byte:
  "length (buf s) \<le> pos s \<or> buf s ! pos s \<noteq> b \<longleftrightarrow> \<not> (rest s \<noteq> [] \<and> hd (rest s) = b)"
  using hd_drop_conv_nth [of "pos s" "buf s"] by (auto simp: rest_def)

lemma skip_ws_eq: "skip_ws s = advance (length (takeWhile is_ws (rest s))) s"
proof (induction "rest s" arbitrary: s)
  case Nil
  from rest_Nil_D [OF Nil.hyps] Nil.prems show ?case by (simp add: skip_ws.simps [of s])
next
  case (Cons b bs)
  from Cons.hyps(2) have r: "rest s = b # bs" by simp
  note Cons.hyps(1) [of "advance 1 s"]
  with rest_Cons_D [OF r] show ?case by (simp add: skip_ws.simps [of s] r advance_1)
qed

lemma peek_eq: "peek s = (case rest s of [] \<Rightarrow> None | b # _ \<Rightarrow> Some b)"
  by (auto simp: peek_def rest_Nil rest_Cons split: list.split)

lemma expect_byte_eq:
  "expect_byte s b = (case rest s of [] \<Rightarrow> (False, s) | c # _ \<Rightarrow> if c = b then (True, advance 1 s) else (False, s))"
  by (auto simp: expect_byte_def rest_Nil rest_Cons advance_1 split: list.split)

lemma read_u64_loop_fst:
  "fst (read_u64_loop v s)
   = (case fit (dec_acc (unat v) (takeWhile is_digit (rest s))) of Some w \<Rightarrow> w | None \<Rightarrow> 0)"
proof (induction "rest s" arbitrary: v s)
  case Nil
  from rest_Nil_D [OF Nil.hyps] Nil.prems show ?case by (simp add: read_u64_loop.simps [of v s])
next
  case (Cons b bs)
  from Cons.hyps(2) have r: "rest s = b # bs" by simp
  note IH = Cons.hyps(1) [of "advance 1 s"]
  let ?n = "unat v * 10 + digit_val b"
  show ?case
  proof (cases "is_digit b \<and> ?n < 2 ^ 64")
    case True
    then obtain w :: u64 where "fit ?n = Some w" and "unat w = ?n" using fit_u64 [of ?n] by auto
    with True IH rest_Cons_D [OF r] show ?thesis
      by (simp add: read_u64_loop.simps [of v s] r advance_1 Let_def push_digit_value)
  next
    case False
    with dec_acc_ge [of ?n "takeWhile is_digit bs"] rest_Cons_D [OF r] u64_bound [of v] show ?thesis
      by (auto simp: read_u64_loop.simps [of v s] r Let_def push_digit_value fit_def)
  qed
qed

lemma read_u64_fst:
  "fst (read_u64 s)
   = (case fit (digits_val (takeWhile is_digit (dropWhile is_ws (rest s)))) of Some w \<Rightarrow> w | None \<Rightarrow> 0)"
  by (simp add: read_u64_def read_u64_loop_fst skip_ws_eq dropWhile_eq_drop)

lemma read_u64_loop_snd:
  "dec_acc (unat v) (takeWhile is_digit (rest s)) < 2 ^ 64 \<Longrightarrow>
   snd (read_u64_loop v s) = advance (length (takeWhile is_digit (rest s))) s"
proof (induction "rest s" arbitrary: v s)
  case Nil
  from rest_Nil_D [OF Nil.hyps] Nil.prems show ?case by (simp add: read_u64_loop.simps [of v s])
next
  case (Cons b bs)
  from Cons.hyps(2) have r: "rest s = b # bs" by simp
  let ?n = "unat v * 10 + digit_val b"
  show ?case
  proof (cases "is_digit b")
    case True
    then have "?n < 2 ^ 64" using Cons.prems dec_acc_ge [of ?n "takeWhile is_digit bs"] by (simp add: r)
    then obtain w :: u64 where "fit ?n = Some w" and "unat w = ?n" using fit_u64 [of ?n] by auto
    with True Cons.prems Cons.hyps(1) [of "advance 1 s"] rest_Cons_D [OF r] show ?thesis
      by (simp add: read_u64_loop.simps [of v s] r advance_1 Let_def push_digit_value)
  next
    case False
    with rest_Cons_D [OF r] show ?thesis by (simp add: read_u64_loop.simps [of v s] r Let_def)
  qed
qed

lemma read_u64_at:
  assumes "rest s = show_nat n @ c # t" and "\<not> is_digit c" and "n < 2 ^ 64"
  shows "read_u64 s = (of_nat n, advance (length (show_nat n)) s)"
proof -
  have digits: "takeWhile is_digit (rest s) = show_nat n"
    using show_nat_digits [of n] assms(1,2) by (simp add: list_all_iff)
  obtain d ds where d: "show_nat n = d # ds" by (cases "show_nat n") simp_all
  then have "is_digit d" using show_nat_digits [of n] by simp
  then have "\<not> is_ws d" by (auto simp: is_ws_def is_digit_def simp del: digit_test)
  then have ws: "skip_ws s = s" using assms(1) d by (simp add: skip_ws_eq)
  have val: "dec_acc (unat (0 :: u64)) (show_nat n) = n" by (simp add: show_nat_val)
  then have "fst (read_u64_loop 0 s) = of_nat n"
    using assms(3) unfolding read_u64_loop_fst digits by (simp add: fit_def)
  moreover have "snd (read_u64_loop 0 s) = advance (length (show_nat n)) s"
    using read_u64_loop_snd [of 0 s] val assms(3) unfolding digits by simp
  ultimately show ?thesis by (simp add: read_u64_def ws prod_eq_iff)
qed

abbreviation int_stop :: "u8 \<Rightarrow> bool" where
  "int_stop b \<equiv> b \<noteq> b_dot \<and> b \<noteq> b_quote"

lemma rqd_int_loop_fst:
  "fst (rqd_int_loop v d s)
   = (let ds = takeWhile int_stop (rest s) in
      if all_digits ds then map_option (\<lambda>w. (w, d + of_nat (length ds))) (fit (dec_acc (unat v) ds))
      else None)"
proof (induction "rest s" arbitrary: v d s)
  case Nil
  from rest_Nil_D [OF Nil.hyps] Nil.prems show ?case by (simp add: rqd_int_loop.simps [of v d s])
next
  case (Cons b bs)
  from Cons.hyps(2) have r: "rest s = b # bs" by simp
  note rc = rest_Cons_D [OF r]
  show ?case
  proof (cases "int_stop b \<and> is_digit b")
    case True
    let ?f = "\<lambda>w. (w, d + 1 + of_nat (length (takeWhile int_stop bs)))"
    have "Option.bind (fit (unat v * 10 + digit_val b)) (\<lambda>w. fst (rqd_int_loop w (d + 1) (advance 1 s)))
        = (if all_digits (takeWhile int_stop bs)
           then map_option ?f (fit (dec_acc (unat v * 10 + digit_val b) (takeWhile int_stop bs))) else None)"
      using Cons.hyps(1) [of "advance 1 s"] rc by (intro push_digits) (simp add: Let_def)
    with True rc show ?thesis
      by (simp add: rqd_int_loop.simps [of v d s] r advance_1 Let_def push_digit_value fst_case_option
          add.assoc)
  next
    case False
    with rc show ?thesis by (auto simp: rqd_int_loop.simps [of v d s] r Let_def)
  qed
qed

lemma rqd_int_loop_snd:
  "fst (rqd_int_loop v d s) = Some r \<Longrightarrow>
   snd (rqd_int_loop v d s) = advance (length (takeWhile int_stop (rest s))) s"
proof (induction "rest s" arbitrary: v d s)
  case Nil
  from rest_Nil_D [OF Nil.hyps] Nil.prems show ?case by (simp add: rqd_int_loop.simps [of v d s])
next
  case (Cons b bs)
  from Cons.hyps(2) have r: "rest s = b # bs" by simp
  with rest_Cons_D [OF r] Cons.hyps(1) [of "advance 1 s"] Cons.prems show ?case
    by (auto simp: rqd_int_loop.simps [of v d s] advance_1 Let_def split: if_splits option.splits)
qed

lemma rqd_frac_loop_eq:
  assumes "unat fd \<le> 8" and "unat fr < 10 ^ unat fd"
  shows "let ds = take (8 - unat fd) (takeWhile (\<lambda>b. b \<noteq> b_quote) (rest s)) in
     fst (rqd_frac_loop fr fd s)
       = (if all_digits ds then Some (of_nat (dec_acc (unat fr) ds), fd + of_nat (length ds)) else None)
     \<and> (all_digits ds \<longrightarrow> snd (rqd_frac_loop fr fd s) = advance (length ds) s)"
  using assms
proof (induction "rest s" arbitrary: fr fd s)
  case Nil
  from rest_Nil_D [OF Nil.hyps] Nil.prems show ?case by (simp add: rqd_frac_loop.simps [of fr fd s])
next
  case (Cons b bs)
  from Cons.hyps(2) have r: "rest s = b # bs" by simp
  note rc = rest_Cons_D [OF r]
  have lt8: "fd < 8 \<longleftrightarrow> unat fd < 8" by (simp add: word_less_nat_alt)
  show ?case
  proof (cases "b \<noteq> b_quote \<and> unat fd < 8 \<and> is_digit b")
    case True
    note step = frac_step [OF _ Cons.prems(2), of b]
    have fd: "unat (fd + 1) = Suc (unat fd)" using True step(1) by simp
    have fr: "unat (fr * 10 + ucast (b - b_zero)) = unat fr * 10 + digit_val b"
      "unat (fr * 10 + ucast (b - b_zero)) < 10 ^ unat (fd + 1)"
      using True step(2,3) fd by simp_all
    from True fd have "unat (fd + 1) \<le> 8" by simp
    with Cons.hyps(1) [of "advance 1 s", OF _ _ fr(2)] True rc fd show ?thesis
      by (simp add: rqd_frac_loop.simps [of fr fd s] lt8 Let_def fr(1) r take_Cons' advance_1)
  next
    case False
    with rc show ?thesis
      by (auto simp: rqd_frac_loop.simps [of fr fd s] lt8 Let_def r take_Cons')
  qed
qed

lemma rqd_skip_loop_eq:
  "let ds = takeWhile (\<lambda>b. b \<noteq> b_quote) (rest s) in
     fst (rqd_skip_loop s) = (if all_digits ds then Some () else None)
     \<and> (all_digits ds \<longrightarrow> snd (rqd_skip_loop s) = advance (length ds) s)"
proof (induction "rest s" arbitrary: s)
  case Nil
  from rest_Nil_D [OF Nil.hyps] Nil.prems show ?case by (simp add: rqd_skip_loop.simps [of s])
next
  case (Cons b bs)
  from Cons.hyps(2) have r: "rest s = b # bs" by simp
  from Cons.hyps(1) [of "advance 1 s"] rest_Cons_D [OF r] show ?case
    by (auto simp: rqd_skip_loop.simps [of s] r advance_1 Let_def)
qed

lemma rqd_fraction_eq:
  "let ds = takeWhile (\<lambda>b. b \<noteq> b_quote) (tl (rest s)) in
   (rest s \<noteq> [] \<and> hd (rest s) = b_dot \<longrightarrow>
      fst (rqd_fraction s) = (if all_digits ds
          then Some (of_nat (digits_val (take 8 ds)), of_nat (length (take 8 ds))) else None)
      \<and> (all_digits ds \<longrightarrow> snd (rqd_fraction s) = advance (Suc (length ds)) s))
   \<and> (\<not> (rest s \<noteq> [] \<and> hd (rest s) = b_dot) \<longrightarrow> rqd_fraction s = (Some (0, 0), s))"
proof (cases "rest s")
  case Nil
  then show ?thesis by (simp add: rqd_fraction_def rest_Nil)
next
  case (Cons b bs)
  note rc = rest_Cons_D [OF Cons]
  define ds where "ds = takeWhile (\<lambda>b. b \<noteq> b_quote) bs"
  have split: "all_digits ds \<longleftrightarrow> all_digits (take 8 ds) \<and> all_digits (drop 8 ds)"
    by (subst append_take_drop_id [of 8 ds, symmetric], subst list_all_append) (rule refl)
  note fr = rqd_frac_loop_eq [of 0 0 "advance 1 s", unfolded Let_def rc(3), folded ds_def, simplified]
  let ?s2 = "advance (length (take 8 ds)) (advance 1 s)"
  have "rest ?s2 = drop (length (take 8 ds)) bs" using Cons by simp
  moreover have "takeWhile (\<lambda>b. b \<noteq> b_quote) (drop (length (take 8 ds)) bs) = drop 8 ds"
    using takeWhile_drop_le [of "length (take 8 ds)" "\<lambda>b. b \<noteq> b_quote" bs] drop_length_take [of 8 ds]
    by (simp add: ds_def)
  ultimately have sk: "fst (rqd_skip_loop ?s2) = (if all_digits (drop 8 ds) then Some () else None)"
    "all_digits (drop 8 ds) \<Longrightarrow> snd (rqd_skip_loop ?s2) = advance (Suc (length ds)) s"
    using rqd_skip_loop_eq [of ?s2] by (auto simp: Let_def min_def)
  show ?thesis
    using Cons rc fr sk split
    by (auto simp: rqd_fraction_def Let_def advance_1 ds_def split: prod.splits option.splits)
qed

text \<open>
  \<open>rqd_finish\<close> on the three ways the bytes can go on after the integer digits \<open>ip\<close>: a fraction,
  the closing quote, or the end of the buffer.
\<close>

lemma rqd_finish_dot:
  assumes r: "rest s = b_dot # bs" and len: "length ip < 2 ^ 32" and ip: "all_digits ip"
  defines "fp \<equiv> takeWhile (\<lambda>b. b \<noteq> b_quote) bs"
  shows "Option.bind (fit (digits_val ip)) (\<lambda>w. fst (rqd_finish w (of_nat (length ip)) s))
      = (if b_quote \<in> set bs then Option.bind (decimal_raw (ip @ b_dot # fp)) fp_of_nat else None)"
    and "fst (rqd_finish w d s) = Some x \<Longrightarrow>
      b_quote \<in> set bs \<and> snd (rqd_finish w d s) = advance (Suc (Suc (length fp))) s"
proof -
  let ?s2 = "advance (Suc (length fp)) s"
  have d0: "(of_nat (length ip) :: u32) = 0 \<longleftrightarrow> ip = []"
    using len by (simp flip: unat_eq_zero add: unat_of_nat_small)
  have closed: "length (buf ?s2) \<le> pos ?s2 \<or> buf ?s2 ! pos ?s2 \<noteq> b_quote \<longleftrightarrow> b_quote \<notin> set bs"
  proof -
    have "rest ?s2 = dropWhile (\<lambda>b. b \<noteq> b_quote) bs" by (simp add: r fp_def dropWhile_eq_drop)
    then show ?thesis using at_byte [of ?s2 b_quote] dropWhile_neq_hd [of b_quote bs] by auto
  qed
  note fr = rqd_fraction_eq [of s, unfolded r list.sel, folded fp_def, simplified]
  have frac: "rqd_fraction s = (Some (of_nat (digits_val (take 8 fp)), of_nat (length (take 8 fp))), ?s2)"
    if "all_digits fp" using that fr by (simp add: prod_eq_iff)
  have fin: "rqd_finish w d s = (if d = 0 \<and> fp = [] then (None, ?s2)
      else if b_quote \<notin> set bs then (None, ?s2)
      else (fp_combine w (of_nat (digits_val (take 8 fp))) (of_nat (length (take 8 fp))), advance 1 ?s2))"
    if "all_digits fp" for w d
    unfolding rqd_finish_def frac [OF that] prod.case option.case closed frac_parts(4) [OF that]
    by (simp add: advance_1 del: pos_advance)
  have nofrac: "fst (rqd_finish w d s) = None" if "\<not> all_digits fp" for w d
    using that fr by (auto simp: rqd_finish_def Let_def split: prod.splits)
  show "Option.bind (fit (digits_val ip)) (\<lambda>w. fst (rqd_finish w (of_nat (length ip)) s))
      = (if b_quote \<in> set bs then Option.bind (decimal_raw (ip @ b_dot # fp)) fp_of_nat else None)"
    using nofrac fin fp_combine_digits [of fp ip] ip d0
    by (cases "all_digits fp"; cases "b_quote \<in> set bs"; cases "ip = []"; cases "fp = []")
      (simp_all add: decimal_raw_dot decimal_raw_dot [of "[]", simplified] digits_no_dot)
  show "fst (rqd_finish w d s) = Some x \<Longrightarrow>
      b_quote \<in> set bs \<and> snd (rqd_finish w d s) = advance (Suc (Suc (length fp))) s"
    using nofrac [of w d] fin [of w d] by (cases "all_digits fp") (auto split: if_splits)
qed

lemma rqd_finish_no_dot:
  assumes r: "\<not> (rest s \<noteq> [] \<and> hd (rest s) = b_dot)" and len: "length ip < 2 ^ 32" and ip: "all_digits ip"
  defines "closed \<equiv> rest s \<noteq> [] \<and> hd (rest s) = b_quote"
  shows "Option.bind (fit (digits_val ip)) (\<lambda>w. fst (rqd_finish w (of_nat (length ip)) s))
      = (if closed then Option.bind (decimal_raw ip) fp_of_nat else None)"
    and "fst (rqd_finish w d s) = Some x \<Longrightarrow> closed \<and> snd (rqd_finish w d s) = advance 1 s"
proof -
  have d0: "(of_nat (length ip) :: u32) = 0 \<longleftrightarrow> ip = []"
    using len by (simp flip: unat_eq_zero add: unat_of_nat_small)
  have frac: "rqd_fraction s = (Some (0, 0), s)"
    using rqd_fraction_eq [of s] r by (simp add: Let_def)
  have fin: "rqd_finish w d s = (if d = 0 then (None, s)
      else if \<not> closed then (None, s) else (fp_combine w 0 0, advance 1 s))" for w d
    unfolding rqd_finish_def frac prod.case option.case at_byte closed_def by (simp add: advance_1)
  show "Option.bind (fit (digits_val ip)) (\<lambda>w. fst (rqd_finish w (of_nat (length ip)) s))
      = (if closed then Option.bind (decimal_raw ip) fp_of_nat else None)"
    using fin fp_combine_digits [of "[]" ip] ip d0
    by (cases closed; cases "ip = []") (simp_all add: decimal_raw_no_dot decimal_raw_no_dot [of "[]", simplified] digits_no_dot)
  show "fst (rqd_finish w d s) = Some x \<Longrightarrow> closed \<and> snd (rqd_finish w d s) = advance 1 s"
    using fin [of w d] by (auto split: if_splits)
qed

text \<open>The content of the string literal that starts at the scanner's position, if it is closed.\<close>

definition quoted :: "bytes \<Rightarrow> bytes option" where
  "quoted r = (case r of
       b # xs \<Rightarrow> if b = b_quote \<and> b_quote \<in> set xs then Some (takeWhile (\<lambda>b. b \<noteq> b_quote) xs) else None
     | [] \<Rightarrow> None)"

lemma takeWhile_int_stop:
  "takeWhile (\<lambda>b. b \<noteq> b_quote) xs
   = takeWhile int_stop xs @ takeWhile (\<lambda>b. b \<noteq> b_quote) (dropWhile int_stop xs)"
  by (induction xs) auto

lemma int_stop_quote: "b_quote \<in> set xs \<longleftrightarrow> b_quote \<in> set (dropWhile int_stop xs)"
  by (induction xs) auto

lemma read_quoted_decimal_main:
  assumes len: "length (buf s) < 2 ^ 32"
  shows "fst (read_quoted_decimal s) = Option.bind (quoted (rest s)) fp_parse"
    and "fst (read_quoted_decimal s) = Some x \<Longrightarrow>
      snd (read_quoted_decimal s) = advance (length (the (quoted (rest s))) + 2) s"
proof -
  have "fst (read_quoted_decimal s) = Option.bind (quoted (rest s)) fp_parse
    \<and> (fst (read_quoted_decimal s) = Some x \<longrightarrow>
       snd (read_quoted_decimal s) = advance (length (the (quoted (rest s))) + 2) s)"
  proof (cases "rest s \<noteq> [] \<and> hd (rest s) = b_quote")
    case False
    then have "read_quoted_decimal s = (None, s)"
      unfolding read_quoted_decimal_def at_byte by simp
    with False show ?thesis by (auto simp: quoted_def split: list.split)
  next
    case True
    then obtain xs where r: "rest s = b_quote # xs" by (cases "rest s") auto
    define ip tl where "ip = takeWhile int_stop xs" and "tl = dropWhile int_stop xs"
    let ?s2 = "advance (length ip) (advance 1 s)"
    have s2: "rest ?s2 = tl" using r by (simp add: ip_def tl_def dropWhile_eq_drop)
    have lip: "length ip < 2 ^ 32"
    proof -
      have "length ip \<le> length xs" by (simp add: ip_def length_takeWhile_le)
      also have "\<dots> \<le> length (buf s)" using arg_cong [OF r, of length] by (simp add: rest_def)
      finally show ?thesis using len by simp
    qed
    have nd: "b_dot \<notin> set ip" by (auto simp: ip_def dest: set_takeWhileD)
    have q: "quoted (rest s) = (if b_quote \<in> set tl
        then Some (ip @ takeWhile (\<lambda>b. b \<noteq> b_quote) tl) else None)"
      using takeWhile_int_stop [of xs] int_stop_quote [of xs] by (simp add: quoted_def r ip_def tl_def)
    note int1 = rqd_int_loop_fst [of 0 0 "advance 1 s", unfolded rest_Cons_D(3) [OF r], folded ip_def]
    note int2 = rqd_int_loop_snd [of 0 0 "advance 1 s", unfolded rest_Cons_D(3) [OF r], folded ip_def]
    have eq: "read_quoted_decimal s = (case rqd_int_loop 0 0 (advance 1 s) of
        (None, s) \<Rightarrow> (None, s) | (Some (v, d), s) \<Rightarrow> rqd_finish v d s)"
      unfolding read_quoted_decimal_def at_byte using r by (simp add: advance_1)
    have fst_eq: "fst (read_quoted_decimal s) = (if all_digits ip
        then Option.bind (fit (digits_val ip)) (\<lambda>w. fst (rqd_finish w (of_nat (length ip)) ?s2)) else None)"
      using int1 int2 unfolding eq
      by (cases "fit (digits_val ip) :: u64 option") (auto simp: Let_def split: prod.splits)
    have snd_eq: "\<exists>w d. fst (rqd_finish w d ?s2) = Some x \<and> snd (read_quoted_decimal s) = snd (rqd_finish w d ?s2)"
      if "fst (read_quoted_decimal s) = Some x"
      using that int2 unfolding eq by (auto split: prod.splits option.splits)
    show ?thesis
    proof (cases "tl \<noteq> [] \<and> hd tl = b_dot")
      case True
      then obtain bs where tl: "tl = b_dot # bs" by (cases tl) auto
      note fin = rqd_finish_dot [OF s2 [unfolded tl] lip]
      show ?thesis
        using fst_eq snd_eq fin q tl nd by (auto simp: fp_parse_eq decimal_raw_dot split: if_splits)
    next
      case no_dot: False
      have hd_tl: "tl = [] \<or> hd tl = b_quote"
        using no_dot hd_dropWhile [of int_stop xs] by (auto simp: tl_def)
      note fin = rqd_finish_no_dot [of ?s2 ip, unfolded s2, OF no_dot lip]
      show ?thesis
        using fst_eq snd_eq fin q hd_tl nd decimal_raw_no_dot [of "[]"]
        by (cases tl) (auto simp: fp_parse_eq decimal_raw_no_dot split: if_splits)
    qed
  qed
  then show "fst (read_quoted_decimal s) = Option.bind (quoted (rest s)) fp_parse"
    and "fst (read_quoted_decimal s) = Some x \<Longrightarrow>
      snd (read_quoted_decimal s) = advance (length (the (quoted (rest s))) + 2) s"
    by simp_all
qed

section \<open>Level arrays on the wire\<close>

text \<open>
  The compact JSON both exchanges send: an array of pairs of quoted decimals. \<open>wire_level ps ls\<close>
  relates the texts of a pair to the level they denote.
\<close>

definition enc_level :: "bytes \<times> bytes \<Rightarrow> bytes" where
  "enc_level p = [b_lbracket, b_quote] @ fst p @ [b_quote, b_comma, b_quote] @ snd p @ [b_quote, b_rbracket]"

fun enc_pairs :: "(bytes \<times> bytes) list \<Rightarrow> bytes" where
  "enc_pairs [] = []"
| "enc_pairs [p] = enc_level p"
| "enc_pairs (p # q # ps) = enc_level p @ b_comma # enc_pairs (q # ps)"

definition enc_array :: "(bytes \<times> bytes) list \<Rightarrow> bytes" where
  "enc_array ps = b_lbracket # enc_pairs ps @ [b_rbracket]"

definition wire_level :: "bytes \<times> bytes \<Rightarrow> raw_level \<Rightarrow> bool" where
  "wire_level p l \<longleftrightarrow> b_quote \<notin> set (fst p) \<and> b_quote \<notin> set (snd p)
     \<and> fp_parse (fst p) = Some (rl_price l) \<and> fp_parse (snd p) = Some (rl_amount l)"

definition nonzero :: "raw_level \<Rightarrow> bool" where
  "nonzero l \<longleftrightarrow> raw (rl_amount l) \<noteq> 0"

lemma read_quoted_decimal_at:
  assumes "rest s = b_quote # p @ b_quote # t" and "b_quote \<notin> set p" and "fp_parse p = Some x"
    and "length (buf s) < 2 ^ 32"
  shows "read_quoted_decimal s = (Some x, advance (Suc (Suc (length p))) s)"
proof -
  have "quoted (rest s) = Some p"
    using assms(1,2) by (simp add: quoted_def takeWhile_neq_append)
  with read_quoted_decimal_main [OF assms(4)] assms(3) show ?thesis by (simp add: prod_eq_iff)
qed

lemma read_quoted_decimal_SomeD:
  assumes "read_quoted_decimal s = (Some x, s')" and "length (buf s) < 2 ^ 32"
  obtains p where "rest s = b_quote # p @ b_quote # rest s'" and "b_quote \<notin> set p" and "fp_parse p = Some x"
proof -
  from read_quoted_decimal_main(1) [OF assms(2)] assms(1)
  obtain p where q: "quoted (rest s) = Some p" and p: "fp_parse p = Some x"
    by (cases "quoted (rest s)") auto
  then obtain xs where r: "rest s = b_quote # xs" and "b_quote \<in> set xs"
    and px: "p = takeWhile (\<lambda>b. b \<noteq> b_quote) xs"
    by (auto simp: quoted_def split: list.splits if_splits)
  then obtain t where xs: "xs = p @ b_quote # t" and "b_quote \<notin> set p"
    using split_list_first [of b_quote xs] by (auto simp: takeWhile_neq_append)
  moreover have "rest s' = t"
    using read_quoted_decimal_main(2) [OF assms(2), of x] assms(1) q r xs by simp
  ultimately show thesis using that r p by simp
qed

lemma expect_byte_at: "rest s = b # t \<Longrightarrow> expect_byte s b = (True, advance 1 s)"
  by (simp add: expect_byte_eq)

lemma read_pair_at:
  assumes r: "rest s = enc_level p @ t" and w: "wire_level p l" and len: "length (buf s) < 2 ^ 32"
  shows "read_pair s = (Some l, advance (length (enc_level p)) s)"
proof -
  define s1 s2 s3 s4 where "s1 = advance 1 s" and "s2 = advance (Suc (Suc (length (fst p)))) s1"
    and "s3 = advance 1 s2" and "s4 = advance (Suc (Suc (length (snd p)))) s3"
  have buf: "buf s1 = buf s" "buf s3 = buf s" by (simp_all add: s1_def s2_def s3_def)
  have r1: "rest s1 = b_quote # fst p @ b_quote # b_comma # b_quote # snd p @ b_quote # b_rbracket # t"
    using r by (simp add: s1_def enc_level_def)
  then have r2: "rest s2 = b_comma # b_quote # snd p @ b_quote # b_rbracket # t" by (simp add: s2_def)
  then have r3: "rest s3 = b_quote # snd p @ b_quote # b_rbracket # t" by (simp add: s3_def)
  then have r4: "rest s4 = b_rbracket # t" by (simp add: s4_def)
  have e: "expect_byte s b_lbracket = (True, s1)" "expect_byte s2 b_comma = (True, s3)"
    "expect_byte s4 b_rbracket = (True, advance 1 s4)"
    using r r2 r4 by (simp_all add: expect_byte_eq enc_level_def s1_def s3_def)
  have q: "read_quoted_decimal s1 = (Some (rl_price l), s2)" "read_quoted_decimal s3 = (Some (rl_amount l), s4)"
    using read_quoted_decimal_at [OF r1] read_quoted_decimal_at [OF r3] w len buf
    by (simp_all add: wire_level_def s2_def s4_def)
  have "advance 1 s4 = advance (length (enc_level p)) s"
    by (simp add: s1_def s2_def s3_def s4_def enc_level_def)
  with e q show ?thesis by (simp add: read_pair_def)
qed

lemma read_pair_SomeD:
  assumes "read_pair s = (Some l, s')" and "length (buf s) < 2 ^ 32"
  obtains p where "rest s = enc_level p @ rest s'" and "wire_level p l"
proof -
  from assms(1) obtain s1 s2 s3 s4
    where 1: "expect_byte s b_lbracket = (True, s1)"
      and 2: "read_quoted_decimal s1 = (Some (rl_price l), s2)"
      and 3: "expect_byte s2 b_comma = (True, s3)"
      and 4: "read_quoted_decimal s3 = (Some (rl_amount l), s4)"
      and 5: "expect_byte s4 b_rbracket = (True, s')"
    by (auto simp: read_pair_def split: prod.splits bool.splits option.splits)
  have b: "buf s1 = buf s" "buf s3 = buf s"
    using expect_byte_forward [of s b_lbracket] expect_byte_forward [of s2 b_comma]
      read_quoted_decimal_forward [of s1] 1 2 3 by (auto simp: advances_def)
  from 2 b assms(2) obtain p where p: "rest s1 = b_quote # p @ b_quote # rest s2" "b_quote \<notin> set p"
    "fp_parse p = Some (rl_price l)" by (auto elim: read_quoted_decimal_SomeD)
  from 4 b assms(2) obtain a where a: "rest s3 = b_quote # a @ b_quote # rest s4" "b_quote \<notin> set a"
    "fp_parse a = Some (rl_amount l)" by (auto elim: read_quoted_decimal_SomeD)
  have "rest s = enc_level (p, a) @ rest s'"
    using 1 3 5 p(1) a(1) by (auto simp: expect_byte_eq enc_level_def split: list.splits if_splits)
  moreover have "wire_level (p, a) l" using p a by (simp add: wire_level_def)
  ultimately show thesis by (rule that)
qed

context external_crates
begin

text \<open>
  The level loop on a well-formed array: it delivers the first \<open>n\<close> levels of non-zero amount, and
  stops inside the array or right behind it.
\<close>

lemma read_levels_step:
  assumes "rest s = enc_level p @ u" and "wire_level p l" and "length (buf s) < 2 ^ 32"
    and "length acc \<le> n"
  defines "acc' \<equiv> acc @ filter nonzero [l]" and "s' \<equiv> advance (length (enc_level p)) s"
  shows "read_levels_loop X n acc s =
    (if n < length acc' then (Some acc, s')
     else case u of
         [] \<Rightarrow> (None, s')
       | b # _ \<Rightarrow>
           if b = b_comma then
             (if length acc' = n then (Some acc', advance 1 s') else read_levels_loop X n acc' (advance 1 s'))
           else if b = b_rbracket then (Some acc', advance 1 s')
           else (None, s'))"
proof -
  have "rest s' = u" using assms(1) by (simp add: s'_def)
  then show ?thesis
    using assms(4) unfolding acc'_def
    by (cases u)
      (simp_all add: read_levels_loop.simps [of X n acc s] read_pair_at [OF assms(1-3), folded s'_def]
        raw_vec.push_eq nonzero_def peek_eq advance_1 not_less)
qed

lemma read_levels_loop_at:
  assumes "length (buf s) < 2 ^ 32" and "ps \<noteq> []" and "rest s = enc_pairs ps @ b_rbracket # t"
    and "list_all2 wire_level ps ls" and "length acc \<le> n"
  shows "\<exists>k \<le> Suc (length (enc_pairs ps)).
    read_levels_loop X n acc s = (Some (take n (acc @ filter nonzero ls)), advance k s)"
  using assms
proof (induction ps arbitrary: s acc ls rule: enc_pairs.induct)
  case 1
  then show ?case by simp
next
  case (2 p)
  then obtain l where ls: "ls = [l]" and w: "wire_level p l" by (auto simp: list_all2_Cons1)
  have r: "rest s = enc_level p @ b_rbracket # t" using "2.prems"(3) by simp
  show ?case
    using read_levels_step [OF r w "2.prems"(1,5)] "2.prems"(5)
    by (intro exI [of _ "length (enc_level p) + (if n < length (acc @ filter nonzero [l]) then 0 else 1)"])
      (auto simp: ls)
next
  case (3 p q ps)
  then obtain l ls' where ls: "ls = l # ls'" and w: "wire_level p l"
    and ws: "list_all2 wire_level (q # ps) ls'" by (auto simp: list_all2_Cons1)
  have r: "rest s = enc_level p @ b_comma # enc_pairs (q # ps) @ b_rbracket # t"
    using "3.prems"(3) by simp
  let ?acc = "acc @ filter nonzero [l]"
  let ?s' = "advance (length (enc_level p)) s"
  note step = read_levels_step [OF r w "3.prems"(1,5)]
  consider (full) "n < length ?acc" | (stop) "length ?acc = n" | (more) "length ?acc < n"
    by linarith
  then show ?case
  proof cases
    case full
    then have "take n (acc @ filter nonzero ls) = acc" using "3.prems"(5) by (auto simp: ls split: if_splits)
    with full step show ?thesis by (intro exI [of _ "length (enc_level p)"]) simp
  next
    case stop
    then have "take n (acc @ filter nonzero ls) = ?acc" by (auto simp: ls)
    with stop step show ?thesis by (intro exI [of _ "Suc (length (enc_level p))"]) simp
  next
    case more
    have "rest (advance 1 ?s') = enc_pairs (q # ps) @ b_rbracket # t" using r by simp
    from "3.IH" [OF _ _ this ws, of ?acc] "3.prems"(1) more obtain k
      where "k \<le> Suc (length (enc_pairs (q # ps)))"
        and "read_levels_loop X n ?acc (advance 1 ?s')
          = (Some (take n (?acc @ filter nonzero ls')), advance k (advance 1 ?s'))"
      by auto
    with more step show ?thesis
      by (intro exI [of _ "Suc (length (enc_level p) + k)"]) (auto simp: ls take_Cons')
  qed
qed

lemma read_raw_levels_at:
  assumes "length (buf s) < 2 ^ 32" and "rest s = enc_array ps @ t" and "list_all2 wire_level ps ls"
  shows "\<exists>k. 0 < k \<and> k \<le> length (enc_array ps) \<and>
    read_raw_levels X n s = (Some (take n (filter nonzero ls)), advance k s)"
proof -
  have e: "expect_byte s b_lbracket = (True, advance 1 s)"
    using assms(2) by (simp add: expect_byte_eq enc_array_def)
  have r: "rest (advance 1 s) = enc_pairs ps @ b_rbracket # t"
    using assms(2) by (simp add: enc_array_def)
  show ?thesis
  proof (cases ps)
    case Nil
    with assms(3) e r show ?thesis
      by (intro exI [of _ 2]) (simp add: read_raw_levels_def peek_eq enc_array_def advance_1)
  next
    case (Cons p ps')
    then have "hd (enc_pairs ps @ b_rbracket # t) = b_lbracket"
      by (cases ps') (simp_all add: enc_level_def)
    then have "peek (advance 1 s) \<noteq> Some b_rbracket"
      using r by (auto simp: peek_eq split: list.splits)
    moreover obtain k where "k \<le> Suc (length (enc_pairs ps))"
      and "read_levels_loop X n [] (advance 1 s) = (Some (take n (filter nonzero ls)), advance (Suc k) s)"
      using read_levels_loop_at [OF _ _ r assms(3), of "[]" n] assms(1) Cons by auto
    ultimately show ?thesis
      using e by (intro exI [of _ "Suc k"]) (simp add: read_raw_levels_def enc_array_def)
  qed
qed

text \<open>
  Conversely, whatever the input, a result consists of levels that stand in the input as quoted
  decimals, in their order, and the loop stopped at the closing bracket or with \<open>n\<close> levels.
\<close>

lemma read_levels_loop_SomeD:
  assumes "length (buf s) < 2 ^ 32" and "length acc \<le> n"
    and "read_levels_loop X n acc s = (Some out, s')"
  shows "\<exists>ps ls t. ps \<noteq> [] \<and> rest s = enc_pairs ps @ t \<and> list_all2 wire_level ps ls
    \<and> out = take n (acc @ filter nonzero ls) \<and> (t = b_rbracket # rest s' \<or> length out = n)"
  using assms
proof (induction "length (rest s)" arbitrary: s acc rule: less_induct)
  case less
  obtain l s1 where rp: "read_pair s = (Some l, s1)"
    using less.prems(3) by (auto simp: read_levels_loop.simps [of X n acc s] split: prod.splits option.splits)
  then obtain p where r: "rest s = enc_level p @ rest s1" and w: "wire_level p l"
    using less.prems(1) by (rule read_pair_SomeD)
  have s1: "s1 = advance (length (enc_level p)) s"
    using read_pair_at [OF r w less.prems(1)] rp by simp
  note step = read_levels_step [OF r w less.prems(1,2), folded s1]
  let ?acc = "acc @ filter nonzero [l]"
  consider (full) "n < length ?acc" | (stop) "length ?acc = n" | (more) "length ?acc < n" by linarith
  then show ?case
  proof cases
    case full
    then have "out = acc" and "length acc = n" using step less.prems(2,3) by (auto split: if_splits)
    with r w show ?thesis by (intro exI [of _ "[p]"] exI [of _ "[l]"] exI [of _ "rest s1"]) simp
  next
    case stop
    with step less.prems(3) have "out = ?acc" by (auto split: list.splits if_splits)
    with r w stop show ?thesis by (intro exI [of _ "[p]"] exI [of _ "[l]"] exI [of _ "rest s1"]) simp
  next
    case more
    then obtain b u where u: "rest s1 = b # u" and b: "b = b_comma \<or> b = b_rbracket"
      using step less.prems(3) by (auto split: list.splits if_splits)
    show ?thesis
    proof (cases "b = b_rbracket")
      case True
      with step more u less.prems(3) have "out = ?acc" and "rest s' = u" by auto
      with r w u True more show ?thesis
        by (intro exI [of _ "[p]"] exI [of _ "[l]"] exI [of _ "rest s1"]) simp
    next
      case False
      with step more u b less.prems(3)
      have loop: "read_levels_loop X n ?acc (advance 1 s1) = (Some out, s')" by simp
      have "rest (advance 1 s1) = u" using u by simp
      moreover have "length u < length (rest s)" using r u by simp
      ultimately obtain ps ls t where "ps \<noteq> []" and "u = enc_pairs ps @ t"
        and "list_all2 wire_level ps ls" and "out = take n (?acc @ filter nonzero ls)"
        and "t = b_rbracket # rest s' \<or> length out = n"
        using less.hyps [of "advance 1 s1" ?acc] less.prems(1) more loop s1 by auto
      with r w u False b more show ?thesis
        by (intro exI [of _ "p # ps"] exI [of _ "l # ls"] exI [of _ t]) (cases ps; auto simp: take_Cons')
    qed
  qed
qed

lemma read_raw_levels_SomeD:
  assumes "length (buf s) < 2 ^ 32" and "read_raw_levels X n s = (Some out, s')"
  shows "\<exists>ps ls t. rest s = b_lbracket # enc_pairs ps @ t \<and> list_all2 wire_level ps ls
    \<and> out = take n (filter nonzero ls) \<and> (t = b_rbracket # rest s' \<or> length out = n)"
proof -
  obtain u where r: "rest s = b_lbracket # u"
    using assms(2) by (auto simp: read_raw_levels_def expect_byte_eq split: list.splits if_splits)
  have "rest (advance 1 s) = u" using r by simp
  show ?thesis
  proof (cases "peek (advance 1 s) = Some b_rbracket")
    case True
    with assms(2) r have "out = []" and "u = b_rbracket # rest s'"
      by (auto simp: read_raw_levels_def expect_byte_eq peek_eq advance_1 simp del: pos_advance split: list.splits)
    with r show ?thesis
      by (intro exI [of _ "[]"] exI [of _ "[]"] exI [of _ "b_rbracket # rest s'"]) simp
  next
    case False
    with assms(2) r have "read_levels_loop X n [] (advance 1 s) = (Some out, s')"
      by (simp add: read_raw_levels_def expect_byte_eq)
    from read_levels_loop_SomeD [OF _ _ this] assms(1) r show ?thesis by force
  qed
qed

lemma read_raw_levels_bound:
  assumes "length (buf s) < 2 ^ 32" and "read_raw_levels X n s = (Some out, s')"
  shows "length out \<le> n" "list_all nonzero out"
  using read_raw_levels_SomeD [OF assms] by (auto simp: list_all_iff dest: in_set_takeD)

end

section \<open>String literals\<close>

text \<open>
  A \<open>&str\<close> holds well-formed UTF-8. The reader cuts it at byte positions next to ASCII quotes,
  which are character boundaries there, so \<open>str::get\<close> succeeds on every string that closes.
\<close>

fun valid_utf8 :: "bytes \<Rightarrow> bool" where
  "valid_utf8 [] = True"
| "valid_utf8 (b # s) =
    (if b < 128 then valid_utf8 s
     else if 194 \<le> b \<and> b < 224 then
       (case s of c # s' \<Rightarrow> is_continuation c \<and> valid_utf8 s' | _ \<Rightarrow> False)
     else if 224 \<le> b \<and> b < 240 then
       (case s of c # d # s' \<Rightarrow> is_continuation c \<and> (b = 224 \<longrightarrow> 160 \<le> c) \<and> (b = 237 \<longrightarrow> c < 160)
          \<and> is_continuation d \<and> valid_utf8 s' | _ \<Rightarrow> False)
     else if 240 \<le> b \<and> b < 245 then
       (case s of c # d # e # s' \<Rightarrow> is_continuation c \<and> (b = 240 \<longrightarrow> 144 \<le> c) \<and> (b = 244 \<longrightarrow> c < 144)
          \<and> is_continuation d \<and> is_continuation e \<and> valid_utf8 s' | _ \<Rightarrow> False)
     else False)"

lemma continuation_not_ascii: "is_continuation b \<Longrightarrow> \<not> b < 128"
  by (auto simp: is_continuation_def not_less)

declare valid_utf8.simps(2) [simp del]

lemma valid_utf8_ascii: "list_all (\<lambda>b. b < 128) bs \<Longrightarrow> valid_utf8 bs"
  by (induction bs) (simp_all add: valid_utf8.simps(2))

lemma utf8_split:
  assumes "valid_utf8 s" and "s \<noteq> []"
  obtains c r where "s = c @ r" and "valid_utf8 r" and "c \<noteq> []" and "\<not> is_continuation (hd c)"
    and "length c = 1 \<or> (\<forall>x\<in>set c. \<not> x < 128)"
proof -
  obtain b t where s: "s = b # t" using assms(2) by (cases s) auto
  note v = assms(1) [unfolded s valid_utf8.simps(2)]
  have lead: "\<not> is_continuation b" if "b < 128 \<or> 194 \<le> b"
    using that by (auto simp: is_continuation_def word_less_nat_alt word_le_nat_alt)
  have wide: "194 \<le> b" if "224 \<le> b \<or> 240 \<le> b" using that by (auto simp: word_le_nat_alt)
  note result = that
  have multi: thesis if "t = xs @ r" "valid_utf8 r" "\<forall>x\<in>set xs. is_continuation x" "194 \<le> b" "\<not> b < 128" for xs r
  proof (rule result)
    show "s = (b # xs) @ r" "valid_utf8 r" "b # xs \<noteq> []" using that s by simp_all
    show "\<not> is_continuation (hd (b # xs))" using lead that(4) by simp
    show "length (b # xs) = 1 \<or> (\<forall>x\<in>set (b # xs). \<not> x < 128)"
      using that(3,5) continuation_not_ascii by auto
  qed
  consider "b < 128" | "\<not> b < 128" "194 \<le> b \<and> b < 224"
    | "\<not> b < 128" "\<not> (194 \<le> b \<and> b < 224)" "224 \<le> b \<and> b < 240"
    | "\<not> b < 128" "\<not> (194 \<le> b \<and> b < 224)" "\<not> (224 \<le> b \<and> b < 240)" "240 \<le> b \<and> b < 245"
    using v by argo
  then show thesis
  proof cases
    case 1
    with v lead s show thesis by (intro that [of "[b]" t]) simp_all
  next
    case 2
    with v show thesis by (intro multi [of "take 1 t" "drop 1 t"]) (auto split: list.splits)
  next
    case 3
    with v wide show thesis by (intro multi [of "take 2 t" "drop 2 t"]) (auto split: list.splits)
  next
    case 4
    with v wide show thesis by (intro multi [of "take 3 t" "drop 3 t"]) (auto split: list.splits)
  qed
qed

lemma valid_utf8_hd: "valid_utf8 s \<Longrightarrow> s \<noteq> [] \<Longrightarrow> \<not> is_continuation (hd s)"
  by (metis hd_append2 utf8_split)

lemma utf8_after_ascii:
  "valid_utf8 s \<Longrightarrow> s ! i < 128 \<Longrightarrow> Suc i < length s \<Longrightarrow> \<not> is_continuation (s ! Suc i)"
proof (induction "length s" arbitrary: s i rule: less_induct)
  case less
  have "s \<noteq> []" using less.prems(3) by auto
  with less.prems(1) obtain c r where s: "s = c @ r" and r: "valid_utf8 r" and "c \<noteq> []"
    and c: "length c = 1 \<or> (\<forall>x\<in>set c. \<not> x < 128)"
    by (rule utf8_split)
  show ?case
  proof (cases "i < length c")
    case True
    have "c ! i \<in> set c" using True by simp
    moreover have "s ! i = c ! i" using True by (simp add: s nth_append)
    ultimately have "length c = 1" using c less.prems(2) by metis
    with True have "i = 0" by simp
    with \<open>length c = 1\<close> s less.prems(3) have "r \<noteq> []" and "s ! Suc i = r ! 0"
      by (simp_all add: nth_append)
    with valid_utf8_hd [OF r] show ?thesis by (simp add: hd_conv_nth)
  next
    case False
    with less.hyps [of r "i - length c"] less.prems s r \<open>c \<noteq> []\<close> show ?thesis
      by (auto simp: nth_append Suc_diff_le)
  qed
qed

text \<open>The content of a string literal: up to the first quote that no backslash escapes.\<close>

fun raw_string :: "bytes \<Rightarrow> bytes option" where
  "raw_string [] = None"
| "raw_string (b # bs) =
    (if b = b_quote then Some []
     else if b = b_backslash then
       (case bs of [] \<Rightarrow> None | c # cs \<Rightarrow> map_option (\<lambda>r. b # c # r) (raw_string cs))
     else map_option ((#) b) (raw_string bs))"

lemma raw_string_closed:
  "raw_string bs = Some c \<Longrightarrow> length c < length bs \<and> bs = c @ b_quote # drop (Suc (length c)) bs"
proof (induction bs arbitrary: c rule: raw_string.induct)
  case (2 b bs)
  show ?case
  proof (cases "b = b_quote \<or> b \<noteq> b_backslash")
    case True
    with 2 show ?thesis by (auto split: if_splits)
  next
    case False
    with 2 show ?thesis by (cases bs) (auto split: if_splits)
  qed
qed simp

lemma str_get_between_quotes:
  assumes "valid_utf8 bs" and "0 < start" and "bs ! (start - 1) = b_quote"
    and "start \<le> stop" and "stop < length bs" and "bs ! stop = b_quote"
  shows "str_get bs start stop = Some (take (stop - start) (drop start bs))"
proof -
  have "\<not> is_continuation (bs ! start)"
    using utf8_after_ascii [of bs "start - 1"] assms by (cases start) (simp_all add: word_less_nat_alt)
  moreover have "\<not> is_continuation (bs ! stop)"
    using assms(6) by (simp add: is_continuation_def word_le_nat_alt)
  ultimately show ?thesis using assms(2,4,5) by (simp add: str_get_def is_char_boundary_def)
qed

lemma read_string_loop_eq:
  assumes "valid_utf8 (buf s)" and "0 < start" and "buf s ! (start - 1) = b_quote"
    and "start \<le> pos s"
  shows "fst (read_string_loop start s)
      = map_option ((@) (take (pos s - start) (drop start (buf s)))) (raw_string (rest s))
    \<and> (\<forall>c. raw_string (rest s) = Some c \<longrightarrow> snd (read_string_loop start s) = advance (Suc (length c)) s)"
  using assms
proof (induction "length (rest s)" arbitrary: s rule: less_induct)
  case less
  have before: "take (pos (advance k s) - start) (drop start (buf (advance k s)))
      = take (pos s - start) (drop start (buf s)) @ take k (rest s)" for k
    using less.prems(4) take_add [of "pos s - start" k "drop start (buf s)"] by (simp add: rest_def)
  show ?case
  proof (cases "rest s")
    case Nil
    moreover from this have "\<not> pos s < length (buf s)" by (simp add: rest_Nil)
    ultimately show ?thesis by (simp add: read_string_loop.simps [of start s])
  next
    case (Cons b bs)
    note rc = rest_Cons_D [OF Cons]
    have IH: "fst (read_string_loop start (advance k s))
        = map_option ((@) (take (pos s - start) (drop start (buf s)) @ take k (rest s))) (raw_string (drop k (rest s)))
      \<and> (\<forall>c. raw_string (drop k (rest s)) = Some c \<longrightarrow>
           snd (read_string_loop start (advance k s)) = advance (k + Suc (length c)) s)" if "0 < k" for k
      using less.hyps [of "advance k s", unfolded before] less.prems that Cons by simp
    consider (quote) "b = b_quote" | (esc) "b = b_backslash" | (other) "b \<noteq> b_quote" "b \<noteq> b_backslash" by blast
    then show ?thesis
    proof cases
      case quote
      with rc str_get_between_quotes [OF less.prems(1-4)] Cons show ?thesis
        by (simp add: read_string_loop.simps [of start s] advance_1)
    next
      case esc
      have adv: "s\<lparr>pos := Suc (Suc (pos s))\<rparr> = advance 2 s" by (simp add: advance_def)
      with esc rc IH [of 2] Cons show ?thesis
        by (cases bs; cases "raw_string (tl bs)") (auto simp: adv read_string_loop.simps [of start s] option.map_comp comp_def)
    next
      case other
      with rc IH [of 1] Cons show ?thesis
        by (cases "raw_string bs") (auto simp: read_string_loop.simps [of start s] advance_1 option.map_comp comp_def)
    qed
  qed
qed

lemma append_Nil_map: "map_option ((@) []) x = x"
  by (cases x) simp_all

lemma read_string_fst:
  assumes "valid_utf8 (buf s)" and "rest s = ws @ b_quote # bs" and "list_all is_ws ws"
  shows "fst (read_string s) = raw_string bs"
    and "raw_string bs = Some c \<Longrightarrow> snd (read_string s) = advance (Suc (Suc (length ws + length c))) s"
proof -
  have ws: "takeWhile is_ws (rest s) = ws"
    using assms(2,3) by (simp add: list_all_iff) (simp add: is_ws_def)
  define s1 where "s1 = advance (length ws) s"
  have r: "rest s1 = b_quote # bs" and "drop (Suc (length ws)) (rest s) = bs"
    using assms(2) by (simp_all add: s1_def)
  moreover have "buf s ! (Suc (pos s1) - 1) = b_quote"
    using rest_Cons_D(2) [OF r] by (simp add: s1_def)
  ultimately have loop: "fst (read_string_loop (Suc (pos s1)) (advance 1 s1)) = raw_string bs"
    "raw_string bs = Some c \<Longrightarrow>
      snd (read_string_loop (Suc (pos s1)) (advance 1 s1)) = advance (Suc (length c)) (advance 1 s1)"
    using read_string_loop_eq [of "advance 1 s1" "Suc (pos s1)"] assms(1) rest_Cons_D(1,2) [OF r]
    by (simp_all add: s1_def append_Nil_map)
  have "read_string s = read_string_loop (Suc (pos s1)) (advance 1 s1)"
    using rest_Cons_D(1,2) [OF r]
    by (simp add: read_string_def skip_ws_eq ws Let_def flip: s1_def) (simp add: advance_def s1_def)
  with loop show "fst (read_string s) = raw_string bs"
    and "raw_string bs = Some c \<Longrightarrow> snd (read_string s) = advance (Suc (Suc (length ws + length c))) s"
    by (simp_all add: s1_def)
qed

lemma read_string_loop_buf: "buf (snd (read_string_loop start s)) = buf s"
proof (induction start s rule: read_string_loop.induct)
  case (1 start s)
  then show ?case by (subst read_string_loop.simps) (auto simp: Let_def split: option.splits)
qed

lemma read_string_buf: "buf (snd (read_string s)) = buf s"
  using skip_ws_forward [of s] by (simp add: read_string_def Let_def read_string_loop_buf advances_def)

text \<open>
  The position after \<open>read_string\<close> is inside the buffer unless the buffer ends in a backslash: an
  escape there skips past the end.
\<close>

lemma read_string_loop_inside:
  assumes "pos s \<le> length (buf s)" and "buf s \<noteq> []" and "last (buf s) \<noteq> b_backslash"
  shows "buf (snd (read_string_loop start s)) = buf s \<and> pos (snd (read_string_loop start s)) \<le> length (buf s)"
  using assms
proof (induction start s rule: read_string_loop.induct)
  case (1 start s)
  have "Suc (Suc (pos s)) \<le> length (buf s)" if "pos s < length (buf s)" "buf s ! pos s = b_backslash"
  proof (rule ccontr)
    assume "\<not> Suc (Suc (pos s)) \<le> length (buf s)"
    with that(1) have "pos s = length (buf s) - 1" by simp
    with that(2) "1.prems"(2,3) show False by (simp add: last_conv_nth)
  qed
  with 1 show ?case
    by (subst (1 2) read_string_loop.simps) (auto simp: Let_def split: option.splits)
qed

lemma read_string_inside:
  assumes "pos s \<le> length (buf s)" and "buf s = [] \<or> last (buf s) \<noteq> b_backslash"
  shows "buf (snd (read_string s)) = buf s" "pos (snd (read_string s)) \<le> length (buf s)"
proof -
  have s: "buf (skip_ws s) = buf s" "pos (skip_ws s) \<le> length (buf s)"
    using skip_ws_forward [of s] assms(1) by (auto simp: advances_def)
  then show "buf (snd (read_string s)) = buf s" "pos (snd (read_string s)) \<le> length (buf s)"
    using read_string_loop_inside [of "skip_ws s\<lparr>pos := Suc (pos (skip_ws s))\<rparr>"] assms(2)
    by (cases "buf s = []"; auto simp: read_string_def Let_def not_le)+
qed

text \<open>The bytes of a level array: digits and punctuation, so no key of a frame begins inside one.\<close>

definition wire_byte :: "u8 \<Rightarrow> bool" where
  "wire_byte b \<longleftrightarrow> is_digit b \<or> b \<in> {b_dot, b_quote, b_comma, b_lbracket, b_rbracket}"

lemma decimal_bytes:
  assumes "decimal_raw p = Some n"
  shows "list_all wire_byte p"
proof -
  let ?f = "\<lambda>b. b \<noteq> b_dot"
  have "p = takeWhile ?f p @ dropWhile ?f p" by simp
  moreover have "list_all wire_byte (takeWhile ?f p)" "list_all wire_byte (tl (dropWhile ?f p))"
    using assms by (auto simp: decimal_raw_def Let_def wire_byte_def list_all_iff split: if_splits)
  moreover have "dropWhile ?f p = [] \<or> dropWhile ?f p = b_dot # tl (dropWhile ?f p)"
    using hd_dropWhile [of ?f p] by (cases "dropWhile ?f p") auto
  ultimately show ?thesis
    by (metis (no_types, lifting) append_Nil2 insertCI list.pred_inject(2) list_all_append wire_byte_def)
qed

lemma wire_level_bytes:
  assumes "wire_level p l"
  shows "list_all wire_byte (enc_level p)"
proof -
  have "list_all wire_byte (fst p)" "list_all wire_byte (snd p)"
    using assms by (auto simp: wire_level_def fp_parse_eq bind_eq_Some_conv dest: decimal_bytes)
  then show ?thesis by (simp add: enc_level_def wire_byte_def)
qed

lemma enc_array_bytes:
  assumes "list_all2 wire_level ps ls"
  shows "list_all wire_byte (enc_array ps)"
proof -
  have "list_all wire_byte (enc_pairs ps)"
    using assms
    by (induction ps arbitrary: ls rule: enc_pairs.induct)
      (auto simp: list_all2_Cons1 wire_level_bytes, simp_all add: wire_byte_def)
  then show ?thesis by (simp add: enc_array_def wire_byte_def)
qed

text \<open>Any list of levels, printed as \<open>Display\<close> prints prices and quantities.\<close>

definition printed :: "raw_level \<Rightarrow> bytes \<times> bytes" where
  "printed l = (fp_display (rl_price l), fp_display (rl_amount l))"

lemma wire_level_printed: "wire_level (printed l) l"
proof -
  have "b_quote \<notin> set (fp_display x)" for x
    using fp_display_bytes [of x] by (auto simp: list_all_iff dest: digit_neq)
  then show ?thesis by (simp add: printed_def wire_level_def fp_display_parse)
qed

lemma wire_printed: "list_all2 wire_level (map printed ls) ls"
  by (induction ls) (simp_all add: wire_level_printed)

section \<open>The operations on a whole array stay inside the buffer\<close>

context external_crates
begin

lemma seek_inside:
  assumes "pos s \<le> length (buf s)"
  obtains r s' where "seek X s needle = Inr (r, s')" and "buf s' = buf s" and "pos s' \<le> length (buf s')"
proof (cases "memmem_find X needle (drop (pos s) (buf s))")
  case None
  with assms show thesis by (intro that [of None s]) (simp_all add: seek_def)
next
  case (Some offset)
  from search.find_bound [OF Some] assms Some show thesis
    by (intro that [of "Some ()" "s\<lparr>pos := pos s + (offset + length needle)\<rparr>"]) (simp_all add: seek_def)
qed

lemma seek_at:
  assumes "rest s = junk @ c # c' # needle @ t" and "c \<noteq> c'" and "no_pair c c' junk"
  shows "seek X s (c # c' # needle) = Inr (Some (), advance (length junk + length needle + 2) s)"
proof -
  have "pos s \<le> length (buf s)" using assms(1) by (cases "length (buf s) \<le> pos s") (auto simp: rest_def)
  moreover have "memmem_find X (c # c' # needle) (drop (pos s) (buf s)) = Some (length junk)"
    using search.find_after [OF assms(2,3)] assms(1) by (simp add: rest_def)
  ultimately show ?thesis by (simp add: seek_def advance_def)
qed

lemma seek_buf: "seek X s needle = Inr (r, s') \<Longrightarrow> buf s' = buf s"
  by (auto simp: seek_def split: if_splits option.splits)

lemma read_levels_loop_forward:
  assumes "read_levels_loop X n acc s = (r, s')"
  shows "advances s s'"
  using assms
proof (induction "length (buf s) - pos s" arbitrary: s acc rule: less_induct)
  case less
  show ?case
  proof (cases "read_pair s")
    case (Pair l s1)
    with read_pair_forward [of s] have a: "advances s s1" by simp
    show ?thesis
    proof (cases l)
      case None
      with less.prems Pair a show ?thesis by (simp add: read_levels_loop.simps [of X n acc s])
    next
      case (Some rl)
      note prog = read_pair_progress [OF Pair [unfolded Some]]
      have step: "advances s (s1\<lparr>pos := Suc (pos s1)\<rparr>)" if "pos s1 < length (buf s1)"
        using a advances_step [OF that] by (rule advances_trans)
      have again: "advances s s'"
        if "read_levels_loop X n acc' (s1\<lparr>pos := Suc (pos s1)\<rparr>) = (r, s')" "pos s1 < length (buf s1)" for acc'
      proof -
        have "length (buf s1) - Suc (pos s1) < length (buf s) - pos s"
          using prog a by (auto simp: advances_def)
        with less.hyps [of "s1\<lparr>pos := Suc (pos s1)\<rparr>" acc'] that step show ?thesis
          by (auto intro: advances_trans)
      qed
      show ?thesis
        using less.prems Pair Some a step again
        by (auto simp: read_levels_loop.simps [of X n acc s] peek_def split: if_splits option.splits)
    qed
  qed
qed

lemma read_raw_levels_forward: "read_raw_levels X n s = (r, s') \<Longrightarrow> advances s s'"
  using expect_byte_forward [of s b_lbracket] read_levels_loop_forward [of n "[]" "snd (expect_byte s b_lbracket)" r s']
    advances_trans [OF expect_byte_forward [of s b_lbracket] advances_step]
    advances_trans [OF expect_byte_forward [of s b_lbracket], of s']
  by (auto simp: read_raw_levels_def peek_def split: prod.splits bool.splits if_splits)

end

section \<open>Properties\<close>

text \<open>
  C14. The fused scanner is the decimal parser on the string literal at its position: it accepts what
  \<open>FixedPoint::parse\<close> accepts between the quotes, with the same value, rejects everything else, and
  leaves the position behind the closing quote.
\<close>

theorem read_quoted_decimal_correct:
  assumes "length (buf s) < 2 ^ 32"
  shows "fst (read_quoted_decimal s) = Option.bind (quoted (rest s)) fp_parse
    \<and> (fst (read_quoted_decimal s) \<noteq> None \<longrightarrow>
      snd (read_quoted_decimal s) = s\<lparr>pos := pos s + length (the (quoted (rest s))) + 2\<rparr>)"
  using read_quoted_decimal_main [OF assms] by (auto simp: advance_def)

theorem read_quoted_decimal_correct_witness:
  "fst (read_quoted_decimal (scanner_new (ascii ''\"101.5\"''))) = fp_parse (ascii ''101.5'')
    \<and> fst (read_quoted_decimal (scanner_new (ascii ''\"101.5\"''))) = Some (FixedPoint 10150000000)"
proof -
  let ?s = "scanner_new (ascii ''\"101.5\"'')"
  have len: "length (buf ?s) < 2 ^ 32" by (simp add: scanner_new_def)
  have q: "quoted (rest ?s) = Some (ascii ''101.5'')"
    by (simp add: scanner_new_def rest_def quoted_def ascii_def)
  have v: "fp_parse (ascii ''101.5'') = Some (FixedPoint 10150000000)" by (simp add: parse_eval del: digit_test)
  show ?thesis using read_quoted_decimal_correct [OF len] q v by simp
qed

text \<open>
  \<open>read_raw_levels::<N>\<close> on the compact array of any list of price and quantity texts returns the
  first \<open>N\<close> of its levels whose quantity is not zero, in order, and stops inside the array or right
  behind it.
\<close>

theorem read_raw_levels_complete:
  assumes "external_crates X" and "length (buf s) < 2 ^ 32"
    and "rest s = enc_array ps @ t" and "list_all2 wire_level ps ls"
  shows "\<exists>k \<le> length (enc_array ps).
    read_raw_levels X n s = (Some (take n (filter nonzero ls)), s\<lparr>pos := pos s + k\<rparr>)"
  using external_crates.read_raw_levels_at [OF assms, of n] by (auto simp: advance_def)

theorem read_raw_levels_complete_witness:
  "fst (read_raw_levels reference_crates 2
      (scanner_new (enc_array [(ascii ''7.5'', ascii ''0''), (ascii ''7.25'', ascii ''3'')])))
    = Some [\<lparr>rl_price = FixedPoint 725000000, rl_amount = FixedPoint 300000000\<rparr>]"
proof -
  let ?ps = "[(ascii ''7.5'', ascii ''0''), (ascii ''7.25'', ascii ''3'')]"
  let ?ls = "[\<lparr>rl_price = FixedPoint 750000000, rl_amount = FixedPoint 0\<rparr>,
    \<lparr>rl_price = FixedPoint 725000000, rl_amount = FixedPoint 300000000\<rparr>]"
  have "list_all2 wire_level ?ps ?ls" by (simp add: wire_level_def parse_eval del: digit_test)
  moreover have "length (buf (scanner_new (enc_array ?ps))) < 2 ^ 32"
    by (simp add: scanner_new_def enc_array_def enc_level_def)
  moreover have "rest (scanner_new (enc_array ?ps)) = enc_array ?ps @ []"
    by (simp add: scanner_new_def rest_def)
  ultimately show ?thesis
    using read_raw_levels_complete [OF reference.external_crates_axioms, of "scanner_new (enc_array ?ps)" ?ps "[]" ?ls 2]
    by (auto simp: nonzero_def)
qed

text \<open>
  Whatever the bytes, a successful \<open>read_raw_levels::<N>\<close> has read an array prefix of well-formed
  pairs: the levels it returns are the first \<open>N\<close> non-zero ones of that prefix, none is made up or
  reordered, and unless it stopped at \<open>N\<close> levels the array was closed by its bracket.
\<close>

theorem read_raw_levels_sound:
  assumes "external_crates X" and "length (buf s) < 2 ^ 32" and "read_raw_levels X n s = (Some out, s')"
  shows "\<exists>ps ls t. rest s = b_lbracket # enc_pairs ps @ t \<and> list_all2 wire_level ps ls
    \<and> out = take n (filter nonzero ls) \<and> (t = b_rbracket # rest s' \<or> length out = n)"
  by (rule external_crates.read_raw_levels_SomeD [OF assms])

theorem read_raw_levels_sound_witness:
  "\<exists>ps ls t. rest (scanner_new (ascii ''[]'')) = b_lbracket # enc_pairs ps @ t
    \<and> list_all2 wire_level ps ls \<and> [] = take 10 (filter nonzero ls)
    \<and> (t = b_rbracket # rest \<lparr>buf = ascii ''[]'', pos = 2\<rparr> \<or> length ([] :: raw_level list) = 10)"
  by (rule read_raw_levels_sound [OF reference.external_crates_axioms])
    (simp_all add: scanner_new_def ascii_def read_raw_levels_def expect_byte_def peek_def)

text \<open>
  \<open>read_string\<close> returns the content of the string literal behind any whitespace, up to the first
  quote no backslash escapes, and \<open>None\<close> when the literal is not closed: on UTF-8 text the checked
  slice never fails.
\<close>

theorem read_string_correct:
  assumes "valid_utf8 (buf s)" and "rest s = ws @ b_quote # bs" and "list_all is_ws ws"
  shows "fst (read_string s) = raw_string bs"
  by (rule read_string_fst(1) [OF assms])

theorem read_string_correct_witness:
  "fst (read_string (scanner_new (ascii '' \"bts\":1''))) = Some (ascii ''bts'')"
  using read_string_correct [of "scanner_new (ascii '' \"bts\":1'')" "ascii '' ''" "ascii ''bts\":1''"]
  by (simp add: scanner_new_def rest_def ascii_def is_ws_def valid_utf8.simps(2))

text \<open>
  \<open>read_u64\<close> is the value of the digits behind any whitespace when it fits 64 bits, and 0 when it
  does not or when there is no digit.
\<close>

theorem read_u64_correct:
  "fst (read_u64 s) =
    (let n = digits_val (takeWhile is_digit (dropWhile is_ws (rest s)))
     in if n < 2 ^ 64 then of_nat n else 0)"
  by (simp add: read_u64_fst fit_def Let_def)

end
