(* ===== verification/AtomicSlot.thy ===== *)
theory AtomicSlot
  imports Prelude "HOL-Library.Sublist"
begin

unbundle bit_operations_syntax

text \<open>
  \<open>src/atomic_slot.rs\<close>: the triple-buffer slot between one producer and one consumer. The shared
  block, the producer's \<open>back\<close> and the consumer's \<open>front\<close> are one record.

  Every access to shared memory is an operation of its own (\<open>write_back\<close>, \<open>publish_swap\<close>,
  \<open>load_dirty\<close>, \<open>take_swap\<close>, \<open>take_front\<close>, \<open>drop_half\<close>). \<open>slot_send\<close> and \<open>slot_recv\<close> run them in
  sequence; the step relation \<open>step\<close> interleaves them, and splits the plain buffer accesses into a
  begin and an end so that two of them can overlap. Atomic operations are interleaved as they occur
  in the modification order of \<open>state\<close>; the effects of the memory orderings on the buffer accesses
  are not part of this theory. \<open>get_unchecked\<close> past the end is undefined behaviour; here it is
  \<open>Inl IndexOutOfBounds\<close>, to be proved impossible.
\<close>

section \<open>The slot\<close>

definition DIRTY :: u8 where
  "DIRTY = 1"

record 'a slot =
  buffers :: "'a option list"
  state :: u8
  refcount :: u8
  tx_back :: u8
  rx_front :: u8

definition slot_new :: "'a slot" where
  "slot_new = \<lparr>buffers = [None, None, None], state = push_bit 1 1, refcount = 2, tx_back = 0, rx_front = 2\<rparr>"

text \<open>\<open>*buffers.get_unchecked(back as usize).get() = Some(value)\<close>\<close>

definition write_back :: "'a slot \<Rightarrow> 'a \<Rightarrow> 'a slot run" where
  "write_back s value =
     (if unat (tx_back s) < length (buffers s)
      then Inr (s\<lparr>buffers := (buffers s)[unat (tx_back s) := Some value]\<rparr>)
      else Inl IndexOutOfBounds)"

definition publish_swap :: "'a slot \<Rightarrow> 'a slot" where
  "publish_swap s =
     (let old_state = state s
      in s\<lparr>state := push_bit 1 (tx_back s) OR DIRTY, tx_back := drop_bit 1 old_state\<rparr>)"

definition slot_send :: "'a slot \<Rightarrow> 'a \<Rightarrow> 'a slot run" where
  "slot_send s value = map_sum id publish_swap (write_back s value)"

text \<open>The fast path of \<open>recv\<close>: is there new data?\<close>

definition load_dirty :: "'a slot \<Rightarrow> bool" where
  "load_dirty s \<longleftrightarrow> state s AND DIRTY \<noteq> 0"

definition take_swap :: "'a slot \<Rightarrow> 'a slot" where
  "take_swap s =
     (let old_state = state s
      in s\<lparr>state := push_bit 1 (rx_front s), rx_front := drop_bit 1 old_state\<rparr>)"

definition take_front :: "'a slot \<Rightarrow> ('a option \<times> 'a slot) run" where
  "take_front s =
     (if unat (rx_front s) < length (buffers s)
      then Inr (buffers s ! unat (rx_front s), s\<lparr>buffers := (buffers s)[unat (rx_front s) := None]\<rparr>)
      else Inl IndexOutOfBounds)"

definition slot_recv :: "'a slot \<Rightarrow> ('a option \<times> 'a slot) run" where
  "slot_recv s = (if \<not> load_dirty s then Inr (None, s) else take_front (take_swap s))"

definition is_abandoned :: "'a slot \<Rightarrow> bool" where
  "is_abandoned s \<longleftrightarrow> refcount s = 1"

text \<open>\<open>drop_half\<close>: the count before the decrement decides who frees the block.\<close>

definition drop_half :: "'a slot \<Rightarrow> bool \<times> 'a slot" where
  "drop_half s = (let prev = refcount s in (prev = 1, s\<lparr>refcount := prev - 1\<rparr>))"

section \<open>The packed state\<close>

definition mid :: "'a slot \<Rightarrow> nat" where
  "mid s = unat (drop_bit 1 (state s))"

text \<open>Three distinct roles for three buffers.\<close>

definition roles_ok :: "'a slot \<Rightarrow> bool" where
  "roles_ok s \<longleftrightarrow> length (buffers s) = 3
     \<and> unat (tx_back s) < 3 \<and> mid s < 3 \<and> unat (rx_front s) < 3
     \<and> unat (tx_back s) \<noteq> mid s \<and> mid s \<noteq> unat (rx_front s) \<and> unat (tx_back s) \<noteq> unat (rx_front s)"

lemma small_index: "unat (b :: u8) < 3 \<Longrightarrow> b \<in> {0, 1, 2}"
proof -
  assume "unat b < 3"
  then have "unat b = unat (0 :: u8) \<or> unat b = unat (1 :: u8) \<or> unat b = unat (2 :: u8)" by auto
  then show ?thesis by (simp only: word_unat_eq_iff insert_iff empty_iff simp_thms)
qed

lemma pack_dirty:
  assumes "unat (b :: u8) < 3"
  shows "drop_bit 1 (push_bit 1 b OR DIRTY) = b" and "(push_bit 1 b OR DIRTY) AND DIRTY \<noteq> 0"
  using small_index [OF assms] by (auto simp: DIRTY_def)

lemma pack_clean:
  assumes "unat (b :: u8) < 3"
  shows "drop_bit 1 (push_bit 1 b) = b" and "push_bit 1 b AND DIRTY = 0"
  using small_index [OF assms] by (auto simp: DIRTY_def)

lemma slot_new_simps: "roles_ok slot_new" "\<not> load_dirty slot_new"
  by (simp_all add: roles_ok_def slot_new_def mid_def load_dirty_def DIRTY_def)

lemma write_back_ok:
  "roles_ok s \<Longrightarrow> write_back s v = Inr (s\<lparr>buffers := (buffers s)[unat (tx_back s) := Some v]\<rparr>)"
  by (simp add: write_back_def roles_ok_def)

lemma roles_ok_write: "roles_ok s \<Longrightarrow> roles_ok (s\<lparr>buffers := (buffers s)[i := x]\<rparr>)"
  by (simp add: roles_ok_def mid_def)

lemma publish_swap_simps:
  assumes "roles_ok s"
  shows "mid (publish_swap s) = unat (tx_back s)" "unat (tx_back (publish_swap s)) = mid s"
    "rx_front (publish_swap s) = rx_front s" "buffers (publish_swap s) = buffers s"
    "load_dirty (publish_swap s)" "refcount (publish_swap s) = refcount s"
  using assms pack_dirty [of "tx_back s"]
  by (simp_all add: publish_swap_def roles_ok_def mid_def load_dirty_def Let_def)

lemma take_swap_simps:
  assumes "roles_ok s"
  shows "mid (take_swap s) = unat (rx_front s)" "unat (rx_front (take_swap s)) = mid s"
    "tx_back (take_swap s) = tx_back s" "buffers (take_swap s) = buffers s"
    "\<not> load_dirty (take_swap s)" "refcount (take_swap s) = refcount s"
  using assms pack_clean [of "rx_front s"]
  by (simp_all add: take_swap_def roles_ok_def mid_def load_dirty_def Let_def)

lemma roles_ok_publish: "roles_ok s \<Longrightarrow> roles_ok (publish_swap s)"
  using publish_swap_simps [of s] by (simp add: roles_ok_def)

lemma roles_ok_take: "roles_ok s \<Longrightarrow> roles_ok (take_swap s)"
  using take_swap_simps [of s] by (simp add: roles_ok_def)

lemma take_front_ok:
  "roles_ok s \<Longrightarrow> take_front s
    = Inr (buffers s ! unat (rx_front s), s\<lparr>buffers := (buffers s)[unat (rx_front s) := None]\<rparr>)"
  by (simp add: take_front_def roles_ok_def)

section \<open>The contract: a register that holds the latest unread value\<close>

text \<open>A sequence of operations, \<open>Some v\<close> a send and \<open>None\<close> a receive, and what the receives return.\<close>

fun run_ops :: "('s \<Rightarrow> 'a \<Rightarrow> 's run) \<Rightarrow> ('s \<Rightarrow> ('a option \<times> 's) run) \<Rightarrow> 's \<Rightarrow> 'a option list
    \<Rightarrow> 'a option list run" where
  "run_ops snd_op rcv_op s [] = Inr []"
| "run_ops snd_op rcv_op s (Some v # ops) =
     (case snd_op s v of Inl p \<Rightarrow> Inl p | Inr s' \<Rightarrow> run_ops snd_op rcv_op s' ops)"
| "run_ops snd_op rcv_op s (None # ops) =
     (case rcv_op s of Inl p \<Rightarrow> Inl p
      | Inr (r, s') \<Rightarrow> map_sum id ((#) r) (run_ops snd_op rcv_op s' ops))"

fun register :: "'a option \<Rightarrow> 'a option list \<Rightarrow> 'a option list" where
  "register u [] = []"
| "register u (Some v # ops) = register (Some v) ops"
| "register u (None # ops) = u # register None ops"

locale latest_slot =
  fixes inv :: "'s \<Rightarrow> bool" and unread :: "'s \<Rightarrow> 'a option"
    and snd_op :: "'s \<Rightarrow> 'a \<Rightarrow> 's run" and rcv_op :: "'s \<Rightarrow> ('a option \<times> 's) run"
  assumes send_law: "inv s \<Longrightarrow> \<exists>s'. snd_op s v = Inr s' \<and> inv s' \<and> unread s' = Some v"
    and recv_law: "inv s \<Longrightarrow> \<exists>s'. rcv_op s = Inr (unread s, s') \<and> inv s' \<and> unread s' = None"
begin

lemma run_ops_register: "inv s \<Longrightarrow> run_ops snd_op rcv_op s ops = Inr (register (unread s) ops)"
proof (induction ops arbitrary: s)
  case (Cons op ops)
  show ?case
  proof (cases op)
    case None
    then show ?thesis using recv_law [OF Cons.prems] Cons.IH by force
  next
    case (Some v)
    then show ?thesis using send_law [OF Cons.prems, of v] Cons.IH by force
  qed
qed simp

end

definition slot_unread :: "'a slot \<Rightarrow> 'a option" where
  "slot_unread s = (if load_dirty s then buffers s ! mid s else None)"

definition slot_inv :: "'a slot \<Rightarrow> bool" where
  "slot_inv s \<longleftrightarrow> roles_ok s"

interpretation triple: latest_slot slot_inv slot_unread slot_send slot_recv
proof
  fix s :: "'a slot" and v
  assume "slot_inv s"
  then have s: "roles_ok s" by (simp add: slot_inv_def)
  let ?w = "s\<lparr>buffers := (buffers s)[unat (tx_back s) := Some v]\<rparr>"
  have w: "roles_ok ?w" by (rule roles_ok_write [OF s])
  have "slot_send s v = Inr (publish_swap ?w)" by (simp add: slot_send_def write_back_ok [OF s])
  moreover have "slot_unread (publish_swap ?w) = Some v"
    using publish_swap_simps [OF w] s by (simp add: slot_unread_def roles_ok_def)
  ultimately show "\<exists>s'. slot_send s v = Inr s' \<and> slot_inv s' \<and> slot_unread s' = Some v"
    using roles_ok_publish [OF w] by (simp add: slot_inv_def)
next
  fix s :: "'a slot"
  assume "slot_inv s"
  then have s: "roles_ok s" by (simp add: slot_inv_def)
  show "\<exists>s'. slot_recv s = Inr (slot_unread s, s') \<and> slot_inv s' \<and> slot_unread s' = None"
  proof (cases "load_dirty s")
    case False
    with s show ?thesis by (simp add: slot_recv_def slot_unread_def slot_inv_def)
  next
    case True
    note t = take_swap_simps [OF s] and ok = roles_ok_take [OF s]
    let ?s' = "take_swap s\<lparr>buffers := (buffers (take_swap s))[unat (rx_front (take_swap s)) := None]\<rparr>"
    have "slot_recv s = Inr (slot_unread s, ?s')"
      using True t by (simp add: slot_recv_def take_front_ok [OF ok] slot_unread_def)
    moreover have "\<not> load_dirty ?s'" using t(5) by (simp add: load_dirty_def)
    ultimately show ?thesis
      using roles_ok_write [OF ok] by (simp add: slot_inv_def slot_unread_def)
  qed
qed

section \<open>Two threads\<close>

text \<open>
  The whole system: the slot, where each thread is inside its operation, which halves are alive, how
  often the block was freed, and two ghost logs: what the producer has published and what the
  consumer has received.
\<close>

datatype 'a producer =
    PIdle
  | PWriting 'a \<comment> \<open>assigning the back buffer\<close>
  | PWritten 'a \<comment> \<open>before the swap\<close>

datatype consumer =
    CIdle
  | CChecked \<comment> \<open>saw the dirty flag, before the swap\<close>
  | CSwapped \<comment> \<open>before taking the front buffer\<close>
  | CTaking \<comment> \<open>taking the front buffer\<close>

record 'a system =
  slot :: "'a slot"
  producer_at :: "'a producer"
  consumer_at :: consumer
  tx_alive :: bool
  rx_alive :: bool
  frees :: nat
  sent :: "'a list"
  received :: "'a list"

definition system_new :: "'a system" where
  "system_new = \<lparr>slot = slot_new, producer_at = PIdle, consumer_at = CIdle, tx_alive = True, rx_alive = True,
     frees = 0, sent = [], received = []\<rparr>"

text \<open>What a step does to shared memory: an access to a buffer, a swap of \<open>state\<close>, a decrement of the count.\<close>

datatype thread = Producer | Consumer

datatype access = Silent | Touch thread nat | Swap thread | Count thread bool

text \<open>
  One atomic access, or the begin or end of one plain buffer access. The load of the fast path is
  relaxed and may see the consumer's own last store, which is clean, although newer data is there
  (\<open>recv_empty\<close>); when it sees a dirty byte, the byte is still dirty.
\<close>

inductive step :: "'a system \<Rightarrow> access \<Rightarrow> 'a system \<Rightarrow> bool" where
  send_begin: "producer_at c = PIdle \<Longrightarrow> tx_alive c \<Longrightarrow> step c Silent (c\<lparr>producer_at := PWriting v\<rparr>)"
| send_write: "producer_at c = PWriting v \<Longrightarrow> write_back (slot c) v = Inr s' \<Longrightarrow>
    step c (Touch Producer (unat (tx_back (slot c)))) (c\<lparr>slot := s', producer_at := PWritten v\<rparr>)"
| send_swap: "producer_at c = PWritten v \<Longrightarrow>
    step c (Swap Producer) (c\<lparr>slot := publish_swap (slot c), producer_at := PIdle, sent := sent c @ [v]\<rparr>)"
| recv_check: "consumer_at c = CIdle \<Longrightarrow> rx_alive c \<Longrightarrow> load_dirty (slot c) \<Longrightarrow>
    step c Silent (c\<lparr>consumer_at := CChecked\<rparr>)"
| recv_empty: "consumer_at c = CIdle \<Longrightarrow> rx_alive c \<Longrightarrow> step c Silent c"
| recv_swap: "consumer_at c = CChecked \<Longrightarrow>
    step c (Swap Consumer) (c\<lparr>slot := take_swap (slot c), consumer_at := CSwapped\<rparr>)"
| recv_begin: "consumer_at c = CSwapped \<Longrightarrow> step c Silent (c\<lparr>consumer_at := CTaking\<rparr>)"
| recv_take: "consumer_at c = CTaking \<Longrightarrow> take_front (slot c) = Inr (r, s') \<Longrightarrow>
    step c (Touch Consumer (unat (rx_front (slot c))))
      (c\<lparr>slot := s', consumer_at := CIdle, received := received c @ (case r of None \<Rightarrow> [] | Some v \<Rightarrow> [v])\<rparr>)"
| drop_sender: "producer_at c = PIdle \<Longrightarrow> tx_alive c \<Longrightarrow> drop_half (slot c) = (free, s') \<Longrightarrow>
    step c (Count Producer free) (c\<lparr>slot := s', tx_alive := False, frees := frees c + of_bool free\<rparr>)"
| drop_receiver: "consumer_at c = CIdle \<Longrightarrow> rx_alive c \<Longrightarrow> drop_half (slot c) = (free, s') \<Longrightarrow>
    step c (Count Consumer free) (c\<lparr>slot := s', rx_alive := False, frees := frees c + of_bool free\<rparr>)"

inductive reachable :: "'a system \<Rightarrow> bool" where
  start: "reachable system_new"
| next_step: "reachable c \<Longrightarrow> step c a c' \<Longrightarrow> reachable c'"

text \<open>
  The value a receive under way will return: published, not yet in the log. While the consumer is
  outside its critical part there is none.
\<close>

definition in_hand :: "consumer \<Rightarrow> 'a slot \<Rightarrow> 'a list" where
  "in_hand pc s = (if pc = CSwapped \<or> pc = CTaking
     then (case buffers s ! unat (rx_front s) of None \<Rightarrow> [] | Some v \<Rightarrow> [v]) else [])"

text \<open>
  The log of the consumer against that of the producer. While a value waits, what was delivered is a
  subsequence of what was published before it; with none waiting, the last value published is the
  last one delivered.
\<close>

definition log_ok :: "bool \<Rightarrow> 'a list \<Rightarrow> 'a list \<Rightarrow> bool" where
  "log_ok waiting delivered published =
     (if waiting then subseq delivered (butlast published)
      else subseq delivered published
        \<and> (published \<noteq> [] \<longrightarrow> delivered \<noteq> [] \<and> last delivered = last published))"

definition buffers_ok :: "'a system \<Rightarrow> bool" where
  "buffers_ok c \<longleftrightarrow> roles_ok (slot c)
     \<and> (load_dirty (slot c) \<longrightarrow> sent c \<noteq> [] \<and> buffers (slot c) ! mid (slot c) = Some (last (sent c)))
     \<and> (consumer_at c = CChecked \<longrightarrow> load_dirty (slot c))
     \<and> (consumer_at c = CSwapped \<or> consumer_at c = CTaking \<longrightarrow> buffers (slot c) ! unat (rx_front (slot c)) \<noteq> None)
     \<and> (\<forall>v. producer_at c = PWritten v \<longrightarrow> buffers (slot c) ! unat (tx_back (slot c)) = Some v)"

definition data_inv :: "'a system \<Rightarrow> bool" where
  "data_inv c \<longleftrightarrow> buffers_ok c
     \<and> log_ok (load_dirty (slot c)) (received c @ in_hand (consumer_at c) (slot c)) (sent c)"

definition life_inv :: "'a system \<Rightarrow> bool" where
  "life_inv c \<longleftrightarrow> refcount (slot c) = of_bool (tx_alive c) + of_bool (rx_alive c)
     \<and> frees c = (if tx_alive c \<or> rx_alive c then 0 else 1)
     \<and> (producer_at c \<noteq> PIdle \<longrightarrow> tx_alive c) \<and> (consumer_at c \<noteq> CIdle \<longrightarrow> rx_alive c)"

lemma data_inv_new: "data_inv system_new"
  by (simp add: data_inv_def buffers_ok_def log_ok_def system_new_def in_hand_def slot_new_simps)

lemma life_inv_new: "life_inv system_new"
  by (simp add: life_inv_def system_new_def slot_new_def)

lemma refcount_write: "write_back s v = Inr s' \<Longrightarrow> refcount s' = refcount s"
  by (auto simp: write_back_def split: if_splits)

lemma refcount_take: "take_front s = Inr (r, s') \<Longrightarrow> refcount s' = refcount s"
  by (auto simp: take_front_def split: if_splits)

lemma life_inv_step: "step c a c' \<Longrightarrow> life_inv c \<Longrightarrow> life_inv c'"
proof (induction rule: step.induct)
  case (drop_sender c free s')
  then show ?case by (cases "rx_alive c") (auto simp: life_inv_def drop_half_def Let_def)
next
  case (drop_receiver c free s')
  then show ?case by (cases "tx_alive c") (auto simp: life_inv_def drop_half_def Let_def)
qed (auto simp: life_inv_def publish_swap_def take_swap_def Let_def dest: refcount_write refcount_take)

lemma log_publish: "log_ok w d p \<Longrightarrow> log_ok True d (p @ [v])"
  using subseq_order.trans [OF _ prefix_imp_subseq [OF prefixeq_butlast]]
  by (auto simp: log_ok_def split: if_splits)

lemma log_take: "log_ok True d p \<Longrightarrow> p \<noteq> [] \<Longrightarrow> log_ok False (d @ [last p]) p"
  using list_emb_append_mono [of "(=)" d "butlast p" "[last p]" "[last p]"] by (simp add: log_ok_def)

lemmas inv_defs = data_inv_def buffers_ok_def in_hand_def

lemma write_effect:
  assumes "roles_ok s" and "write_back s v = Inr s'"
  shows "s' = s\<lparr>buffers := (buffers s)[unat (tx_back s) := Some v]\<rparr>"
    and "in_hand pc s' = in_hand pc s" "load_dirty s' = load_dirty s" "mid s' = mid s"
    and "roles_ok s'" "buffers s' ! unat (tx_back s') = Some v"
    and "buffers s' ! mid s' = buffers s ! mid s"
    and "buffers s' ! unat (rx_front s') = buffers s ! unat (rx_front s)"
proof -
  show s': "s' = s\<lparr>buffers := (buffers s)[unat (tx_back s) := Some v]\<rparr>"
    using assms(2) by (simp add: write_back_ok [OF assms(1)])
  show "in_hand pc s' = in_hand pc s" "load_dirty s' = load_dirty s" "mid s' = mid s"
    "roles_ok s'" "buffers s' ! unat (tx_back s') = Some v" "buffers s' ! mid s' = buffers s ! mid s"
    "buffers s' ! unat (rx_front s') = buffers s ! unat (rx_front s)"
    using assms(1) by (simp_all add: s' in_hand_def load_dirty_def mid_def roles_ok_def)
qed

lemma take_effect:
  assumes "roles_ok s" and "take_front s = Inr (r, s')"
  shows "r = buffers s ! unat (rx_front s)"
    and "s' = s\<lparr>buffers := (buffers s)[unat (rx_front s) := None]\<rparr>"
    and "load_dirty s' = load_dirty s" "mid s' = mid s" "roles_ok s'"
    and "buffers s' ! mid s' = buffers s ! mid s"
    and "buffers s' ! unat (tx_back s') = buffers s ! unat (tx_back s)"
proof -
  show r: "r = buffers s ! unat (rx_front s)"
    and s': "s' = s\<lparr>buffers := (buffers s)[unat (rx_front s) := None]\<rparr>"
    using assms(2) by (simp_all add: take_front_ok [OF assms(1)])
  show "load_dirty s' = load_dirty s" "mid s' = mid s" "roles_ok s'"
    "buffers s' ! mid s' = buffers s ! mid s"
    "buffers s' ! unat (tx_back s') = buffers s ! unat (tx_back s)"
    using assms(1) by (simp_all add: s' load_dirty_def mid_def roles_ok_def)
qed

lemma drop_effect:
  assumes "drop_half s = (free, s')"
  shows "buffers s' = buffers s" "state s' = state s" "tx_back s' = tx_back s" "rx_front s' = rx_front s"
    "load_dirty s' = load_dirty s" "mid s' = mid s" "roles_ok s' = roles_ok s" "in_hand pc s' = in_hand pc s"
  using assms
  by (auto simp: drop_half_def Let_def load_dirty_def mid_def roles_ok_def in_hand_def)

lemma data_inv_step: "step c a c' \<Longrightarrow> data_inv c \<Longrightarrow> data_inv c'"
proof (induction rule: step.induct)
  case (send_begin c v)
  then show ?case by (simp add: data_inv_def buffers_ok_def)
next
  case (send_write c v s')
  then have "roles_ok (slot c)" by (simp add: data_inv_def buffers_ok_def)
  from write_effect [OF this send_write.hyps(2)] send_write.prems show ?case
    by (simp add: data_inv_def buffers_ok_def)
next
  case (send_swap c v)
  then have r: "roles_ok (slot c)" by (simp add: data_inv_def buffers_ok_def)
  note p = publish_swap_simps [OF r]
  have "in_hand (consumer_at c) (publish_swap (slot c)) = in_hand (consumer_at c) (slot c)"
    by (simp add: in_hand_def p)
  then show ?case
    using send_swap p roles_ok_publish [OF r] by (auto simp: data_inv_def buffers_ok_def intro: log_publish)
next
  case (recv_check c)
  then show ?case by (simp add: inv_defs)
next
  case (recv_empty c)
  then show ?case by simp
next
  case (recv_swap c)
  then have r: "roles_ok (slot c)" and d: "load_dirty (slot c)" and ne: "sent c \<noteq> []"
    by (simp_all add: data_inv_def buffers_ok_def)
  note t = take_swap_simps [OF r]
  have h: "in_hand (consumer_at c) (slot c) = []" "in_hand CSwapped (take_swap (slot c)) = [last (sent c)]"
    using recv_swap d by (simp_all add: inv_defs t)
  have "log_ok False (received c @ [last (sent c)]) (sent c)"
    using recv_swap.prems d h ne by (intro log_take) (simp_all add: data_inv_def)
  then show ?case
    using recv_swap d h t roles_ok_take [OF r] by (simp add: data_inv_def buffers_ok_def)
next
  case (recv_begin c)
  then show ?case by (simp add: inv_defs)
next
  case (recv_take c r s')
  then have "roles_ok (slot c)" by (simp add: data_inv_def buffers_ok_def)
  from take_effect [OF this recv_take.hyps(2)] recv_take.prems recv_take.hyps(1) show ?case
    by (simp add: inv_defs)
next
  case (drop_sender c free s')
  from drop_effect [OF drop_sender.hyps(3)] drop_sender show ?case
    by (simp add: data_inv_def buffers_ok_def)
next
  case (drop_receiver c free s')
  from drop_effect [OF drop_receiver.hyps(3)] drop_receiver show ?case
    by (simp add: data_inv_def buffers_ok_def)
qed

lemma reachable_inv: "reachable c \<Longrightarrow> data_inv c \<and> life_inv c"
  by (induction rule: reachable.induct) (auto simp: data_inv_new life_inv_new data_inv_step life_inv_step)

section \<open>The abstract register\<close>

text \<open>
  The specification state is the unread value and the values handed out. Publishing overwrites,
  taking empties.
\<close>

inductive register_step :: "'a option \<times> 'a list \<Rightarrow> 'a option \<times> 'a list \<Rightarrow> bool" where
  publish: "register_step (u, out) (Some v, out)"
| take: "register_step (Some v, out) (None, out @ [v])"

definition abs_register :: "'a system \<Rightarrow> 'a option \<times> 'a list" where
  "abs_register c = (slot_unread (slot c), received c @ in_hand (consumer_at c) (slot c))"

lemma step_refines:
  assumes "step c a c'" and "data_inv c"
  shows "abs_register c' = abs_register c \<or> register_step (abs_register c) (abs_register c')"
  using assms
proof (induction rule: step.induct)
  case (send_write c v s')
  then have "roles_ok (slot c)" by (simp add: data_inv_def buffers_ok_def)
  from write_effect [OF this send_write.hyps(2)] show ?case
    by (simp add: abs_register_def slot_unread_def)
next
  case (send_swap c v)
  then have "roles_ok (slot c)" by (simp add: data_inv_def buffers_ok_def)
  note p = publish_swap_simps [OF this]
  show ?case using send_swap
    by (simp add: abs_register_def slot_unread_def in_hand_def p data_inv_def buffers_ok_def
        register_step.publish)
next
  case (recv_swap c)
  then have "roles_ok (slot c)" by (simp add: data_inv_def buffers_ok_def)
  note t = take_swap_simps [OF this]
  show ?case using recv_swap
    by (auto simp: abs_register_def slot_unread_def in_hand_def t data_inv_def buffers_ok_def
        intro: register_step.take)
next
  case (recv_take c r s')
  then have "roles_ok (slot c)" by (simp add: data_inv_def buffers_ok_def)
  from take_effect [OF this recv_take.hyps(2)] recv_take show ?case
    by (simp add: abs_register_def slot_unread_def in_hand_def data_inv_def buffers_ok_def)
next
  case (drop_sender c free s')
  from drop_effect [OF drop_sender.hyps(3)] show ?case by (simp add: abs_register_def slot_unread_def)
next
  case (drop_receiver c free s')
  from drop_effect [OF drop_receiver.hyps(3)] show ?case by (simp add: abs_register_def slot_unread_def)
qed (simp_all add: abs_register_def in_hand_def)

section \<open>Properties\<close>

text \<open>
  A state for the witnesses: 7 was published, the consumer has swapped its buffer in and is taking it
  while the producer already assigns 8.
\<close>

definition busy :: "nat system" where
  "busy = \<lparr>slot = \<lparr>buffers = [Some 7, None, None], state = 4, refcount = 2, tx_back = 1, rx_front = 0\<rparr>,
     producer_at = PWriting 8, consumer_at = CTaking, tx_alive = True, rx_alive = True, frees = 0,
     sent = [7], received = []\<rparr>"

lemma busy_reachable: "reachable busy"
proof -
  note go = reachable.next_step
  have "reachable (system_new\<lparr>producer_at := PWriting (7 :: nat)\<rparr>)" (is "reachable ?a")
    by (rule go [OF reachable.start send_begin]) (simp_all add: system_new_def)
  then have "reachable (?a\<lparr>slot := slot_new\<lparr>buffers := [Some 7, None, None]\<rparr>, producer_at := PWritten 7\<rparr>)" (is "reachable ?b")
    by (rule go [OF _ send_write]) (simp_all add: system_new_def slot_new_def write_back_def)
  then have "reachable (?b\<lparr>slot := publish_swap (slot ?b), producer_at := PIdle, sent := sent ?b @ [7]\<rparr>)" (is "reachable ?c")
    by (rule go [OF _ send_swap]) simp
  then have "reachable (?c\<lparr>consumer_at := CChecked\<rparr>)" (is "reachable ?d")
    by (rule go [OF _ recv_check]) (simp_all add: system_new_def slot_new_def publish_swap_def load_dirty_def DIRTY_def)
  then have "reachable (?d\<lparr>slot := take_swap (slot ?d), consumer_at := CSwapped\<rparr>)" (is "reachable ?e")
    by (rule go [OF _ recv_swap]) simp
  then have "reachable (?e\<lparr>consumer_at := CTaking\<rparr>)" (is "reachable ?f")
    by (rule go [OF _ recv_begin]) simp
  then have "reachable (?f\<lparr>producer_at := PWriting 8\<rparr>)"
    by (rule go [OF _ send_begin]) (simp_all add: system_new_def)
  also have "?f\<lparr>producer_at := PWriting 8\<rparr> = busy"
    by (simp add: busy_def system_new_def slot_new_def publish_swap_def take_swap_def DIRTY_def Let_def)
  finally show ?thesis .
qed

text \<open>
  C10. The two threads never touch the same buffer: in every reachable state the producer's, the
  exchange and the consumer's buffer are three different ones of the three, so a write of \<open>send\<close> and
  a take of \<open>recv\<close> that are under way at once are on different buffers, and every \<open>get_unchecked\<close>
  is in range.
\<close>

theorem slot_exclusive_buffers:
  assumes "reachable c"
  shows "unat (tx_back (slot c)) < length (buffers (slot c))
    \<and> unat (rx_front (slot c)) < length (buffers (slot c))
    \<and> tx_back (slot c) \<noteq> rx_front (slot c)
    \<and> mid (slot c) \<notin> {unat (tx_back (slot c)), unat (rx_front (slot c))}"
  using reachable_inv [OF assms] by (auto simp: data_inv_def buffers_ok_def roles_ok_def)

theorem slot_exclusive_buffers_witness:
  "tx_back (slot busy) \<noteq> rx_front (slot busy) \<and> unat (rx_front (slot busy)) < length (buffers (slot busy))"
  using slot_exclusive_buffers [OF busy_reachable] by blast

text \<open>
  C8. Latest value, in order, at most once: what the consumer received is a subsequence of what was
  published, and whenever the consumer is idle and no value waits, the last value it received is the
  last one published, so the newest value is never lost.
\<close>

theorem slot_latest_value:
  assumes "reachable c"
  shows "subseq (received c) (sent c)
    \<and> (consumer_at c = CIdle \<and> \<not> load_dirty (slot c) \<and> sent c \<noteq> [] \<longrightarrow>
        received c \<noteq> [] \<and> last (received c) = last (sent c))
    \<and> (load_dirty (slot c) \<longrightarrow> slot_unread (slot c) = Some (last (sent c)))"
proof -
  from reachable_inv [OF assms] have inv: "data_inv c" by simp
  let ?got = "received c @ in_hand (consumer_at c) (slot c)"
  have "subseq ?got (sent c)"
    using inv subseq_order.trans [OF _ prefix_imp_subseq [OF prefixeq_butlast]]
    by (auto simp: data_inv_def log_ok_def split: if_splits)
  then have "subseq (received c) (sent c)"
    by (rule subseq_order.trans [OF prefix_imp_subseq, rotated]) simp
  then show ?thesis
    using inv by (auto simp: data_inv_def buffers_ok_def log_ok_def in_hand_def slot_unread_def)
qed

theorem slot_latest_value_witness: "subseq (received busy) (sent busy)"
  using slot_latest_value [OF busy_reachable] by blast

text \<open>
  Refinement: every atomic step is invisible or a step of a register that publishing overwrites
  and taking empties. The value \<open>recv\<close> returns was fixed at its swap.
\<close>

theorem slot_refines_register:
  assumes "reachable c" and "step c a c'"
  shows "abs_register c' = abs_register c \<or> register_step (abs_register c) (abs_register c')"
  using step_refines [OF assms(2)] reachable_inv [OF assms(1)] by blast

theorem slot_refines_register_witness:
  "abs_register (busy\<lparr>slot := slot busy\<lparr>buffers := [Some 7, Some 8, None]\<rparr>, producer_at := PWritten 8\<rparr>)
      = abs_register busy
    \<or> register_step (abs_register busy)
      (abs_register (busy\<lparr>slot := slot busy\<lparr>buffers := [Some 7, Some 8, None]\<rparr>, producer_at := PWritten 8\<rparr>))"
  by (rule slot_refines_register [OF busy_reachable send_write]) (simp_all add: busy_def write_back_def)

text \<open>
  A \<open>recv\<close> that saw the dirty flag returns a value: the producer can only overwrite it by a newer
  one in between, never take it away.
\<close>

theorem slot_recv_delivers:
  assumes "reachable c" and "consumer_at c = CTaking"
  shows "\<exists>v s'. take_front (slot c) = Inr (Some v, s')"
  using reachable_inv [OF assms(1)] assms(2)
  by (auto simp: data_inv_def buffers_ok_def take_front_ok)

theorem slot_recv_delivers_witness: "\<exists>v s'. take_front (slot busy) = Inr (Some v, s')"
  by (rule slot_recv_delivers [OF busy_reachable]) (simp add: busy_def)

text \<open>
  C32. The shared block is freed exactly once, by whichever half is dropped last, and never while an
  operation is under way; \<open>is_abandoned\<close> tells each half whether the other is gone.
\<close>

theorem slot_lifetime:
  assumes "reachable c"
  shows "frees c = (if tx_alive c \<or> rx_alive c then 0 else 1)
    \<and> (producer_at c \<noteq> PIdle \<or> consumer_at c \<noteq> CIdle \<longrightarrow> frees c = 0)
    \<and> (tx_alive c \<longrightarrow> is_abandoned (slot c) = (\<not> rx_alive c))
    \<and> (rx_alive c \<longrightarrow> is_abandoned (slot c) = (\<not> tx_alive c))"
  using reachable_inv [OF assms] by (auto simp: life_inv_def is_abandoned_def)

theorem slot_lifetime_witness: "frees busy = 0 \<and> \<not> is_abandoned (slot busy)"
  using slot_lifetime [OF busy_reachable] by (simp add: busy_def)

text \<open>
  Run without interleaving, a slot answers every sequence of sends and receives like that
  register: a receive yields the last value sent since the previous receive, or nothing.
\<close>

theorem slot_is_register:
  "run_ops slot_send slot_recv (slot_new :: 'a slot) ops = Inr (register None ops)"
proof -
  have "slot_inv (slot_new :: 'a slot)" "slot_unread (slot_new :: 'a slot) = None"
    by (simp_all add: slot_inv_def slot_unread_def slot_new_simps)
  then show ?thesis using triple.run_ops_register [of slot_new ops] by simp
qed

end
