(* ===== verification/Metrics.thy ===== *)
theory Metrics
  imports BookTypes "HOL-Library.Sublist"
begin

text \<open>
  \<open>src/metrics.rs\<close>: the latency histogram, the per-exchange counters, the registry, the Prometheus
  text and the health answer. An atomic counter is its \<open>u64\<close>, \<open>fetch_add\<close> the wrapping addition.
  Relaxed loads and stores of single counters are read as if no other thread ran in between.

  The two conversions to \<open>f64\<close> text are the parameter \<open>show_secs\<close> of the rendering (nanoseconds to the
  text of the seconds); \<open>serve_http\<close>, which only wires the routes into the HTTP library, is left out.
\<close>

section \<open>Histogram\<close>

definition NUM_BUCKETS :: nat where
  "NUM_BUCKETS = 16"

definition BUCKETS :: "(u64 \<times> bytes) list" where
  "BUCKETS =
    [(100, ascii ''0.0000001''), (500, ascii ''0.0000005''), (1000, ascii ''0.000001''),
     (5000, ascii ''0.000005''), (10000, ascii ''0.00001''), (25000, ascii ''0.000025''),
     (50000, ascii ''0.00005''), (100000, ascii ''0.0001''), (250000, ascii ''0.00025''),
     (500000, ascii ''0.0005''), (1000000, ascii ''0.001''), (5000000, ascii ''0.005''),
     (10000000, ascii ''0.01''), (25000000, ascii ''0.025''), (50000000, ascii ''0.05''),
     (100000000, ascii ''0.1'')]"

record prom_histogram =
  hg_buckets :: "u64 list"
  hg_sum_ns :: u64
  hg_count :: u64

definition histogram_new :: prom_histogram where
  "histogram_new = \<lparr>hg_buckets = replicate (NUM_BUCKETS + 1) 0, hg_sum_ns = 0, hg_count = 0\<rparr>"

text \<open>The scan for the first bound at or above the value; \<open>idx\<close> is the overflow slot if there is none.\<close>

fun bucket_scan :: "u64 \<Rightarrow> nat \<Rightarrow> (u64 \<times> bytes) list \<Rightarrow> nat" where
  "bucket_scan nanos i [] = NUM_BUCKETS"
| "bucket_scan nanos i ((bound_ns, le) # bs) = (if nanos \<le> bound_ns then i else bucket_scan nanos (i + 1) bs)"

definition saturate_u64 :: "nat \<Rightarrow> u64" where
  "saturate_u64 d = (if d < 2 ^ 64 then of_nat d else - 1)"

definition histogram_record :: "prom_histogram \<Rightarrow> duration \<Rightarrow> prom_histogram run" where
  "histogram_record h d =
     (let nanos = saturate_u64 d; idx = bucket_scan nanos 0 BUCKETS in
      if idx < length (hg_buckets h) then
        Inr \<lparr>hg_buckets = (hg_buckets h)[idx := hg_buckets h ! idx + 1],
             hg_sum_ns = hg_sum_ns h + nanos, hg_count = hg_count h + 1\<rparr>
      else Inl IndexOutOfBounds)"

section \<open>Prometheus text\<close>

definition writeln :: "bytes \<Rightarrow> bytes \<Rightarrow> bytes" where
  "writeln out l = out @ l @ [10]"

definition labelled :: "bytes \<Rightarrow> bytes \<Rightarrow> bytes" where
  "labelled labels le =
     (if labels = [] then ascii ''{le=\"'' @ le @ ascii ''\"} ''
      else ascii ''{'' @ labels @ ascii '',le=\"'' @ le @ ascii ''\"} '')"

text \<open>The buckets are an array one longer than \<open>BUCKETS\<close>, so \<open>self.buckets[i]\<close> is in range.\<close>

fun render_buckets :: "bytes \<Rightarrow> bytes \<Rightarrow> u64 list \<Rightarrow> u64 \<Rightarrow> nat \<Rightarrow> (u64 \<times> bytes) list \<Rightarrow> bytes \<Rightarrow> bytes" where
  "render_buckets name labels counts cumulative i [] out = out"
| "render_buckets name labels counts cumulative i ((b, le) # bs) out =
     (let cumulative = cumulative + counts ! i in
      render_buckets name labels counts cumulative (i + 1) bs
        (writeln out (name @ ascii ''_bucket'' @ labelled labels le @ show_nat (unat cumulative))))"

definition render :: "(u64 \<Rightarrow> bytes) \<Rightarrow> prom_histogram \<Rightarrow> bytes \<Rightarrow> bytes \<Rightarrow> bytes \<Rightarrow> bytes" where
  "render show_secs h name labels out =
     (let out = render_buckets name labels (hg_buckets h) 0 0 BUCKETS out;
          total = show_nat (unat (hg_count h));
          out = writeln out (name @ ascii ''_bucket'' @ labelled labels (ascii ''+Inf'') @ total);
          sum_secs = show_secs (hg_sum_ns h);
          suffix = (if labels = [] then ascii '' '' else ascii ''{'' @ labels @ ascii ''} '');
          out = writeln out (name @ ascii ''_sum'' @ suffix @ sum_secs)
      in writeln out (name @ ascii ''_count'' @ suffix @ total))"

section \<open>Per-exchange counters and the registry\<close>

record exchange_metrics =
  em_name :: bytes
  em_messages :: u64
  em_errors :: u64
  em_reconnections :: u64
  em_connected :: bool
  em_decode_latency :: prom_histogram

definition exchange_metrics_new :: "bytes \<Rightarrow> exchange_metrics" where
  "exchange_metrics_new name = \<lparr>em_name = name, em_messages = 0, em_errors = 0,
     em_reconnections = 0, em_connected = False, em_decode_latency = histogram_new\<rparr>"

definition bump_messages :: "exchange_metrics \<Rightarrow> exchange_metrics" where
  "bump_messages m = m\<lparr>em_messages := em_messages m + 1\<rparr>"

definition bump_errors :: "exchange_metrics \<Rightarrow> exchange_metrics" where
  "bump_errors m = m\<lparr>em_errors := em_errors m + 1\<rparr>"

definition bump_reconnections :: "exchange_metrics \<Rightarrow> exchange_metrics" where
  "bump_reconnections m = m\<lparr>em_reconnections := em_reconnections m + 1\<rparr>"

definition record_decode :: "exchange_metrics \<Rightarrow> duration \<Rightarrow> exchange_metrics run" where
  "record_decode m d = map_sum id (\<lambda>h. m\<lparr>em_decode_latency := h\<rparr>) (histogram_record (em_decode_latency m) d)"

record metrics =
  mt_exchanges :: "exchange_metrics list"
  mt_merges :: u64
  mt_e2e_latency :: prom_histogram
  mt_start_time :: instant

definition metrics_register :: "bytes list \<Rightarrow> instant \<Rightarrow> metrics" where
  "metrics_register exchange_names now = \<lparr>mt_exchanges = map exchange_metrics_new exchange_names,
     mt_merges = 0, mt_e2e_latency = histogram_new, mt_start_time = now\<rparr>"

definition metrics_exchange :: "metrics \<Rightarrow> bytes \<Rightarrow> exchange_metrics run" where
  "metrics_exchange m name =
     (case List.find (\<lambda>e. em_name e = name) (mt_exchanges m) of
        Some e \<Rightarrow> Inr e
      | None \<Rightarrow> Inl UnknownName)"

definition write_header :: "bytes \<Rightarrow> bytes \<Rightarrow> bytes \<Rightarrow> bytes \<Rightarrow> bytes" where
  "write_header out name help metric_type =
     (let out = writeln out (ascii ''# HELP '' @ name @ ascii '' '' @ help)
      in writeln out (ascii ''# TYPE '' @ name @ ascii '' '' @ metric_type))"

fun write_values :: "bytes \<Rightarrow> bytes \<Rightarrow> (exchange_metrics \<Rightarrow> u64) \<Rightarrow> exchange_metrics list \<Rightarrow> bytes" where
  "write_values out name v [] = out"
| "write_values out name v (ex # exs) =
     write_values (writeln out (name @ ascii ''{exchange=\"'' @ em_name ex @ ascii ''\"} ''
       @ show_nat (unat (v ex)))) name v exs"

definition write_per_exchange ::
    "bytes \<Rightarrow> bytes \<Rightarrow> bytes \<Rightarrow> bytes \<Rightarrow> exchange_metrics list \<Rightarrow> (exchange_metrics \<Rightarrow> u64) \<Rightarrow> bytes" where
  "write_per_exchange out name help metric_type exchanges v =
     write_values (write_header out name help metric_type) name v exchanges"

fun render_all :: "(u64 \<Rightarrow> bytes) \<Rightarrow> exchange_metrics list \<Rightarrow> bytes \<Rightarrow> bytes" where
  "render_all show_secs [] out = out"
| "render_all show_secs (ex # exs) out =
     render_all show_secs exs
       (render show_secs (em_decode_latency ex) (ascii ''orderbook_decode_duration_seconds'')
         (ascii ''exchange=\"'' @ em_name ex @ ascii ''\"'') out)"

definition to_prometheus :: "(u64 \<Rightarrow> bytes) \<Rightarrow> instant \<Rightarrow> metrics \<Rightarrow> bytes" where
  "to_prometheus show_secs now m =
     (let exs = mt_exchanges m;
          out = write_per_exchange [] (ascii ''orderbook_messages_total'')
            (ascii ''WebSocket messages received'') (ascii ''counter'') exs em_messages;
          out = write_per_exchange out (ascii ''orderbook_errors_total'')
            (ascii ''Parse/connection errors'') (ascii ''counter'') exs em_errors;
          out = write_per_exchange out (ascii ''orderbook_reconnections_total'')
            (ascii ''WebSocket reconnection attempts'') (ascii ''counter'') exs em_reconnections;
          out = write_header out (ascii ''orderbook_merges_total'')
            (ascii ''Order book merge operations'') (ascii ''counter'');
          out = writeln out (ascii ''orderbook_merges_total '' @ show_nat (unat (mt_merges m)));
          out = write_per_exchange out (ascii ''orderbook_exchange_up'')
            (ascii ''Exchange connection status (1=connected)'') (ascii ''gauge'') exs
            (\<lambda>e. of_bool (em_connected e));
          out = write_header out (ascii ''orderbook_uptime_seconds'')
            (ascii ''Seconds since process start'') (ascii ''gauge'');
          out = writeln out (ascii ''orderbook_uptime_seconds '' @ show_nat ((now - mt_start_time m) div 10 ^ 9));
          out = write_header out (ascii ''orderbook_decode_duration_seconds'')
            (ascii ''WebSocket message decode latency'') (ascii ''histogram'');
          out = render_all show_secs exs out;
          out = write_header out (ascii ''orderbook_e2e_duration_seconds'')
            (ascii ''End-to-end latency: WS receive to merged summary published'') (ascii ''histogram'')
      in render show_secs (mt_e2e_latency m) (ascii ''orderbook_e2e_duration_seconds'') [] out)"

section \<open>Health\<close>

datatype health_status = HealthOk | HealthDegraded | HealthDown

text \<open>\<open>(StatusCode::OK, "OK")\<close>, \<open>(OK, "DEGRADED")\<close> and \<open>(SERVICE_UNAVAILABLE, "DOWN")\<close>.\<close>

definition status_code :: "health_status \<Rightarrow> nat" where
  "status_code s = (case s of HealthOk \<Rightarrow> 200 | HealthDegraded \<Rightarrow> 200 | HealthDown \<Rightarrow> 503)"

definition health :: "metrics \<Rightarrow> health_status" where
  "health m =
     (let connected = length (filter em_connected (mt_exchanges m)); total = length (mt_exchanges m) in
      if connected = total then HealthOk
      else if 0 < connected then HealthDegraded
      else HealthDown)"

section \<open>The histogram counts\<close>

definition wf_histogram :: "prom_histogram \<Rightarrow> bool" where
  "wf_histogram h \<longleftrightarrow> length (hg_buckets h) = NUM_BUCKETS + 1"

lemma wf_histogram_new [simp]: "wf_histogram histogram_new"
  by (simp add: wf_histogram_def histogram_new_def)

abbreviation bounds :: "u64 list" where
  "bounds \<equiv> map fst BUCKETS"

lemma length_BUCKETS [simp]: "length BUCKETS = NUM_BUCKETS"
  by (simp add: BUCKETS_def NUM_BUCKETS_def)

lemma bounds_sorted: "sorted bounds"
  by (simp add: BUCKETS_def)

lemma bucket_scan_spec:
  "sorted (map fst bs) \<Longrightarrow> i + length bs = NUM_BUCKETS \<Longrightarrow>
   i \<le> bucket_scan n i bs \<and> bucket_scan n i bs \<le> NUM_BUCKETS
   \<and> (\<forall>j<length bs. n \<le> fst (bs ! j) \<longleftrightarrow> bucket_scan n i bs \<le> i + j)"
proof (induction bs arbitrary: i)
  case (Cons b bs)
  obtain bound le where b: "b = (bound, le)" by (cases b)
  show ?case
  proof (cases "n \<le> bound")
    case True
    with Cons.prems b show ?thesis
      by (auto simp: nth_Cons split: nat.splits intro: order_trans)
  next
    case False
    with Cons.IH [of "Suc i"] Cons.prems b show ?thesis
      by (auto simp: nth_Cons split: nat.splits)
  qed
qed simp

lemma bucket_index:
  shows "bucket_scan n 0 BUCKETS \<le> NUM_BUCKETS"
    and "j < NUM_BUCKETS \<Longrightarrow> n \<le> bounds ! j \<longleftrightarrow> bucket_scan n 0 BUCKETS \<le> j"
  using bucket_scan_spec [OF bounds_sorted, of 0 n] by simp_all

lemma record_wf:
  assumes "wf_histogram h"
  obtains h' where "histogram_record h d = Inr h'" and "wf_histogram h'"
    and "hg_buckets h' = (let i = bucket_scan (saturate_u64 d) 0 BUCKETS
          in (hg_buckets h)[i := hg_buckets h ! i + 1])"
    and "hg_count h' = hg_count h + 1" and "hg_sum_ns h' = hg_sum_ns h + saturate_u64 d"
  using assms bucket_index(1) [of "saturate_u64 d"]
  by (cases "histogram_record h d")
    (auto simp: histogram_record_def wf_histogram_def Let_def less_Suc_eq_le split: if_splits intro: that)

fun record_list :: "prom_histogram \<Rightarrow> duration list \<Rightarrow> prom_histogram run" where
  "record_list h [] = Inr h"
| "record_list h (d # ds) = (case histogram_record h d of Inl p \<Rightarrow> Inl p | Inr h' \<Rightarrow> record_list h' ds)"

text \<open>The number an exposition line shows for the bucket at index \<open>i\<close>.\<close>

definition cumulative :: "prom_histogram \<Rightarrow> nat \<Rightarrow> u64" where
  "cumulative h i = sum_list (take (Suc i) (hg_buckets h))"

lemma sum_list_bump:
  "i < length xs \<Longrightarrow> sum_list (take n (xs[i := xs ! i + 1])) = sum_list (take n xs) + (of_bool (i < n) :: u64)"
proof (induction xs arbitrary: i n)
  case (Cons x xs)
  then show ?case by (cases i; cases n) (simp_all add: algebra_simps)
qed simp

lemma record_list_count:
  assumes "wf_histogram h"
  shows "\<exists>h'. record_list h ds = Inr h' \<and> wf_histogram h'
    \<and> hg_count h' = hg_count h + of_nat (length ds)
    \<and> (\<forall>i<NUM_BUCKETS. cumulative h' i
        = cumulative h i + of_nat (length (filter (\<lambda>d. saturate_u64 d \<le> bounds ! i) ds)))"
  using assms
proof (induction ds arbitrary: h)
  case (Cons d ds)
  from Cons.prems obtain h1 where h1: "histogram_record h d = Inr h1" "wf_histogram h1"
    "hg_buckets h1 = (let i = bucket_scan (saturate_u64 d) 0 BUCKETS in (hg_buckets h)[i := hg_buckets h ! i + 1])"
    "hg_count h1 = hg_count h + 1" by (rule record_wf)
  have "cumulative h1 i = cumulative h i + of_bool (saturate_u64 d \<le> bounds ! i)" if "i < NUM_BUCKETS" for i
    using sum_list_bump [of "bucket_scan (saturate_u64 d) 0 BUCKETS" "hg_buckets h" "Suc i"]
      bucket_index(1) [of "saturate_u64 d"] bucket_index(2) [OF that, where n = "saturate_u64 d"] Cons.prems
    by (simp add: cumulative_def h1(3) Let_def wf_histogram_def less_Suc_eq_le del: nth_map)
  with Cons.IH [OF h1(2)] h1 show ?case by (auto simp del: nth_map)
qed simp

section \<open>What the exposition shows\<close>

text \<open>Every writer appends, so a line once written stays.\<close>

named_theorems keeps \<open>writers keep what is written\<close>

definition has_line :: "bytes \<Rightarrow> bytes \<Rightarrow> bool" where
  "has_line l out \<longleftrightarrow> sublist (l @ [10]) out"

lemma writeln_keeps [keeps]: "has_line l out \<Longrightarrow> has_line l (writeln out x)"
  unfolding has_line_def writeln_def by (metis sublist_append)

lemma writeln_line: "has_line x (writeln out x)"
  by (simp add: has_line_def writeln_def)

lemma write_header_keeps [keeps]: "has_line l out \<Longrightarrow> has_line l (write_header out n h t)"
  by (simp add: write_header_def Let_def keeps)

lemma write_values_keeps [keeps]: "has_line l out \<Longrightarrow> has_line l (write_values out n v exs)"
  by (induction exs arbitrary: out) (simp_all add: keeps)

lemma write_per_exchange_keeps [keeps]:
  "has_line l out \<Longrightarrow> has_line l (write_per_exchange out n h t exs v)"
  by (simp add: write_per_exchange_def keeps)

lemma render_buckets_keeps [keeps]: "has_line l out \<Longrightarrow> has_line l (render_buckets n ls cs c i bs out)"
  by (induction bs arbitrary: out c i) (auto simp: keeps Let_def)

lemma render_keeps [keeps]: "has_line l out \<Longrightarrow> has_line l (render f h n ls out)"
  by (simp add: render_def Let_def keeps)

lemma render_all_keeps [keeps]: "has_line l out \<Longrightarrow> has_line l (render_all f exs out)"
  by (induction exs arbitrary: out) (simp_all add: keeps)

lemma write_per_exchange_line:
  assumes "ex \<in> set exs"
  shows "has_line (n @ ascii ''{exchange=\"'' @ em_name ex @ ascii ''\"} '' @ show_nat (unat (v ex)))
    (write_per_exchange out n h t exs v)"
proof -
  have "has_line (n @ ascii ''{exchange=\"'' @ em_name ex @ ascii ''\"} '' @ show_nat (unat (v ex)))
      (write_values out n v exs)" for out
    using assms
  proof (induction exs arbitrary: out)
    case (Cons e exs)
    show ?case
    proof (cases "e = ex")
      case True
      then show ?thesis unfolding write_values.simps by (intro write_values_keeps) (simp add: writeln_line)
    qed (use Cons in simp)
  qed simp
  then show ?thesis by (simp add: write_per_exchange_def)
qed

lemma render_buckets_line:
  assumes "i < length bs" and "k + length bs \<le> length cs"
  shows "has_line (n @ ascii ''_bucket'' @ labelled ls (snd (bs ! i))
      @ show_nat (unat (c + sum_list (take (Suc i) (drop k cs)))))
    (render_buckets n ls cs c k bs out)"
  using assms
proof (induction bs arbitrary: i c k out)
  case (Cons b bs)
  obtain bound le where b: "b = (bound, le)" by (cases b)
  have d: "drop k cs = cs ! k # drop (Suc k) cs" using Cons.prems(2) by (simp add: Cons_nth_drop_Suc)
  show ?case
  proof (cases i)
    case 0
    then show ?thesis
      unfolding b render_buckets.simps Let_def d by (intro render_buckets_keeps) (simp add: writeln_line)
  next
    case (Suc j)
    then show ?thesis
      using Cons.IH [of j "Suc k" "c + cs ! k"] Cons.prems unfolding b render_buckets.simps Let_def d
      by (simp add: add.assoc)
  qed
qed simp

lemma render_line:
  assumes "wf_histogram h" and "i < NUM_BUCKETS"
  shows "has_line (n @ ascii ''_bucket'' @ labelled ls (snd (BUCKETS ! i)) @ show_nat (unat (cumulative h i)))
    (render f h n ls out)"
  using render_buckets_line [of i BUCKETS 0 "hg_buckets h" n ls 0 out] assms
  unfolding render_def Let_def by (intro writeln_keeps) (simp add: cumulative_def wf_histogram_def)

section \<open>Properties\<close>

text \<open>
  C35. The histogram counts: after recording any latencies (fewer than \<open>2 ^ 64\<close>), each of its sixteen
  exposition lines shows the number of latencies not above its bound, the total is their number, and
  recording never indexes past the buckets.
\<close>

theorem histogram_counts:
  assumes "length ds < 2 ^ 64"
  shows "\<exists>h. record_list histogram_new ds = Inr h \<and> unat (hg_count h) = length ds
    \<and> (\<forall>i<NUM_BUCKETS. has_line
        (name @ ascii ''_bucket'' @ labelled labels (snd (BUCKETS ! i))
          @ show_nat (length (filter (\<lambda>d. saturate_u64 d \<le> bounds ! i) ds)))
        (render show_secs h name labels out))"
proof -
  obtain h where h: "record_list histogram_new ds = Inr h" "wf_histogram h"
    "hg_count h = of_nat (length ds)"
    "\<forall>i<NUM_BUCKETS. cumulative h i = cumulative histogram_new i
      + of_nat (length (filter (\<lambda>d. saturate_u64 d \<le> bounds ! i) ds))"
    using record_list_count [OF wf_histogram_new, of ds] by (auto simp: histogram_new_def)
  have zero: "cumulative histogram_new i = 0" for i
    by (simp add: cumulative_def histogram_new_def sum_list_replicate)
  have "unat (cumulative h i) = length (filter (\<lambda>d. saturate_u64 d \<le> bounds ! i) ds)" if "i < NUM_BUCKETS" for i
    using h(4) that zero assms le_less_trans [OF length_filter_le assms]
    by (simp add: unat_of_nat_small)
  with h assms render_line [OF h(2)] show ?thesis
    by (intro exI [of _ h]) (auto simp: unat_of_nat_small)
qed

theorem histogram_counts_witness:
  "\<exists>h. record_list histogram_new [80, 700, 2 ^ 70] = Inr h \<and> unat (hg_count h) = 3"
  using histogram_counts [of "[80, 700, 2 ^ 70]"] by fastforce

text \<open>
  A scrape shows, for every registered exchange, a line with the current value of its messages,
  errors and reconnections counters and of its connection gauge.
\<close>

theorem scrape_shows_counters:
  assumes "ex \<in> set (mt_exchanges m)"
    and "(metric, v) \<in> {(ascii ''orderbook_messages_total'', em_messages),
      (ascii ''orderbook_errors_total'', em_errors),
      (ascii ''orderbook_reconnections_total'', em_reconnections),
      (ascii ''orderbook_exchange_up'', \<lambda>e. of_bool (em_connected e))}"
  shows "has_line (metric @ ascii ''{exchange=\"'' @ em_name ex @ ascii ''\"} '' @ show_nat (unat (v ex)))
    (to_prometheus show_secs now m)"
proof -
  note line = write_per_exchange_line [OF assms(1)]
  from assms(2) consider "metric = ascii ''orderbook_messages_total''" "v = em_messages"
    | "metric = ascii ''orderbook_errors_total''" "v = em_errors"
    | "metric = ascii ''orderbook_reconnections_total''" "v = em_reconnections"
    | "metric = ascii ''orderbook_exchange_up''" "v = (\<lambda>e. of_bool (em_connected e))"
    by auto
  then show ?thesis
    unfolding to_prometheus_def Let_def
    by cases ((hypsubst, (rule line | rule keeps)+)[1])+
qed

theorem scrape_shows_counters_witness:
  "has_line (ascii ''orderbook_exchange_up'' @ ascii ''{exchange=\"'' @ ascii ''binance'' @ ascii ''\"} '' @ show_nat 0)
    (to_prometheus (\<lambda>ns. show_nat (unat ns)) 7 (metrics_register [ascii ''binance''] 0))"
  using scrape_shows_counters [of "exchange_metrics_new (ascii ''binance'')"
      "metrics_register [ascii ''binance''] 0" "ascii ''orderbook_exchange_up''" "\<lambda>e. of_bool (em_connected e)"
      "\<lambda>ns. show_nat (unat ns)" 7]
  by (simp add: metrics_register_def exchange_metrics_new_def)

text \<open>
  \<open>/health\<close> answers OK exactly when every registered exchange is connected, DOWN (the only answer
  that is not a success) exactly when there is one and none is connected.
\<close>

theorem health_answers:
  "(health m = HealthOk \<longleftrightarrow> list_all em_connected (mt_exchanges m))
    \<and> (health m = HealthDown \<longleftrightarrow> mt_exchanges m \<noteq> [] \<and> \<not> list_ex em_connected (mt_exchanges m))
    \<and> (status_code (health m) = 503 \<longleftrightarrow> health m = HealthDown)"
proof -
  have "length (filter em_connected (mt_exchanges m)) = length (mt_exchanges m)
      \<longleftrightarrow> list_all em_connected (mt_exchanges m)"
    by (simp add: length_filter_eq list_all_iff)
  moreover have "length (filter em_connected (mt_exchanges m)) = 0
      \<longleftrightarrow> \<not> list_ex em_connected (mt_exchanges m)"
    by (auto simp: list_ex_iff filter_empty_conv)
  ultimately show ?thesis
    by (auto simp: health_def Let_def status_code_def list_ex_iff list_all_iff)
qed

text \<open>Every exchange of the table finds its handle in the registry built from it.\<close>

lemma registered_exchange:
  "name \<in> set names \<Longrightarrow> metrics_exchange (metrics_register names now) name = Inr (exchange_metrics_new name)"
  by (induction names) (auto simp: metrics_exchange_def metrics_register_def exchange_metrics_new_def)

end
