(* ===== verification/Exchange.thy ===== *)
theory Exchange
  imports Scanner AtomicSlot Metrics
begin

text \<open>
  \<open>src/exchange/mod.rs\<close>, what the adapters share: \<open>HandleResult\<close>, the \<open>WsHandler\<close> trait and
  \<open>try_send_book\<close>. The reconnection loop that calls a handler is in \<open>WsLoop\<close>.

  A handler's \<open>process_text\<close> takes \<open>&mut self\<close>, the sender and the shared metrics; it returns them
  with the result. The two clock readings of a call, \<open>t0\<close> and \<open>t0.elapsed()\<close>, are its arguments.
  Log messages are left out.
\<close>

datatype handle_result = Continue | Reconnect | Shutdown

type_synonym 'h handled = "'h \<times> order_book slot \<times> exchange_metrics \<times> handle_result"

record 'h ws_handler =
  ws_name :: bytes
  ws_url :: "'h \<Rightarrow> bytes \<Rightarrow> bytes"
  subscribe_message :: "'h \<Rightarrow> bytes \<Rightarrow> bytes option"
  on_connected :: "'h \<Rightarrow> 'h"
  process_text :: "instant \<Rightarrow> duration \<Rightarrow> bytes \<Rightarrow> 'h \<Rightarrow> order_book slot \<Rightarrow> exchange_metrics \<Rightarrow> 'h handled run"

definition try_send_book :: "order_book slot \<Rightarrow> order_book \<Rightarrow> (bool \<times> order_book slot) run" where
  "try_send_book sender book =
     (if is_abandoned sender then Inr (False, sender)
      else map_sum id (\<lambda>s. (True, s)) (slot_send sender book))"

lemma refcount_send: "slot_send s b = Inr s' \<Longrightarrow> refcount s' = refcount s"
  by (auto simp: slot_send_def write_back_def publish_swap_def Let_def split: if_splits)

lemma try_send_book_cases:
  assumes "slot_inv s"
  obtains (abandoned) "is_abandoned s" and "try_send_book s b = Inr (False, s)"
  | (sent) s' where "\<not> is_abandoned s" and "try_send_book s b = Inr (True, s')" and "slot_inv s'"
      and "slot_unread s' = Some b" and "\<not> is_abandoned s'" and "refcount s' = refcount s"
proof (cases "is_abandoned s")
  case True
  then show thesis by (intro abandoned) (simp_all add: try_send_book_def)
next
  case False
  obtain s' where s': "slot_send s b = Inr s'" "slot_inv s'" "slot_unread s' = Some b"
    using triple.send_law [OF assms, of b] by blast
  show thesis
    by (rule sent [of s']) (use False s' refcount_send [OF s'(1)] in \<open>simp_all add: try_send_book_def is_abandoned_def\<close>)
qed

lemma try_send_book_False: "try_send_book s b = Inr (False, s') \<Longrightarrow> is_abandoned s"
  by (cases "slot_send s b") (auto simp: try_send_book_def split: if_splits)

section \<open>The contract of a handler\<close>

text \<open>A book a handler may publish: its own exchange, at most \<open>DEPTH\<close> levels a side, no empty level.\<close>

definition book_ok :: "exchange_id \<Rightarrow> order_book \<Rightarrow> bool" where
  "book_ok eid b \<longleftrightarrow> ob_exchange_id b = eid
     \<and> length (ob_bids b) \<le> DEPTH \<and> length (ob_asks b) \<le> DEPTH
     \<and> list_all nonzero (ob_bids b) \<and> list_all nonzero (ob_asks b)"

definition unread_ok :: "exchange_id \<Rightarrow> order_book slot \<Rightarrow> bool" where
  "unread_ok eid s \<longleftrightarrow> (case slot_unread s of None \<Rightarrow> True | Some b \<Rightarrow> book_ok eid b)"

definition metrics_ok :: "exchange_metrics \<Rightarrow> bool" where
  "metrics_ok m \<longleftrightarrow> wf_histogram (em_decode_latency m)"

text \<open>
  What the reconnection loop relies on, whatever the exchange. A handler may panic on a frame
  (\<open>Inl\<close>); when it returns, the slot is in order and holds an admissible book, the connection state
  and the reconnection count are untouched, and it asks for shutdown only if the consumer is gone.
\<close>

locale handler_contract =
  fixes process :: "instant \<Rightarrow> duration \<Rightarrow> bytes \<Rightarrow> 'h \<Rightarrow> order_book slot \<Rightarrow> exchange_metrics \<Rightarrow> 'h handled run"
    and eid :: exchange_id
    and frame_ok :: "bytes \<Rightarrow> bool"
  assumes keeps: "process t0 d text h s m = Inr (h', s', m', r) \<Longrightarrow> frame_ok text \<Longrightarrow>
      slot_inv s \<Longrightarrow> unread_ok eid s \<Longrightarrow> metrics_ok m \<Longrightarrow>
      slot_inv s' \<and> unread_ok eid s' \<and> metrics_ok m' \<and> em_name m' = em_name m
      \<and> em_connected m' = em_connected m \<and> em_reconnections m' = em_reconnections m
      \<and> refcount s' = refcount s"
    and shutdown: "process t0 d text h s m = Inr (h', s', m', Shutdown) \<Longrightarrow> slot_inv s \<Longrightarrow> is_abandoned s"

text \<open>The frames of a connection, one after the other, until the handler does not continue.\<close>

fun process_all ::
    "(instant \<Rightarrow> duration \<Rightarrow> bytes \<Rightarrow> 'h \<Rightarrow> order_book slot \<Rightarrow> exchange_metrics \<Rightarrow> 'h handled run)
      \<Rightarrow> (instant \<times> duration \<times> bytes) list \<Rightarrow> 'h \<Rightarrow> order_book slot \<Rightarrow> exchange_metrics \<Rightarrow> 'h handled run" where
  "process_all process [] h s m = Inr (h, s, m, Continue)"
| "process_all process ((t0, d, text) # fs) h s m =
     (case process t0 d text h s m of
        Inl p \<Rightarrow> Inl p
      | Inr (h, s, m, Continue) \<Rightarrow> process_all process fs h s m
      | Inr (h, s, m, r) \<Rightarrow> Inr (h, s, m, r))"

context handler_contract
begin

lemma process_all_keeps:
  assumes "process_all process fs h s m = Inr (h', s', m', r)" and "\<forall>(t0, d, frame)\<in>set fs. frame_ok frame"
    and "slot_inv s" and "unread_ok eid s" and "metrics_ok m"
  shows "slot_inv s' \<and> unread_ok eid s' \<and> metrics_ok m' \<and> em_name m' = em_name m
      \<and> em_connected m' = em_connected m \<and> em_reconnections m' = em_reconnections m
      \<and> refcount s' = refcount s"
  using assms
proof (induction fs arbitrary: h s m)
  case (Cons f fs)
  obtain t0 d frame where f: "f = (t0, d, frame)" by (cases f)
  obtain h1 s1 m1 r1 where p: "process t0 d frame h s m = Inr (h1, s1, m1, r1)"
    using Cons.prems(1) by (auto simp: f split: sum.splits)
  from keeps [OF p] Cons.prems f
  have k: "slot_inv s1" "unread_ok eid s1" "metrics_ok m1" "em_name m1 = em_name m"
    "em_connected m1 = em_connected m" "em_reconnections m1 = em_reconnections m" "refcount s1 = refcount s"
    by simp_all
  show ?case
  proof (cases "r1 = Continue")
    case True
    with Cons.IH [of h1 s1 m1] Cons.prems p f k show ?thesis by simp
  next
    case False
    with Cons.prems(1) p f k show ?thesis by (cases r1) auto
  qed
qed simp

end

lemma record_decode_ok:
  assumes "metrics_ok m"
  obtains m' where "record_decode m d = Inr m'" and "metrics_ok m'" and "em_name m' = em_name m"
    and "em_connected m' = em_connected m" and "em_reconnections m' = em_reconnections m"
    and "em_errors m' = em_errors m" and "em_messages m' = em_messages m"
proof -
  from assms have "wf_histogram (em_decode_latency m)" by (simp add: metrics_ok_def)
  then obtain h where "histogram_record (em_decode_latency m) d = Inr h" "wf_histogram h"
    by (rule record_wf)
  then show thesis
    by (intro that [of "m\<lparr>em_decode_latency := h\<rparr>"]) (simp_all add: record_decode_def metrics_ok_def)
qed

end
