(* ===== verification/WsLoop.thy ===== *)
theory WsLoop
  imports Exchange
begin

text \<open>
  \<open>src/exchange/mod.rs\<close>, the reconnection loop: \<open>run_ws_loop\<close> with \<open>backoff_sleep\<close>. The loop awaits its
  environment at fixed points; between two of them it runs without interruption. Its state is where
  it waits (\<open>pc\<close>) with the backoff, the handler, the sender and the shared metrics; \<open>ws_step\<close> is one
  input of the environment and the code up to the next wait. An input that does not fit the place the
  loop waits at leaves the state as it is. The jitter is drawn by the \<open>fastrand\<close> crate, the parameter
  \<open>rand\<close>: a range end and the state of the generator give the number.
\<close>

section \<open>The loop\<close>

definition MAX_BACKOFF_MS :: u64 where
  "MAX_BACKOFF_MS = 30000"

definition INITIAL_BACKOFF_MS :: u64 where
  "INITIAL_BACKOFF_MS = 1000"

datatype ws_pc =
    AtTop \<comment> \<open>\<open>cancel.is_cancelled()\<close> at the head of the loop\<close>
  | Connecting \<comment> \<open>\<open>timeout(CONNECT_TIMEOUT, connect_fut).await\<close>\<close>
  | Subscribing \<comment> \<open>\<open>ws_stream.send(..).await\<close>\<close>
  | Reading \<comment> \<open>the \<open>select!\<close> of the read loop\<close>
  | AtRetry \<comment> \<open>\<open>cancel.is_cancelled()\<close> before the backoff\<close>
  | Drawing \<comment> \<open>the jitter of \<open>backoff_sleep\<close>\<close>
  | Sleeping u64 \<comment> \<open>the \<open>select!\<close> of \<open>backoff_sleep\<close>, with the delay\<close>
  | Returned
  | Panicked panic

datatype ws_input =
    Check bool \<comment> \<open>the answer of \<open>is_cancelled\<close>\<close>
  | ConnectTimeout
  | ConnectOk
  | ConnectErr
  | SendOk
  | SendErr
  | Cancelled \<comment> \<open>the cancellation branch of a \<open>select!\<close>\<close>
  | TextFrame instant duration bytes \<comment> \<open>a text message and the clock readings of its processing\<close>
  | OtherFrame
  | StreamErr
  | StreamEnd
  | Draw nat \<comment> \<open>the generator's state\<close>
  | Slept
  | ConsumerRecv \<comment> \<open>the merger takes from the slot\<close>
  | ConsumerDrop \<comment> \<open>the merger drops its half\<close>

record 'h ws_state =
  pc :: ws_pc
  backoff_ms :: u64
  handler :: 'h
  sender :: "order_book slot"
  em :: exchange_metrics

definition ws_init :: "'h \<Rightarrow> order_book slot \<Rightarrow> exchange_metrics \<Rightarrow> 'h ws_state" where
  "ws_init h s m = \<lparr>pc = AtTop, backoff_ms = INITIAL_BACKOFF_MS, handler = h, sender = s, em = m\<rparr>"

definition set_connected :: "bool \<Rightarrow> exchange_metrics \<Rightarrow> exchange_metrics" where
  "set_connected b m = m\<lparr>em_connected := b\<rparr>"

text \<open>\<open>half + fastrand::u64(0..half.max(1))\<close>\<close>

definition backoff_delay :: "(u64 \<Rightarrow> nat \<Rightarrow> u64) \<Rightarrow> nat \<Rightarrow> u64 \<Rightarrow> u64" where
  "backoff_delay rand g backoff = (let half = backoff div 2 in half + rand (max half 1) g)"

definition next_backoff :: "u64 \<Rightarrow> u64 \<Rightarrow> u64" where
  "next_backoff backoff max_ms = min (backoff * 2) max_ms"

definition on_connect :: "'h ws_handler \<Rightarrow> bytes \<Rightarrow> 'h ws_state \<Rightarrow> 'h ws_state" where
  "on_connect H symbol c =
     (let h = on_connected H (handler c) in
      c\<lparr>em := set_connected True (em c), backoff_ms := INITIAL_BACKOFF_MS, handler := h,
        pc := (case subscribe_message H h symbol of Some _ \<Rightarrow> Subscribing | None \<Rightarrow> Reading)\<rparr>)"

definition on_text :: "'h ws_handler \<Rightarrow> instant \<Rightarrow> duration \<Rightarrow> bytes \<Rightarrow> 'h ws_state \<Rightarrow> 'h ws_state" where
  "on_text H t0 d t c =
     (case process_text H t0 d t (handler c) (sender c) (em c) of
        Inl p \<Rightarrow> c\<lparr>pc := Panicked p\<rparr>
      | Inr (h, s, m, r) \<Rightarrow>
          (let c = c\<lparr>handler := h, sender := s, em := m\<rparr> in
           case r of
             Continue \<Rightarrow> c
           | Reconnect \<Rightarrow> c\<lparr>em := set_connected False (em c), pc := AtRetry\<rparr>
           | Shutdown \<Rightarrow> c\<lparr>pc := Returned\<rparr>))"

text \<open>What the other thread may do to the slot at any time.\<close>

definition consumer_recv :: "order_book slot \<Rightarrow> order_book slot" where
  "consumer_recv s = (case slot_recv s of Inr (_, s') \<Rightarrow> s' | Inl _ \<Rightarrow> s)"

definition consumer_drop :: "order_book slot \<Rightarrow> order_book slot" where
  "consumer_drop s = (if refcount s = 2 then snd (drop_half s) else s)"

fun ws_step ::
    "'h ws_handler \<Rightarrow> (u64 \<Rightarrow> nat \<Rightarrow> u64) \<Rightarrow> bytes \<Rightarrow> 'h ws_state \<Rightarrow> ws_input \<Rightarrow> 'h ws_state" where
  "ws_step H rand symbol c i =
     (case (pc c, i) of
        (AtTop, Check b) \<Rightarrow> c\<lparr>pc := if b then Returned else Connecting\<rparr>
      | (Connecting, ConnectTimeout) \<Rightarrow> c\<lparr>em := bump_errors (em c), pc := AtRetry\<rparr>
      | (Connecting, ConnectErr) \<Rightarrow> c\<lparr>em := bump_errors (em c), pc := AtRetry\<rparr>
      | (Connecting, ConnectOk) \<Rightarrow> on_connect H symbol c
      | (Subscribing, SendOk) \<Rightarrow> c\<lparr>pc := Reading\<rparr>
      | (Subscribing, SendErr) \<Rightarrow> c\<lparr>em := set_connected False (bump_errors (em c)), pc := AtRetry\<rparr>
      | (Reading, Cancelled) \<Rightarrow> c\<lparr>em := set_connected False (em c), pc := Returned\<rparr>
      | (Reading, TextFrame t0 d t) \<Rightarrow> on_text H t0 d t c
      | (Reading, OtherFrame) \<Rightarrow> c
      | (Reading, StreamErr) \<Rightarrow> c\<lparr>em := set_connected False (bump_errors (em c)), pc := AtRetry\<rparr>
      | (Reading, StreamEnd) \<Rightarrow> c\<lparr>em := set_connected False (em c), pc := AtRetry\<rparr>
      | (AtRetry, Check b) \<Rightarrow>
          if b then c\<lparr>pc := Returned\<rparr> else c\<lparr>em := bump_reconnections (em c), pc := Drawing\<rparr>
      | (Drawing, Draw g) \<Rightarrow> c\<lparr>pc := Sleeping (backoff_delay rand g (backoff_ms c))\<rparr>
      | (Sleeping _, Cancelled) \<Rightarrow> c\<lparr>pc := Returned\<rparr>
      | (_, ConsumerRecv) \<Rightarrow> c\<lparr>sender := consumer_recv (sender c)\<rparr>
      | (_, ConsumerDrop) \<Rightarrow> c\<lparr>sender := consumer_drop (sender c)\<rparr>
      | (Sleeping _, Slept) \<Rightarrow> c\<lparr>backoff_ms := next_backoff (backoff_ms c) MAX_BACKOFF_MS, pc := AtTop\<rparr>
      | _ \<Rightarrow> c)"

definition ws_run ::
    "'h ws_handler \<Rightarrow> (u64 \<Rightarrow> nat \<Rightarrow> u64) \<Rightarrow> bytes \<Rightarrow> 'h ws_state \<Rightarrow> ws_input list \<Rightarrow> 'h ws_state" where
  "ws_run H rand symbol = foldl (ws_step H rand symbol)"

declare ws_step.simps [simp del]

section \<open>Backoff\<close>

text \<open>The documented behaviour of \<open>fastrand::u64(0..n)\<close>.\<close>

definition rand_below :: "(u64 \<Rightarrow> nat \<Rightarrow> u64) \<Rightarrow> bool" where
  "rand_below rand \<longleftrightarrow> (\<forall>n g. 0 < n \<longrightarrow> rand n g < n)"

definition backoff_ok :: "u64 \<Rightarrow> bool" where
  "backoff_ok b \<longleftrightarrow> 1000 \<le> unat b \<and> unat b \<le> 30000 \<and> even (unat b)"

lemma backoff_ok_initial: "backoff_ok INITIAL_BACKOFF_MS"
  by (simp add: backoff_ok_def INITIAL_BACKOFF_MS_def)

lemma unat_min_u64: "unat (min a b :: u64) = min (unat a) (unat b)"
  by (simp add: min_def word_le_nat_alt)

lemma next_backoff_value:
  assumes "unat b \<le> 30000"
  shows "unat (next_backoff b MAX_BACKOFF_MS) = min (2 * unat b) 30000"
proof -
  have "unat (b * 2) = unat b * 2"
    by (rule unat_mult_lem [THEN iffD1, of b 2, simplified]) (use assms in simp)
  then show ?thesis by (simp add: next_backoff_def MAX_BACKOFF_MS_def unat_min_u64 mult.commute)
qed

lemma next_backoff_ok: "backoff_ok b \<Longrightarrow> backoff_ok (next_backoff b MAX_BACKOFF_MS)"
  using next_backoff_value [of b] by (auto simp: backoff_ok_def min_def)

lemma backoff_delay_range:
  assumes "rand_below rand" and "backoff_ok b"
  shows "unat b div 2 \<le> unat (backoff_delay rand g b) \<and> unat (backoff_delay rand g b) < unat b"
proof -
  let ?h = "b div 2"
  have h: "unat ?h = unat b div 2" by (simp add: unat_div)
  have "unat (max ?h 1) = unat ?h"
    using assms(2) h by (auto simp: max_def word_le_nat_alt backoff_ok_def)
  moreover have "0 < max ?h 1" by (simp add: word_less_nat_alt calculation h) (use assms(2) in \<open>simp add: backoff_ok_def\<close>)
  then have "rand (max ?h 1) g < max ?h 1" using assms(1) by (simp add: rand_below_def)
  ultimately have r: "unat (rand (max ?h 1) g) < unat b div 2" using h by (simp add: word_less_nat_alt)
  have "unat (?h + rand (max ?h 1) g) = unat b div 2 + unat (rand (max ?h 1) g)"
  proof -
    have "unat b div 2 \<le> 15000" using assms(2) by (auto simp: backoff_ok_def)
    with r h have "unat ?h + unat (rand (max ?h 1) g) < 2 ^ LENGTH(64)" by simp
    from unat_add_lem [THEN iffD1, OF this] h show ?thesis by simp
  qed
  with r assms(2) show ?thesis by (auto simp: backoff_delay_def Let_def backoff_ok_def)
qed

section \<open>Invariant\<close>

definition ws_inv :: "exchange_id \<Rightarrow> 'h ws_state \<Rightarrow> bool" where
  "ws_inv eid c \<longleftrightarrow> slot_inv (sender c) \<and> unread_ok eid (sender c) \<and> metrics_ok (em c)
     \<and> backoff_ok (backoff_ms c)
     \<and> (case pc c of
          Subscribing \<Rightarrow> em_connected (em c)
        | Reading \<Rightarrow> em_connected (em c)
        | Sleeping d \<Rightarrow> \<not> em_connected (em c) \<and> 500 \<le> unat d \<and> unat d < 30000
        | Returned \<Rightarrow> em_connected (em c) \<longrightarrow> is_abandoned (sender c)
        | Panicked _ \<Rightarrow> em_connected (em c)
        | _ \<Rightarrow> \<not> em_connected (em c))"

definition input_ok :: "(bytes \<Rightarrow> bool) \<Rightarrow> ws_input \<Rightarrow> bool" where
  "input_ok frame_ok i = (case i of TextFrame _ _ t \<Rightarrow> frame_ok t | _ \<Rightarrow> True)"

lemma consumer_recv_ok:
  assumes "slot_inv s" and "unread_ok eid s"
  shows "slot_inv (consumer_recv s)" "unread_ok eid (consumer_recv s)"
    "is_abandoned (consumer_recv s) = is_abandoned s"
proof -
  obtain s' where s': "slot_recv s = Inr (slot_unread s, s')" "slot_inv s'" "slot_unread s' = None"
    using triple.recv_law [OF assms(1)] by blast
  then have "refcount s' = refcount s"
    by (auto simp: slot_recv_def take_swap_def Let_def split: if_splits dest: refcount_take)
  with s' show "slot_inv (consumer_recv s)" "unread_ok eid (consumer_recv s)"
    "is_abandoned (consumer_recv s) = is_abandoned s"
    by (simp_all add: consumer_recv_def unread_ok_def is_abandoned_def)
qed

lemma consumer_drop_ok:
  assumes "slot_inv s" and "unread_ok eid s"
  shows "slot_inv (consumer_drop s)" "unread_ok eid (consumer_drop s)"
    "is_abandoned s \<Longrightarrow> is_abandoned (consumer_drop s)"
  using assms
  by (auto simp: consumer_drop_def drop_half_def Let_def slot_inv_def unread_ok_def roles_ok_def mid_def
      slot_unread_def load_dirty_def is_abandoned_def)

lemma metrics_ok_simps [simp]:
  "metrics_ok (bump_errors m) = metrics_ok m" "metrics_ok (set_connected b m) = metrics_ok m"
  "metrics_ok (bump_reconnections m) = metrics_ok m"
  "em_connected (bump_errors m) = em_connected m" "em_connected (set_connected b m) = b"
  "em_connected (bump_reconnections m) = em_connected m"
  by (simp_all add: metrics_ok_def bump_errors_def set_connected_def bump_reconnections_def)

context handler_contract
begin

lemma on_text_inv:
  assumes "process_text H = process" and "frame_ok t" and "ws_inv eid c" and "pc c = Reading"
  shows "ws_inv eid (on_text H t0 d t c)"
proof (cases "process t0 d t (handler c) (sender c) (em c)")
  case (Inl p)
  with assms show ?thesis by (simp add: on_text_def ws_inv_def)
next
  case (Inr out)
  obtain h s m r where out: "out = (h, s, m, r)" by (cases out)
  from keeps [OF Inr [unfolded out] assms(2)] assms(3,4) have k: "slot_inv s" "unread_ok eid s" "metrics_ok m"
    "em_connected m" "refcount s = refcount (sender c)" by (simp_all add: ws_inv_def)
  have "is_abandoned s" if "r = Shutdown"
    using shutdown [OF Inr [unfolded out that]] assms(3) k(5) by (simp add: ws_inv_def is_abandoned_def)
  with Inr out assms k show ?thesis
    by (cases r) (simp_all add: on_text_def ws_inv_def)
qed

lemma ws_step_inv:
  assumes "process_text H = process" and "rand_below rand" and "input_ok frame_ok i" and "ws_inv eid c"
  shows "ws_inv eid (ws_step H rand symbol c i)"
proof -
  have inv: "slot_inv (sender c)" "unread_ok eid (sender c)" "backoff_ok (backoff_ms c)"
    using assms(4) by (simp_all add: ws_inv_def)
  note recv = consumer_recv_ok [OF inv(1,2)] and drop = consumer_drop_ok [OF inv(1,2)]
  show ?thesis
  proof (cases i)
    case (TextFrame t0 d t)
    with on_text_inv [OF assms(1) _ assms(4)] assms(3,4) show ?thesis
      by (auto simp: ws_step.simps input_ok_def split: ws_pc.split)
  next
    case (Draw g)
    have "500 \<le> unat (backoff_delay rand g (backoff_ms c)) \<and> unat (backoff_delay rand g (backoff_ms c)) < 30000"
      using backoff_delay_range [OF assms(2) inv(3), of g] inv(3) by (auto simp: backoff_ok_def)
    with Draw assms(4) show ?thesis by (auto simp: ws_step.simps ws_inv_def split: ws_pc.split)
  next
    case ConnectOk
    with assms(4) backoff_ok_initial show ?thesis
      by (auto simp: ws_step.simps ws_inv_def on_connect_def Let_def split: ws_pc.split option.split)
  next
    case Slept
    with assms(4) next_backoff_ok [OF inv(3)] show ?thesis
      by (auto simp: ws_step.simps ws_inv_def split: ws_pc.split)
  next
    case ConsumerRecv
    with assms(4) recv show ?thesis by (auto simp: ws_step.simps ws_inv_def split: ws_pc.split)
  next
    case ConsumerDrop
    with assms(4) drop show ?thesis by (auto simp: ws_step.simps ws_inv_def split: ws_pc.split)
  qed (use assms(4) in \<open>auto simp: ws_step.simps ws_inv_def split: ws_pc.split\<close>)
qed

lemma ws_run_inv:
  assumes "process_text H = process" and "rand_below rand" and "list_all (input_ok frame_ok) is" and "ws_inv eid c"
  shows "ws_inv eid (ws_run H rand symbol c is)"
  using assms(3,4)
  by (induction "is" arbitrary: c) (simp_all add: ws_run_def ws_step_inv [OF assms(1,2)])

end

section \<open>Properties\<close>

text \<open>One failed attempt: connect, give up, wait, and back to the top.\<close>

definition failed_round :: "ws_input \<Rightarrow> nat \<Rightarrow> ws_input list" where
  "failed_round failure g = [Check False, failure, Check False, Draw g, Slept]"

lemma failed_round_step:
  assumes "pc c = AtTop" and "failure = ConnectTimeout \<or> failure = ConnectErr" and "backoff_ok (backoff_ms c)"
  shows "ws_run H rand symbol c (failed_round failure g)
    = c\<lparr>backoff_ms := next_backoff (backoff_ms c) MAX_BACKOFF_MS, em := bump_reconnections (bump_errors (em c))\<rparr>"
  using assms(2) assms(1)
  by (elim disjE) (simp_all add: failed_round_def ws_run_def ws_step.simps)

lemma capped_mult:
  assumes "1 \<le> p"
  shows "min (min a M * p) M = min (a * p) (M :: nat)"
proof (cases "a \<le> M")
  case False
  then have "min a M = M" by simp
  moreover have "M \<le> M * p" using assms by (cases p) simp_all
  moreover from this False have "M \<le> a * p" by (meson mult_le_mono1 nat_le_linear order_trans)
  ultimately show ?thesis by (simp only: min_absorb2)
qed (simp add: min_def)

text \<open>
  C31. Exponential backoff: after \<open>n\<close> attempts in a row that time out or fail, the loop is back at its
  top with a backoff of \<open>min (1000 * 2 ^ n) 30000\<close> milliseconds and \<open>n\<close> errors and reconnections
  counted; the multiplication never overflows.
\<close>

theorem backoff_sequence:
  assumes "list_all (\<lambda>(f, g). f = ConnectTimeout \<or> f = ConnectErr) attempts"
  shows "let c = ws_run H rand symbol (ws_init h s m) (concat (map (\<lambda>(f, g). failed_round f g) attempts))
    in pc c = AtTop \<and> unat (backoff_ms c) = min (1000 * 2 ^ length attempts) 30000
      \<and> em_errors (em c) = em_errors m + of_nat (length attempts)
      \<and> em_reconnections (em c) = em_reconnections m + of_nat (length attempts)"
proof -
  have "pc c = AtTop \<Longrightarrow> backoff_ok (backoff_ms c) \<Longrightarrow>
      (let c' = ws_run H rand symbol c (concat (map (\<lambda>(f, g). failed_round f g) attempts))
       in pc c' = AtTop \<and> unat (backoff_ms c') = min (unat (backoff_ms c) * 2 ^ length attempts) 30000
         \<and> em_errors (em c') = em_errors (em c) + of_nat (length attempts)
         \<and> em_reconnections (em c') = em_reconnections (em c) + of_nat (length attempts))" for c :: "'a ws_state"
    using assms
  proof (induction attempts arbitrary: c)
    case Nil
    then show ?case by (simp add: ws_run_def backoff_ok_def)
  next
    case (Cons a as)
    obtain f g where a: "a = (f, g)" by (cases a)
    let ?c = "c\<lparr>backoff_ms := next_backoff (backoff_ms c) MAX_BACKOFF_MS, em := bump_reconnections (bump_errors (em c))\<rparr>"
    have first: "ws_run H rand symbol c (failed_round f g) = ?c"
      using failed_round_step [OF Cons.prems(1) _ Cons.prems(2)] Cons.prems(3) a by simp
    have val: "unat (next_backoff (backoff_ms c) MAX_BACKOFF_MS) = min (2 * unat (backoff_ms c)) 30000"
      using next_backoff_value [of "backoff_ms c"] Cons.prems(2) by (simp add: backoff_ok_def)
    have m: "min (min (2 * b) 30000 * 2 ^ k) 30000 = min (b * (2 * 2 ^ k)) (30000 :: nat)" for b k
      using capped_mult [of "2 ^ k" "2 * b" 30000] by (simp add: mult_ac)
    from Cons.IH [of ?c] Cons.prems next_backoff_ok [OF Cons.prems(2)]
    show ?case
      by (simp add: a Let_def ws_run_def first [unfolded ws_run_def] val m bump_errors_def bump_reconnections_def)
  qed
  from this [of "ws_init h s m"] backoff_ok_initial show ?thesis
    by (simp add: Let_def ws_init_def INITIAL_BACKOFF_MS_def)
qed

definition idle_handler :: "unit ws_handler" where
  "idle_handler = \<lparr>ws_name = ascii ''idle'', ws_url = (\<lambda>_ _. []), subscribe_message = (\<lambda>_ _. None),
     on_connected = id, process_text = (\<lambda>_ _ _ h s m. Inr (h, s, m, Continue))\<rparr>"

theorem backoff_sequence_witness:
  "unat (backoff_ms (ws_run idle_handler (\<lambda>n g. 0) [] (ws_init () slot_new (exchange_metrics_new []))
    (failed_round ConnectErr 0 @ failed_round ConnectTimeout 1))) = 4000"
  using backoff_sequence [of "[(ConnectErr, 0), (ConnectTimeout, 1)]" idle_handler "\<lambda>n g. 0" "[]" "()"
      slot_new "exchange_metrics_new []"]
  by (simp add: Let_def)

text \<open>
  Equal jitter: the delay drawn for a backoff lies in its upper half, \<open>[backoff / 2, backoff)\<close>.
\<close>

theorem equal_jitter:
  assumes "rand_below rand" and "backoff_ok b"
  shows "unat b div 2 \<le> unat (backoff_delay rand g b) \<and> unat (backoff_delay rand g b) < unat b"
  by (rule backoff_delay_range [OF assms])

theorem equal_jitter_witness:
  "500 \<le> unat (backoff_delay (\<lambda>n g. 0) 3 INITIAL_BACKOFF_MS) \<and> unat (backoff_delay (\<lambda>n g. 0) 3 INITIAL_BACKOFF_MS) < 1000"
proof -
  have "rand_below (\<lambda>n g. 0)" by (simp add: rand_below_def)
  from equal_jitter [OF this backoff_ok_initial, of 3] show ?thesis by (simp add: INITIAL_BACKOFF_MS_def)
qed

end
