(* ===== verification/Binance.thy ===== *)
theory Binance
  imports Exchange
begin

text \<open>
  \<open>src/exchange/binance.rs\<close>: the byte walker of the depth stream and the handler with its sequence
  check. A frame is read in one forward pass: \<open>lastUpdateId\<close>, then \<open>bids\<close>, then \<open>asks\<close>.
\<close>

section \<open>The walker\<close>

definition pat_last_update_id :: bytes where
  "pat_last_update_id = ascii ''\"lastUpdateId\":''"

definition pat_bids :: bytes where
  "pat_bids = ascii ''\"bids\":''"

definition pat_asks :: bytes where
  "pat_asks = ascii ''\"asks\":''"

text \<open>\<open>s.seek(&p.bids)?; read_raw_levels(&mut s)?\<close>\<close>

definition seek_levels :: "crates \<Rightarrow> scanner \<Rightarrow> bytes \<Rightarrow> (raw_level list option \<times> scanner) run" where
  "seek_levels X s finder =
     (case seek X s finder of
        Inl p \<Rightarrow> Inl p
      | Inr (None, s) \<Rightarrow> Inr (None, s)
      | Inr (Some _, s) \<Rightarrow> Inr (read_raw_levels X DEPTH s))"

definition binance_walk :: "crates \<Rightarrow> bytes \<Rightarrow> (u64 \<times> raw_level list \<times> raw_level list) option run" where
  "binance_walk X json =
     (case seek X (scanner_new json) pat_last_update_id of
        Inl p \<Rightarrow> Inl p
      | Inr (found, s) \<Rightarrow>
     (let (seq, s) = (case found of Some _ \<Rightarrow> read_u64 s | None \<Rightarrow> (0, s\<lparr>pos := 0\<rparr>)) in
      case seek_levels X s pat_bids of
        Inl p \<Rightarrow> Inl p
      | Inr (None, _) \<Rightarrow> Inr None
      | Inr (Some bids, s) \<Rightarrow>
     (case seek_levels X s pat_asks of
        Inl p \<Rightarrow> Inl p
      | Inr (None, _) \<Rightarrow> Inr None
      | Inr (Some asks, _) \<Rightarrow> Inr (Some (seq, bids, asks)))))"

definition binance_parse :: "crates \<Rightarrow> instant \<Rightarrow> bytes \<Rightarrow> order_book option run" where
  "binance_parse X now json =
     map_sum id (map_option (\<lambda>(_, bids, asks).
       \<lparr>ob_exchange_id = BINANCE_ID, ob_bids = bids, ob_asks = asks, ob_decode_start = now\<rparr>))
       (binance_walk X json)"

section \<open>The handler\<close>

record binance_handler =
  last_seq :: u64

definition binance_new :: binance_handler where
  "binance_new = \<lparr>last_seq = 0\<rparr>"

definition binance_ws_url :: "binance_handler \<Rightarrow> bytes \<Rightarrow> bytes" where
  "binance_ws_url h symbol =
     ascii ''wss://stream.binance.com:9443/ws/'' @ symbol @ ascii ''@depth20@100ms''"

definition binance_on_connected :: "binance_handler \<Rightarrow> binance_handler" where
  "binance_on_connected h = h\<lparr>last_seq := 0\<rparr>"

definition binance_process_text ::
    "crates \<Rightarrow> instant \<Rightarrow> duration \<Rightarrow> bytes \<Rightarrow> binance_handler \<Rightarrow> order_book slot \<Rightarrow> exchange_metrics
      \<Rightarrow> binance_handler handled run" where
  "binance_process_text X t0 elapsed text h sender m =
     (case binance_walk X text of
        Inl p \<Rightarrow> Inl p
      | Inr None \<Rightarrow> Inr (h, sender, bump_errors m, Continue)
      | Inr (Some (seq, bids, asks)) \<Rightarrow>
          if 0 < seq \<and> 0 < last_seq h \<and> seq \<le> last_seq h then Inr (h, sender, bump_errors m, Continue)
          else
            (let h = h\<lparr>last_seq := seq\<rparr>;
                 book = \<lparr>ob_exchange_id = BINANCE_ID, ob_bids = bids, ob_asks = asks, ob_decode_start = t0\<rparr> in
             case record_decode m elapsed of
               Inl p \<Rightarrow> Inl p
             | Inr m \<Rightarrow>
                 (let m = bump_messages m in
                  case try_send_book sender book of
                    Inl p \<Rightarrow> Inl p
                  | Inr (ok, sender) \<Rightarrow> Inr (h, sender, m, if ok then Continue else Shutdown))))"

definition binance_ws :: "crates \<Rightarrow> binance_handler ws_handler" where
  "binance_ws X = \<lparr>ws_name = ascii ''binance'', ws_url = binance_ws_url,
     subscribe_message = (\<lambda>_ _. None), on_connected = binance_on_connected,
     process_text = binance_process_text X\<rparr>"

section \<open>The walker never leaves its buffer\<close>

context external_crates
begin

lemma seek_levels_inside:
  assumes "pos s \<le> length (buf s)"
  obtains r s' where "seek_levels X s needle = Inr (r, s')" and "buf s' = buf s" and "pos s' \<le> length (buf s')"
proof -
  from seek_inside [OF assms] obtain r s1 where s1: "seek X s needle = Inr (r, s1)" "buf s1 = buf s"
    "pos s1 \<le> length (buf s1)" by metis
  show thesis
  proof (cases r)
    case None
    with s1 show thesis by (intro that [of None s1]) (simp_all add: seek_levels_def)
  next
    case (Some u)
    obtain l s2 where l: "read_raw_levels X DEPTH s1 = (l, s2)" by fastforce
    from read_raw_levels_forward [OF this] s1 show thesis
      by (intro that [of l s2]) (auto simp: seek_levels_def Some l advances_def)
  qed
qed

lemma seek_levels_bound:
  assumes "seek_levels X s needle = Inr (Some ls, s')" and "length (buf s) < 2 ^ 32"
  shows "length ls \<le> DEPTH" "list_all nonzero ls"
proof -
  from assms obtain u s1 where "seek X s needle = Inr (Some u, s1)"
    and l: "read_raw_levels X DEPTH s1 = (Some ls, s')"
    by (auto simp: seek_levels_def split: sum.splits prod.splits option.splits)
  then have "buf s1 = buf s" by (auto simp: seek_def split: if_splits option.splits)
  with l assms(2) show "length ls \<le> DEPTH" "list_all nonzero ls"
    using read_raw_levels_bound [of s1 DEPTH ls s'] by simp_all
qed

lemma binance_walk_returns:
  obtains r where "binance_walk X json = Inr r"
proof -
  let ?s = "scanner_new json"
  obtain u s1 where 1: "seek X ?s pat_last_update_id = Inr (u, s1)" "pos s1 \<le> length (buf s1)"
    by (rule seek_inside [of ?s pat_last_update_id]) (auto simp: scanner_new_def)
  obtain seq s2 where 2: "(case u of Some _ \<Rightarrow> read_u64 s1 | None \<Rightarrow> (0, s1\<lparr>pos := 0\<rparr>)) = (seq, s2)"
    by fastforce
  with 1 read_u64_forward [of s1] have p2: "pos s2 \<le> length (buf s2)"
    by (auto dest: advances_pos split: option.splits)
  obtain b s3 where 3: "seek_levels X s2 pat_bids = Inr (b, s3)" "pos s3 \<le> length (buf s3)"
    by (rule seek_levels_inside [OF p2, of pat_bids]) auto
  obtain c s4 where 4: "seek_levels X s3 pat_asks = Inr (c, s4)"
    by (rule seek_levels_inside [OF 3(2), of pat_asks]) auto
  have "\<exists>r. binance_walk X json = Inr r"
    unfolding binance_walk_def using 1(1) 2 3(1) 4 by (cases b; cases c) simp_all
  with that show thesis by blast
qed

lemma seek_levels_buf: "pos s \<le> length (buf s) \<Longrightarrow> seek_levels X s needle = Inr (r, s') \<Longrightarrow> buf s' = buf s"
  by (rule seek_levels_inside [of s needle]) auto

lemma binance_walk_levels:
  assumes "binance_walk X json = Inr (Some (seq, bids, asks))" and "length json < 2 ^ 32"
  shows "length bids \<le> DEPTH \<and> length asks \<le> DEPTH \<and> list_all nonzero bids \<and> list_all nonzero asks"
proof -
  from assms(1) obtain u s1 s2 s3 s4
    where 1: "seek X (scanner_new json) pat_last_update_id = Inr (u, s1)"
      and 2: "(case u of Some _ \<Rightarrow> read_u64 s1 | None \<Rightarrow> (0, s1\<lparr>pos := 0\<rparr>)) = (seq, s2)"
      and 3: "seek_levels X s2 pat_bids = Inr (Some bids, s3)"
      and 4: "seek_levels X s3 pat_asks = Inr (Some asks, s4)"
    by (auto simp: binance_walk_def Let_def split: sum.splits prod.splits option.splits)
  have s1: "buf s1 = json \<and> pos s1 \<le> length (buf s1)"
    by (rule seek_inside [of "scanner_new json" pat_last_update_id]) (use 1 in \<open>auto simp: scanner_new_def\<close>)
  then have "buf s2 = json" "pos s2 \<le> length (buf s2)"
    using 2 read_u64_forward [of s1] by (auto simp: advances_def split: option.splits)
  with seek_levels_buf [OF _ 3] seek_levels_bound [OF 3] seek_levels_bound [OF 4] assms(2) show ?thesis by simp
qed

lemma seek_levels_at:
  assumes "rest s = junk @ (c # c' # needle) @ enc_array ps @ t" and "c \<noteq> c'" and "no_pair c c' junk"
    and "list_all2 wire_level ps ls" and "length (buf s) < 2 ^ 32"
  shows "\<exists>s' junk'. seek_levels X s (c # c' # needle) = Inr (Some (take DEPTH (filter nonzero ls)), s')
    \<and> buf s' = buf s \<and> rest s' = junk' @ t \<and> list_all wire_byte junk'"
proof -
  let ?s1 = "advance (length junk + length needle + 2) s"
  have "seek X s (c # c' # needle) = Inr (Some (), ?s1)"
    using seek_at [of s junk c c' needle "enc_array ps @ t"] assms(1-3) by simp
  moreover have "rest ?s1 = enc_array ps @ t" using assms(1) by simp
  then obtain k where "k \<le> length (enc_array ps)"
    and "read_raw_levels X DEPTH ?s1 = (Some (take DEPTH (filter nonzero ls)), advance k ?s1)"
    using read_raw_levels_at [of ?s1 ps t ls DEPTH] assms(4,5) by auto
  moreover have "list_all wire_byte (drop k (enc_array ps))"
    using enc_array_bytes [OF assms(4)] by (auto simp: list_all_iff dest: in_set_dropD)
  moreover have "rest (advance k ?s1) = drop k (enc_array ps) @ t"
    using \<open>rest ?s1 = enc_array ps @ t\<close> \<open>k \<le> length (enc_array ps)\<close>
    by (simp only: rest_advance drop_append) simp
  ultimately show ?thesis
    by (intro exI [of _ "advance k ?s1"] exI [of _ "drop k (enc_array ps)"]) (simp add: seek_levels_def)
qed

end

text \<open>A frame of the depth stream, with any texts for the levels and anything behind the asks.\<close>

definition binance_frame ::
    "nat \<Rightarrow> (bytes \<times> bytes) list \<Rightarrow> (bytes \<times> bytes) list \<Rightarrow> bytes \<Rightarrow> bytes" where
  "binance_frame n bs as t =
     ascii ''{'' @ pat_last_update_id @ show_nat n @ ascii '','' @ pat_bids @ enc_array bs
     @ ascii '','' @ pat_asks @ enc_array as @ t"

context external_crates
begin

lemma binance_walk_frame:
  assumes "n < 2 ^ 64" and "list_all2 wire_level bs bids" and "list_all2 wire_level as asks"
    and "length (binance_frame n bs as t) < 2 ^ 32"
  shows "binance_walk X (binance_frame n bs as t)
    = Inr (Some (of_nat n, take DEPTH (filter nonzero bids), take DEPTH (filter nonzero asks)))"
proof -
  let ?json = "binance_frame n bs as t"
  let ?asks = "ascii '','' @ pat_asks @ enc_array as @ t"
  let ?bids = "ascii '','' @ pat_bids @ enc_array bs @ ?asks"
  define s1 where "s1 = advance (length (ascii ''{'' @ pat_last_update_id)) (scanner_new ?json)"
  have r0: "rest (scanner_new ?json) = ascii ''{'' @ pat_last_update_id @ show_nat n @ ?bids"
    by (simp add: scanner_new_def rest_def binance_frame_def)
  have 1: "seek X (scanner_new ?json) pat_last_update_id = Inr (Some (), s1)"
    using r0 seek_at [of "scanner_new ?json" "ascii ''{''" b_quote 108 "ascii ''astUpdateId\":''"]
    by (simp add: pat_last_update_id_def ascii_def s1_def)
  have r1: "rest s1 = show_nat n @ ?bids" "buf s1 = ?json"
    using r0 by (simp_all add: s1_def pat_last_update_id_def ascii_def scanner_new_def)
  define s2 where "s2 = advance (length (show_nat n)) s1"
  have "\<exists>u. ?bids = b_comma # u" by (simp add: ascii_def)
  then obtain u where "?bids = b_comma # u" by blast
  moreover have "\<not> is_digit b_comma" by (simp add: is_digit_def del: digit_test)
  ultimately have 2: "read_u64 s1 = (of_nat n, s2)"
    using read_u64_at [of s1 n b_comma u] r1(1) assms(1) by (simp add: s2_def)
  have r2: "rest s2 = ascii '','' @ (b_quote # 98 # ascii ''ids\":'') @ enc_array bs @ ?asks"
    "length (buf s2) < 2 ^ 32"
    using r1 assms(4) by (simp_all add: s2_def pat_bids_def ascii_def)
  obtain s3 j where 3: "seek_levels X s2 pat_bids = Inr (Some (take DEPTH (filter nonzero bids)), s3)"
    "buf s3 = buf s2" "rest s3 = j @ ?asks" "list_all wire_byte j"
    using seek_levels_at [OF r2(1) _ _ assms(2) r2(2)] by (auto simp: pat_bids_def ascii_def)
  have r3: "rest s3 = (j @ ascii '','') @ (b_quote # 97 # ascii ''sks\":'') @ enc_array as @ t"
    using 3(3) by (simp add: pat_asks_def ascii_def)
  have "no_pair b_quote 97 (j @ ascii '','')"
    using 3(4) by (intro no_pair_absent)
      (auto simp: list_all_iff wire_byte_def ascii_def is_digit_def simp del: digit_test)
  from seek_levels_at [OF r3 _ this assms(3)] 3(2) r2(2)
  obtain s4 where 4: "seek_levels X s3 pat_asks = Inr (Some (take DEPTH (filter nonzero asks)), s4)"
    by (auto simp: pat_asks_def ascii_def)
  show ?thesis by (simp add: binance_walk_def 1 2 3(1) 4)
qed

text \<open>Both ways a frame can go, with the state the handler leaves.\<close>

lemma binance_process_text_eq:
  assumes "slot_inv s" and "metrics_ok m"
  obtains (rejected)
      "binance_process_text X t0 d text h s m = Inr (h, s, bump_errors m, Continue)"
      and "case binance_walk X text of Inr (Some (seq, _)) \<Rightarrow> 0 < seq \<and> 0 < last_seq h \<and> seq \<le> last_seq h | _ \<Rightarrow> True"
  | (accepted) seq bids asks s' m'
      where "binance_walk X text = Inr (Some (seq, bids, asks))"
        and "\<not> (0 < seq \<and> 0 < last_seq h \<and> seq \<le> last_seq h)"
        and "binance_process_text X t0 d text h s m
          = Inr (h\<lparr>last_seq := seq\<rparr>, s', m', if is_abandoned s then Shutdown else Continue)"
        and "if is_abandoned s then s' = s else slot_inv s' \<and> refcount s' = refcount s \<and> slot_unread s'
          = Some \<lparr>ob_exchange_id = BINANCE_ID, ob_bids = bids, ob_asks = asks, ob_decode_start = t0\<rparr>"
        and "em_messages m' = em_messages m + 1" and "em_errors m' = em_errors m"
        and "metrics_ok m' \<and> em_name m' = em_name m \<and> em_connected m' = em_connected m
          \<and> em_reconnections m' = em_reconnections m"
proof -
  obtain w where w: "binance_walk X text = Inr w" by (rule binance_walk_returns)
  show thesis
  proof (cases w)
    case None
    with w show thesis by (intro rejected) (simp_all add: binance_process_text_def)
  next
    case (Some f)
    obtain seq bids asks where f: "f = (seq, bids, asks)" by (cases f)
    let ?book = "\<lparr>ob_exchange_id = BINANCE_ID, ob_bids = bids, ob_asks = asks, ob_decode_start = t0\<rparr>"
    show thesis
    proof (cases "0 < seq \<and> 0 < last_seq h \<and> seq \<le> last_seq h")
      case True
      with w Some f show thesis by (intro rejected) (simp_all add: binance_process_text_def)
    next
      case False
      obtain m1 where m1: "record_decode m d = Inr m1" "metrics_ok m1" "em_name m1 = em_name m"
        "em_connected m1 = em_connected m" "em_reconnections m1 = em_reconnections m"
        "em_errors m1 = em_errors m" "em_messages m1 = em_messages m"
        by (rule record_decode_ok [OF assms(2)])
      from assms(1) show thesis
      proof (cases rule: try_send_book_cases [where b = ?book])
        case abandoned
        with w Some f False m1 show thesis
          by (intro accepted [of seq bids asks s "bump_messages m1"])
            (simp_all add: binance_process_text_def bump_messages_def metrics_ok_def)
      next
        case (sent s')
        with sent w Some f False m1 show thesis
          by (intro accepted [of seq bids asks s' "bump_messages m1"])
            (auto simp: binance_process_text_def bump_messages_def metrics_ok_def)
      qed
    qed
  qed
qed

end

definition short_frame :: "bytes \<Rightarrow> bool" where
  "short_frame text \<longleftrightarrow> length text < 2 ^ 32"

lemma binance_contract:
  assumes X: "external_crates X"
  shows "handler_contract (binance_process_text X) BINANCE_ID short_frame"
proof
  fix t0 d frame h s m h' s' m' r
  assume p: "binance_process_text X t0 d frame h s m = Inr (h', s', m', r)" and "short_frame frame"
    and s: "slot_inv s" "unread_ok BINANCE_ID s" and m: "metrics_ok m"
  then have len: "length frame < 2 ^ 32" by (simp add: short_frame_def)
  show "slot_inv s' \<and> unread_ok BINANCE_ID s' \<and> metrics_ok m' \<and> em_name m' = em_name m
      \<and> em_connected m' = em_connected m \<and> em_reconnections m' = em_reconnections m \<and> refcount s' = refcount s"
  proof (cases rule: external_crates.binance_process_text_eq [OF X s(1) m, of t0 d frame h, case_names rejected accepted])
    case rejected
    with p s m show ?thesis by (auto simp: bump_errors_def metrics_ok_def)
  next
    case (accepted seq bids asks s1 m1)
    with p s external_crates.binance_walk_levels [OF X accepted(1) len] show ?thesis
      by (auto simp: unread_ok_def book_ok_def split: if_splits)
  qed
next
  fix t0 d frame h s m h' s' m'
  assume p: "binance_process_text X t0 d frame h s m = Inr (h', s', m', Shutdown)" and s: "slot_inv s"
  then show "is_abandoned s"
    by (auto simp: binance_process_text_def Let_def split: sum.splits prod.splits option.splits if_splits
        dest: try_send_book_False)
qed

interpretation binance: handler_contract "binance_process_text reference_crates" BINANCE_ID short_frame
  by (rule binance_contract [OF reference.external_crates_axioms])

section \<open>Properties\<close>

text \<open>
  C16. The walker reads what a depth frame says: for every sequence number and every list of levels, in
  any decimal texts that denote them, it returns the number and the first \<open>DEPTH\<close> levels of non-zero
  quantity of each side, whatever follows the asks.
\<close>

theorem binance_frame_roundtrip:
  assumes "external_crates X" and "n < 2 ^ 64"
    and "list_all2 wire_level bs bids" and "list_all2 wire_level as asks"
    and "length (binance_frame n bs as t) < 2 ^ 32"
  shows "binance_walk X (binance_frame n bs as t)
    = Inr (Some (of_nat n, take DEPTH (filter nonzero bids), take DEPTH (filter nonzero asks)))"
  by (rule external_crates.binance_walk_frame [OF assms])

definition one_level :: raw_level where
  "one_level = \<lparr>rl_price = FixedPoint 150000000, rl_amount = FixedPoint 200000000\<rparr>"

definition frame_160 :: bytes where
  "frame_160 = binance_frame 160 [(ascii ''1.5'', ascii ''2'')] [] (ascii ''}'')"

lemma length_frame_160: "length frame_160 < 2 ^ 32"
  by (simp add: frame_160_def binance_frame_def enc_array_def enc_level_def pat_last_update_id_def
      pat_bids_def pat_asks_def show_nat.simps)

lemma frame_160_levels: "list_all2 wire_level [(ascii ''1.5'', ascii ''2'')] [one_level]"
  by (simp add: wire_level_def one_level_def parse_eval del: digit_test)

theorem binance_frame_roundtrip_witness:
  "binance_walk reference_crates frame_160 = Inr (Some (160, [one_level], []))"
  using binance_frame_roundtrip [OF reference.external_crates_axioms _ frame_160_levels list.rel_intros(1),
      of 160 "ascii ''}''"] length_frame_160
  by (simp add: frame_160_def nonzero_def one_level_def DEPTH_def)

text \<open>
  C24. Processing a frame never panics, whatever its bytes, and the handler's state machine is this: an
  unparsable frame, or one whose number is not above the last one (both non-zero), only counts an
  error; any other is accepted, its number remembered, its book published unless the consumer is
  gone, and only then shutdown is asked for.
\<close>

theorem binance_process_text_total:
  assumes "external_crates X" and "slot_inv s" and "metrics_ok m"
  shows "\<exists>w h' s' m' r. binance_walk X text = Inr w
    \<and> binance_process_text X t0 d text h s m = Inr (h', s', m', r)
    \<and> (if (case w of None \<Rightarrow> True | Some (seq, _) \<Rightarrow> 0 < seq \<and> 0 < last_seq h \<and> seq \<le> last_seq h)
       then h' = h \<and> s' = s \<and> m' = bump_errors m \<and> r = Continue
       else last_seq h' = fst (the w) \<and> em_messages m' = em_messages m + 1 \<and> em_errors m' = em_errors m
         \<and> (if is_abandoned s then s' = s \<and> r = Shutdown
            else r = Continue \<and> slot_unread s' = Some \<lparr>ob_exchange_id = BINANCE_ID,
              ob_bids = fst (snd (the w)), ob_asks = snd (snd (the w)), ob_decode_start = t0\<rparr>))"
proof (cases rule: external_crates.binance_process_text_eq [OF assms, of t0 d "text" h, case_names rejected accepted])
  case rejected
  obtain w where "binance_walk X text = Inr w" by (rule external_crates.binance_walk_returns [OF assms(1)])
  with rejected show ?thesis by (auto split: option.splits)
next
  case (accepted seq bids asks s' m')
  then show ?thesis by auto
qed

theorem binance_process_text_total_witness:
  "\<exists>h' s' m'. binance_process_text reference_crates 3 4 (ascii ''not a frame'') binance_new slot_new
      (exchange_metrics_new (ascii ''binance'')) = Inr (h', s', m', Continue)"
proof -
  have "slot_inv (slot_new :: order_book slot)" by (simp add: slot_inv_def slot_new_simps)
  moreover have "metrics_ok (exchange_metrics_new (ascii ''binance''))"
    by (simp add: metrics_ok_def exchange_metrics_new_def)
  moreover have "\<not> is_abandoned (slot_new :: order_book slot)" by (simp add: is_abandoned_def slot_new_def)
  ultimately show ?thesis
    using binance_process_text_total [OF reference.external_crates_axioms, of slot_new
        "exchange_metrics_new (ascii ''binance'')" "ascii ''not a frame''" 3 4 binance_new]
    by (auto split: if_splits)
qed

end
