(* ===== verification/Bitstamp.thy ===== *)
theory Bitstamp
  imports Binance
begin

text \<open>
  \<open>src/exchange/bitstamp.rs\<close>: the byte walker of the \<open>order_book\<close> channel and the handler that tells
  data, confirmation and error events apart. A data frame is recognised by its \<open>microtimestamp\<close>; only
  frames without one are searched for their \<open>event\<close>.
\<close>

section \<open>The walker\<close>

definition pat_microtimestamp :: bytes where
  "pat_microtimestamp = ascii ''\"microtimestamp\":''"

definition pat_event :: bytes where
  "pat_event = ascii ''\"event\":''"

definition pat_message :: bytes where
  "pat_message = ascii ''\"message\":''"

text \<open>\<open>str::parse::<u64>\<close>: digits behind an optional plus sign.\<close>

fun parse_u64_digits :: "u64 \<Rightarrow> bytes \<Rightarrow> u64 option" where
  "parse_u64_digits v [] = Some v"
| "parse_u64_digits v (b # bs) =
     (let d = b - b_zero in
      if 9 < d then None
      else Option.bind (checked_mul v 10) (\<lambda>m. Option.bind (checked_add m (ucast d)) (\<lambda>w. parse_u64_digits w bs)))"

definition parse_u64 :: "bytes \<Rightarrow> u64 option" where
  "parse_u64 s =
     (case s of
        [] \<Rightarrow> None
      | b # bs \<Rightarrow> if b = 43 \<and> bs \<noteq> [] then parse_u64_digits 0 bs else parse_u64_digits 0 s)"

definition read_micro :: "scanner \<Rightarrow> u64 \<times> scanner" where
  "read_micro s =
     (let (r, s) = read_string s in
      (case Option.bind r parse_u64 of Some v \<Rightarrow> v | None \<Rightarrow> 0, s))"

definition bitstamp_walk ::
    "crates \<Rightarrow> bytes \<Rightarrow> (bytes \<times> u64 \<times> raw_level list \<times> raw_level list) option run" where
  "bitstamp_walk X json =
     (case seek X (scanner_new json) pat_microtimestamp of
        Inl p \<Rightarrow> Inl p
      | Inr (found, s) \<Rightarrow>
     (let has_data = (found \<noteq> None);
          (micro, s) = (if has_data then read_micro s else (0, s\<lparr>pos := 0\<rparr>)) in
      case read_optional_raw_levels X DEPTH s pat_bids of
        Inl p \<Rightarrow> Inl p
      | Inr (None, _) \<Rightarrow> Inr None
      | Inr (Some bids, s) \<Rightarrow>
     (case read_optional_raw_levels X DEPTH s pat_asks of
        Inl p \<Rightarrow> Inl p
      | Inr (None, _) \<Rightarrow> Inr None
      | Inr (Some asks, s) \<Rightarrow>
          if has_data then Inr (Some (ascii ''data'', micro, bids, asks))
          else
            (case seek X (s\<lparr>pos := 0\<rparr>) pat_event of
               Inl p \<Rightarrow> Inl p
             | Inr (None, _) \<Rightarrow> Inr None
             | Inr (Some _, s) \<Rightarrow> Inr (map_option (\<lambda>event. (event, micro, bids, asks)) (fst (read_string s)))))))"

definition bitstamp_parse :: "crates \<Rightarrow> instant \<Rightarrow> bytes \<Rightarrow> order_book option run" where
  "bitstamp_parse X now json =
     map_sum id (\<lambda>r. Option.bind r (\<lambda>(event, _, bids, asks).
       if event \<noteq> ascii ''data'' then None
       else Some \<lparr>ob_exchange_id = BITSTAMP_ID, ob_bids = bids, ob_asks = asks, ob_decode_start = now\<rparr>))
       (bitstamp_walk X json)"

section \<open>The handler\<close>

record bitstamp_handler =
  last_micro :: u64

definition bitstamp_new :: bitstamp_handler where
  "bitstamp_new = \<lparr>last_micro = 0\<rparr>"

definition bitstamp_ws_url :: "bitstamp_handler \<Rightarrow> bytes \<Rightarrow> bytes" where
  "bitstamp_ws_url h symbol = ascii ''wss://ws.bitstamp.net''"

definition bitstamp_subscribe_message :: "bitstamp_handler \<Rightarrow> bytes \<Rightarrow> bytes option" where
  "bitstamp_subscribe_message h symbol =
     Some (ascii ''{\"event\":\"bts:subscribe\",\"data\":{\"channel\":\"order_book_'' @ symbol @ ascii ''\"}}'')"

definition bitstamp_on_connected :: "bitstamp_handler \<Rightarrow> bitstamp_handler" where
  "bitstamp_on_connected h = h\<lparr>last_micro := 0\<rparr>"

text \<open>The \<open>"data"\<close> arm.\<close>

definition bitstamp_data ::
    "instant \<Rightarrow> duration \<Rightarrow> u64 \<Rightarrow> raw_level list \<Rightarrow> raw_level list \<Rightarrow> bitstamp_handler \<Rightarrow> order_book slot
      \<Rightarrow> exchange_metrics \<Rightarrow> bitstamp_handler handled run" where
  "bitstamp_data t0 elapsed micro bids asks h sender m =
     (if 0 < micro \<and> 0 < last_micro h \<and> micro \<le> last_micro h then Inr (h, sender, bump_errors m, Continue)
      else
        (let h = h\<lparr>last_micro := micro\<rparr>;
             book = \<lparr>ob_exchange_id = BITSTAMP_ID, ob_bids = bids, ob_asks = asks, ob_decode_start = t0\<rparr> in
         case record_decode m elapsed of
           Inl p \<Rightarrow> Inl p
         | Inr m \<Rightarrow>
             (let m = bump_messages m in
              case try_send_book sender book of
                Inl p \<Rightarrow> Inl p
              | Inr (ok, sender) \<Rightarrow> Inr (h, sender, m, if ok then Continue else Shutdown))))"

text \<open>The message of an error event is only logged, but it is looked up in the frame.\<close>

definition bitstamp_process_text ::
    "crates \<Rightarrow> instant \<Rightarrow> duration \<Rightarrow> bytes \<Rightarrow> bitstamp_handler \<Rightarrow> order_book slot \<Rightarrow> exchange_metrics
      \<Rightarrow> bitstamp_handler handled run" where
  "bitstamp_process_text X t0 elapsed text h sender m =
     (case bitstamp_walk X text of
        Inl p \<Rightarrow> Inl p
      | Inr None \<Rightarrow> Inr (h, sender, bump_errors m, Continue)
      | Inr (Some (event, micro, bids, asks)) \<Rightarrow>
          if event = ascii ''data'' then bitstamp_data t0 elapsed micro bids asks h sender m
          else if event = ascii ''bts:subscription_succeeded'' then Inr (h, sender, m, Continue)
          else if event = ascii ''bts:error'' then
            (case extract_string X text pat_message of
               Inl p \<Rightarrow> Inl p
             | Inr _ \<Rightarrow> Inr (h, sender, bump_errors m, Reconnect))
          else Inr (h, sender, m, Continue))"

definition bitstamp_ws :: "crates \<Rightarrow> bitstamp_handler ws_handler" where
  "bitstamp_ws X = \<lparr>ws_name = ascii ''bitstamp'', ws_url = bitstamp_ws_url,
     subscribe_message = bitstamp_subscribe_message, on_connected = bitstamp_on_connected,
     process_text = bitstamp_process_text X\<rparr>"

section \<open>Reading a timestamp\<close>

lemma parse_u64_digits_eq:
  "parse_u64_digits v bs = (if all_digits bs then fit (dec_acc (unat v) bs) else None)"
proof (induction bs arbitrary: v)
  case (Cons b bs)
  show ?case
  proof (cases "is_digit b")
    case True
    have "Option.bind (fit (unat v * 10 + digit_val b)) (\<lambda>w. parse_u64_digits w bs)
        = (if all_digits bs then map_option id (fit (dec_acc (unat v * 10 + digit_val b) bs)) else None)"
      by (rule push_digits) (simp add: Cons.IH option.map_id)
    with True show ?thesis by (simp add: Let_def push_digit option.map_id)
  qed simp
qed simp

lemma parse_u64_show: "n < 2 ^ 64 \<Longrightarrow> parse_u64 (show_nat n) = Some (of_nat n)"
proof -
  assume n: "n < 2 ^ 64"
  obtain d ds where d: "show_nat n = d # ds" by (cases "show_nat n") simp_all
  then have "d \<noteq> 43" using show_nat_digits [of n] by (auto simp: is_digit_def simp del: digit_test)
  with d have "parse_u64 (show_nat n) = parse_u64_digits 0 (show_nat n)" by (simp add: parse_u64_def)
  also have "\<dots> = Some (of_nat n)"
    using n by (simp add: parse_u64_digits_eq show_nat_digits show_nat_val fit_def)
  finally show ?thesis .
qed

section \<open>The walker on a data frame\<close>

text \<open>
  A data frame as the exchange sends it: \<open>pre\<close> ends before the timestamp's key, \<open>t\<close> follows the asks.
\<close>

definition bitstamp_frame ::
    "bytes \<Rightarrow> nat \<Rightarrow> (bytes \<times> bytes) list \<Rightarrow> (bytes \<times> bytes) list \<Rightarrow> bytes \<Rightarrow> bytes" where
  "bitstamp_frame pre n bs as t =
     pre @ pat_microtimestamp @ ascii ''\"'' @ show_nat n @ ascii ''\",'' @ pat_bids @ enc_array bs
     @ ascii '','' @ pat_asks @ enc_array as @ t"

lemma raw_string_plain:
  "list_all (\<lambda>b. b \<noteq> b_quote \<and> b \<noteq> b_backslash) p \<Longrightarrow> raw_string (p @ b_quote # t) = Some p"
  by (induction p) auto

lemma read_optional_found:
  "seek_levels X s f = Inr (Some ls, s') \<Longrightarrow> read_optional_raw_levels X DEPTH s f = Inr (Some ls, s')"
  by (auto simp: seek_levels_def read_optional_raw_levels_def split: sum.splits prod.splits option.splits)

lemma read_micro_at:
  assumes "rest s = b_quote # show_nat n @ b_quote # t" and "valid_utf8 (buf s)" and "n < 2 ^ 64"
  shows "read_micro s = (of_nat n, advance (Suc (Suc (length (show_nat n)))) s)"
proof -
  have "raw_string (show_nat n @ b_quote # t) = Some (show_nat n)"
    using show_nat_digits [of n] by (intro raw_string_plain) (auto simp: list_all_iff dest: digit_neq)
  then have "read_string s = (Some (show_nat n), advance (Suc (Suc (length (show_nat n)))) s)"
    using read_string_fst [of s "[]" "show_nat n @ b_quote # t"] assms(1,2) by (simp add: prod_eq_iff)
  then show ?thesis by (simp add: read_micro_def parse_u64_show [OF assms(3)])
qed

context external_crates
begin

lemma bitstamp_walk_frame:
  assumes "no_pair b_quote 109 pre" and "n < 2 ^ 64"
    and "list_all2 wire_level bs bids" and "list_all2 wire_level as asks"
    and "length (bitstamp_frame pre n bs as t) < 2 ^ 32" and "valid_utf8 (bitstamp_frame pre n bs as t)"
  shows "bitstamp_walk X (bitstamp_frame pre n bs as t)
    = Inr (Some (ascii ''data'', of_nat n, take DEPTH (filter nonzero bids), take DEPTH (filter nonzero asks)))"
proof -
  let ?json = "bitstamp_frame pre n bs as t"
  let ?asks = "ascii '','' @ pat_asks @ enc_array as @ t"
  let ?bids = "ascii '','' @ pat_bids @ enc_array bs @ ?asks"
  define s1 where "s1 = advance (length pre + length pat_microtimestamp) (scanner_new ?json)"
  define s2 where "s2 = advance (Suc (Suc (length (show_nat n)))) s1"
  have r0: "rest (scanner_new ?json) = pre @ pat_microtimestamp @ b_quote # show_nat n @ b_quote # ?bids"
    by (simp add: scanner_new_def rest_def bitstamp_frame_def ascii_def)
  have 1: "seek X (scanner_new ?json) pat_microtimestamp = Inr (Some (), s1)"
    using r0 assms(1) seek_at [of "scanner_new ?json" pre b_quote 109 "ascii ''icrotimestamp\":''"]
    by (simp add: pat_microtimestamp_def ascii_def s1_def)
  have r1: "rest s1 = b_quote # show_nat n @ b_quote # ?bids" "buf s1 = ?json"
    using r0 by (simp_all add: s1_def scanner_new_def)
  then have 2: "read_micro s1 = (of_nat n, s2)"
    using read_micro_at [OF r1(1)] assms(2,6) by (simp add: s2_def)
  have r2: "rest s2 = ascii '','' @ (b_quote # 98 # ascii ''ids\":'') @ enc_array bs @ ?asks"
    "length (buf s2) < 2 ^ 32"
    using r1 assms(5) by (simp_all add: s2_def pat_bids_def ascii_def)
  obtain s3 j where 3: "seek_levels X s2 pat_bids = Inr (Some (take DEPTH (filter nonzero bids)), s3)"
    "buf s3 = buf s2" "rest s3 = j @ ?asks" "list_all wire_byte j"
    using seek_levels_at [OF r2(1) _ _ assms(3) r2(2)] by (auto simp: pat_bids_def ascii_def)
  have r3: "rest s3 = (j @ ascii '','') @ (b_quote # 97 # ascii ''sks\":'') @ enc_array as @ t"
    using 3(3) by (simp add: pat_asks_def ascii_def)
  have "no_pair b_quote 97 (j @ ascii '','')"
    using 3(4) by (intro no_pair_absent)
      (auto simp: list_all_iff wire_byte_def ascii_def is_digit_def simp del: digit_test)
  from seek_levels_at [OF r3 _ this assms(4)] 3(2) r2(2)
  obtain s4 where 4: "seek_levels X s3 pat_asks = Inr (Some (take DEPTH (filter nonzero asks)), s4)"
    by (auto simp: pat_asks_def ascii_def)
  show ?thesis
    by (simp add: bitstamp_walk_def 1 2 read_optional_found [OF 3(1)] read_optional_found [OF 4])
qed

section \<open>When the walker panics\<close>

lemma read_optional_inside:
  assumes "pos s \<le> length (buf s)"
  obtains r s' where "read_optional_raw_levels X DEPTH s needle = Inr (r, s')" and "buf s' = buf s"
    and "pos s' \<le> length (buf s')"
proof (cases rule: seek_inside [OF assms, of needle])
  case (1 u s1)
  obtain l s2 where l: "read_raw_levels X DEPTH s1 = (l, s2)" by fastforce
  from read_raw_levels_forward [OF this] 1 l show thesis
    by (cases u) (auto simp: read_optional_raw_levels_def advances_def intro: that)
qed

lemma bitstamp_walk_returns:
  assumes "json = [] \<or> last json \<noteq> b_backslash"
  obtains r where "bitstamp_walk X json = Inr r"
proof -
  let ?s = "scanner_new json"
  have "pos ?s \<le> length (buf ?s)" "buf ?s = json" by (simp_all add: scanner_new_def)
  then obtain u s1 where 1: "seek X ?s pat_microtimestamp = Inr (u, s1)" "buf s1 = json" "pos s1 \<le> length json"
    by (metis seek_inside)
  obtain micro s2 where 2: "(if u \<noteq> None then read_micro s1 else (0, s1\<lparr>pos := 0\<rparr>)) = (micro, s2)"
    by fastforce
  then have p2: "pos s2 \<le> length (buf s2)" "buf s2 = json"
    using 1 assms read_string_inside [of s1] by (auto simp: read_micro_def split: prod.splits if_splits)
  obtain b s3 where 3: "read_optional_raw_levels X DEPTH s2 pat_bids = Inr (b, s3)" "pos s3 \<le> length (buf s3)" "buf s3 = json"
    using p2 by (metis read_optional_inside)
  obtain c s4 where 4: "read_optional_raw_levels X DEPTH s3 pat_asks = Inr (c, s4)" "buf s4 = json"
    using 3(2,3) by (metis read_optional_inside)
  obtain e s5 where 5: "seek X (s4\<lparr>pos := 0\<rparr>) pat_event = Inr (e, s5)"
    by (rule seek_inside [of "s4\<lparr>pos := 0\<rparr>" pat_event]) auto
  have "\<exists>r. bitstamp_walk X json = Inr r"
    unfolding bitstamp_walk_def using 1(1) 2 3(1) 4(1) 5
    by (cases b; cases c; cases e) simp_all
  with that show thesis by blast
qed

lemma extract_string_returns: "\<exists>r. extract_string X json pattern = Inr r"
proof -
  obtain u s1 where "seek X (scanner_new json) pattern = Inr (u, s1)"
    by (rule seek_inside [of "scanner_new json" pattern]) (auto simp: scanner_new_def)
  then show ?thesis by (cases u) (simp_all add: extract_string_def)
qed

lemma bitstamp_walk_levels:
  assumes "bitstamp_walk X json = Inr (Some (event, micro, bids, asks))" and "length json < 2 ^ 32"
  shows "length bids \<le> DEPTH \<and> length asks \<le> DEPTH \<and> list_all nonzero bids \<and> list_all nonzero asks"
proof -
  have bound: "length ls \<le> DEPTH \<and> list_all nonzero ls \<and> buf s' = buf s"
    if "read_optional_raw_levels X DEPTH s f = Inr (Some ls, s')" "length (buf s) < 2 ^ 32" for s f ls s'
  proof -
    from that(1) consider "seek X s f = Inr (None, s')" "ls = []"
      | u s1 where "seek X s f = Inr (Some u, s1)" "read_raw_levels X DEPTH s1 = (Some ls, s')"
      by (auto simp: read_optional_raw_levels_def split: sum.splits prod.splits option.splits)
    then show ?thesis
    proof cases
      case 1
      then show ?thesis by (simp add: seek_buf)
    next
      case (2 u s1)
      with that(2) have "length (buf s1) < 2 ^ 32" by (simp add: seek_buf)
      with 2 read_raw_levels_bound [OF this 2(2)] read_raw_levels_forward [OF 2(2)] show ?thesis
        by (simp add: advances_def seek_buf)
    qed
  qed
  from assms(1) obtain u s1 s2 s3 s4
    where 1: "seek X (scanner_new json) pat_microtimestamp = Inr (u, s1)"
      and 2: "(if u \<noteq> None then read_micro s1 else (0, s1\<lparr>pos := 0\<rparr>)) = (micro, s2)"
      and 3: "read_optional_raw_levels X DEPTH s2 pat_bids = Inr (Some bids, s3)"
      and 4: "read_optional_raw_levels X DEPTH s3 pat_asks = Inr (Some asks, s4)"
    by (auto simp: bitstamp_walk_def Let_def split: sum.splits prod.splits option.splits if_splits)
  from 1 have "buf s1 = json" by (simp add: seek_buf scanner_new_def)
  moreover have "pos s1 \<le> length (buf s1)"
    by (rule seek_inside [of "scanner_new json" pat_microtimestamp]) (use 1 in \<open>auto simp: scanner_new_def\<close>)
  ultimately have "buf s2 = json"
    using 2 read_string_buf [of s1] by (auto simp: read_micro_def split: prod.splits if_splits)
  with bound [OF 3] bound [OF 4] assms(2) show ?thesis by simp
qed

end

section \<open>The handler\<close>

text \<open>The data arm, like the Binance handler: reject a stale timestamp, else publish.\<close>

lemma bitstamp_data_eq:
  assumes "slot_inv s" and "metrics_ok m"
  obtains (rejected) "0 < micro \<and> 0 < last_micro h \<and> micro \<le> last_micro h"
      and "bitstamp_data t0 d micro bids asks h s m = Inr (h, s, bump_errors m, Continue)"
  | (accepted) s' m'
      where "\<not> (0 < micro \<and> 0 < last_micro h \<and> micro \<le> last_micro h)"
        and "bitstamp_data t0 d micro bids asks h s m
          = Inr (h\<lparr>last_micro := micro\<rparr>, s', m', if is_abandoned s then Shutdown else Continue)"
        and "if is_abandoned s then s' = s else slot_inv s' \<and> refcount s' = refcount s \<and> slot_unread s'
          = Some \<lparr>ob_exchange_id = BITSTAMP_ID, ob_bids = bids, ob_asks = asks, ob_decode_start = t0\<rparr>"
        and "em_messages m' = em_messages m + 1" and "em_errors m' = em_errors m"
        and "metrics_ok m' \<and> em_name m' = em_name m \<and> em_connected m' = em_connected m
          \<and> em_reconnections m' = em_reconnections m"
proof (cases "0 < micro \<and> 0 < last_micro h \<and> micro \<le> last_micro h")
  case True
  then show thesis by (intro rejected) (simp_all add: bitstamp_data_def)
next
  case False
  let ?book = "\<lparr>ob_exchange_id = BITSTAMP_ID, ob_bids = bids, ob_asks = asks, ob_decode_start = t0\<rparr>"
  obtain m1 where m1: "record_decode m d = Inr m1" "metrics_ok m1" "em_name m1 = em_name m"
    "em_connected m1 = em_connected m" "em_reconnections m1 = em_reconnections m"
    "em_errors m1 = em_errors m" "em_messages m1 = em_messages m"
    by (rule record_decode_ok [OF assms(2)])
  from assms(1) show thesis
  proof (cases rule: try_send_book_cases [where b = ?book])
    case abandoned
    with False m1 show thesis
      by (intro accepted [of s "bump_messages m1"])
        (auto simp: bitstamp_data_def bump_messages_def metrics_ok_def)
  next
    case (sent s')
    with False m1 show thesis
      by (intro accepted [of s' "bump_messages m1"])
        (auto simp: bitstamp_data_def bump_messages_def metrics_ok_def)
  qed
qed

text \<open>An event that is not data leaves the handler and the slot alone.\<close>

lemma bitstamp_other_event:
  assumes "bitstamp_process_text X t0 d frame h s m = Inr (h', s', m', r)"
    and "\<forall>micro bids asks. bitstamp_walk X frame \<noteq> Inr (Some (ascii ''data'', micro, bids, asks))"
  shows "h' = h \<and> s' = s \<and> m' \<in> {m, bump_errors m} \<and> r \<noteq> Shutdown"
  using assms by (auto simp: bitstamp_process_text_def split: sum.splits option.splits if_splits)

lemma bitstamp_data_event:
  "bitstamp_walk X frame = Inr (Some (ascii ''data'', micro, bids, asks)) \<Longrightarrow>
   bitstamp_process_text X t0 d frame h s m = bitstamp_data t0 d micro bids asks h s m"
  by (simp add: bitstamp_process_text_def)

lemma bitstamp_contract:
  assumes X: "external_crates X"
  shows "handler_contract (bitstamp_process_text X) BITSTAMP_ID short_frame"
proof
  fix t0 d frame h s m h' s' m' r
  assume p: "bitstamp_process_text X t0 d frame h s m = Inr (h', s', m', r)" and "short_frame frame"
    and s: "slot_inv s" "unread_ok BITSTAMP_ID s" and m: "metrics_ok m"
  then have len: "length frame < 2 ^ 32" by (simp add: short_frame_def)
  show "slot_inv s' \<and> unread_ok BITSTAMP_ID s' \<and> metrics_ok m' \<and> em_name m' = em_name m
      \<and> em_connected m' = em_connected m \<and> em_reconnections m' = em_reconnections m \<and> refcount s' = refcount s"
  proof (cases "\<exists>micro bids asks. bitstamp_walk X frame = Inr (Some (ascii ''data'', micro, bids, asks))")
    case False
    with bitstamp_other_event [OF p] s m show ?thesis by (auto simp: bump_errors_def metrics_ok_def)
  next
    case True
    then obtain micro bids asks where w: "bitstamp_walk X frame = Inr (Some (ascii ''data'', micro, bids, asks))"
      by blast
    note levels = external_crates.bitstamp_walk_levels [OF X w len]
    note p = p [unfolded bitstamp_data_event [OF w]]
    show ?thesis
    proof (cases rule: bitstamp_data_eq [OF s(1) m, of micro h t0 d bids asks, case_names rejected accepted])
      case rejected
      with p s m show ?thesis by (auto simp: bump_errors_def metrics_ok_def)
    next
      case (accepted s1 m1)
      with p s levels show ?thesis by (auto simp: unread_ok_def book_ok_def split: if_splits)
    qed
  qed
next
  fix t0 d frame h s m h' s' m'
  assume "bitstamp_process_text X t0 d frame h s m = Inr (h', s', m', Shutdown)" and "slot_inv s"
  then show "is_abandoned s"
    by (auto simp: bitstamp_process_text_def bitstamp_data_def Let_def dest: try_send_book_False
        split: sum.splits prod.splits option.splits if_splits)
qed

interpretation bitstamp: handler_contract "bitstamp_process_text reference_crates" BITSTAMP_ID short_frame
  by (rule bitstamp_contract [OF reference.external_crates_axioms])

section \<open>Properties\<close>

text \<open>
  C17. The walker reads what a data frame says: for every timestamp and every list of levels, in any
  decimal texts that denote them, it returns the data event with the timestamp and the first \<open>DEPTH\<close>
  levels of non-zero quantity of each side, whatever stands before the timestamp's key (short of its
  first two bytes) and after the asks.
\<close>

theorem bitstamp_frame_roundtrip:
  assumes "external_crates X" and "no_pair b_quote 109 pre" and "n < 2 ^ 64"
    and "list_all2 wire_level bs bids" and "list_all2 wire_level as asks"
    and "length (bitstamp_frame pre n bs as t) < 2 ^ 32" and "valid_utf8 (bitstamp_frame pre n bs as t)"
  shows "bitstamp_walk X (bitstamp_frame pre n bs as t)
    = Inr (Some (ascii ''data'', of_nat n, take DEPTH (filter nonzero bids), take DEPTH (filter nonzero asks)))"
  by (rule external_crates.bitstamp_walk_frame [OF assms])

definition data_frame :: bytes where
  "data_frame = bitstamp_frame (ascii ''{\"data\":{\"timestamp\":\"17\",'') 1700
     [(ascii ''1.5'', ascii ''2'')] [] (ascii ''},\"event\":\"data\"}'')"

lemma data_frame_ok: "length data_frame < 2 ^ 32" "valid_utf8 data_frame"
  by (simp_all add: data_frame_def bitstamp_frame_def enc_array_def enc_level_def pat_microtimestamp_def
      pat_bids_def pat_asks_def show_nat.simps ascii_def valid_utf8.simps(2))

lemma data_frame_levels:
  "no_pair b_quote 109 (ascii ''{\"data\":{\"timestamp\":\"17\",'')"
  "list_all2 wire_level [(ascii ''1.5'', ascii ''2'')] [one_level]"
  "take DEPTH (filter nonzero [one_level]) = [one_level]"
  by (simp_all add: wire_level_def one_level_def nonzero_def DEPTH_def parse_eval del: digit_test)

theorem bitstamp_frame_roundtrip_witness:
  "bitstamp_walk reference_crates data_frame = Inr (Some (ascii ''data'', 1700, [one_level], []))"
  using bitstamp_frame_roundtrip [OF reference.external_crates_axioms data_frame_levels(1) _
      data_frame_levels(2) list.rel_intros(1) data_frame_ok [unfolded data_frame_def]] data_frame_levels(3)
  by (simp add: data_frame_def)

text \<open>
  C25. On a frame that does not end in a backslash processing never panics, and each event has its
  effect: an unparsable frame or a stale timestamp counts an error, newer data is published (shutdown
  only if the consumer is gone), an error event counts an error and asks for a reconnect, any other
  event is ignored.
\<close>

theorem bitstamp_process_text_total:
  assumes "external_crates X" and "slot_inv s" and "metrics_ok m"
    and "text = [] \<or> last text \<noteq> b_backslash"
  shows "\<exists>w h' s' m' r. bitstamp_walk X text = Inr w
    \<and> bitstamp_process_text X t0 d text h s m = Inr (h', s', m', r)
    \<and> (case w of
         None \<Rightarrow> h' = h \<and> s' = s \<and> m' = bump_errors m \<and> r = Continue
       | Some (event, micro, bids, asks) \<Rightarrow>
           if event = ascii ''data'' then
             if 0 < micro \<and> 0 < last_micro h \<and> micro \<le> last_micro h
             then h' = h \<and> s' = s \<and> m' = bump_errors m \<and> r = Continue
             else last_micro h' = micro \<and> em_messages m' = em_messages m + 1 \<and> em_errors m' = em_errors m
               \<and> (if is_abandoned s then s' = s \<and> r = Shutdown
                  else r = Continue \<and> slot_unread s' = Some \<lparr>ob_exchange_id = BITSTAMP_ID,
                    ob_bids = bids, ob_asks = asks, ob_decode_start = t0\<rparr>)
           else h' = h \<and> s' = s \<and>
             (if event = ascii ''bts:error'' then m' = bump_errors m \<and> r = Reconnect
              else m' = m \<and> r = Continue))"
proof -
  obtain w where w: "bitstamp_walk X text = Inr w"
    by (rule external_crates.bitstamp_walk_returns [OF assms(1,4)])
  obtain e where e: "extract_string X text pat_message = Inr e"
    using external_crates.extract_string_returns [OF assms(1)] by blast
  show ?thesis
  proof (cases "\<exists>micro bids asks. w = Some (ascii ''data'', micro, bids, asks)")
    case True
    then obtain micro bids asks where d: "w = Some (ascii ''data'', micro, bids, asks)" by blast
    show ?thesis
      using bitstamp_data_event [OF w [unfolded d], of t0 d h s m] w d
      by (cases rule: bitstamp_data_eq [OF assms(2,3), of micro h t0 d bids asks, case_names rejected accepted]) auto
  next
    case False
    have "ascii ''bts:subscription_succeeded'' \<noteq> ascii ''data''" "ascii ''bts:error'' \<noteq> ascii ''data''"
      "ascii ''bts:subscription_succeeded'' \<noteq> ascii ''bts:error''" by (simp_all add: ascii_def)
    with False w e show ?thesis
      by (cases w) (auto simp: bitstamp_process_text_def)
  qed
qed

theorem bitstamp_process_text_total_witness:
  "\<exists>h' s' m'. bitstamp_process_text reference_crates 3 4 data_frame bitstamp_new slot_new
      (exchange_metrics_new (ascii ''bitstamp'')) = Inr (h', s', m', Continue)"
proof -
  have "slot_inv (slot_new :: order_book slot)" by (simp add: slot_inv_def slot_new_simps)
  moreover have "metrics_ok (exchange_metrics_new (ascii ''bitstamp''))"
    by (simp add: metrics_ok_def exchange_metrics_new_def)
  moreover have "\<not> is_abandoned (slot_new :: order_book slot)" by (simp add: is_abandoned_def slot_new_def)
  moreover have "last data_frame \<noteq> b_backslash"
    by (simp add: data_frame_def bitstamp_frame_def ascii_def)
  moreover have "bitstamp_walk reference_crates data_frame = Inr (Some (ascii ''data'', 1700, [one_level], []))"
    using external_crates.bitstamp_walk_frame [OF reference.external_crates_axioms data_frame_levels(1) _
        data_frame_levels(2) list.rel_intros(1) data_frame_ok [unfolded data_frame_def]] data_frame_levels(3)
    by (simp add: data_frame_def)
  moreover have "last_micro bitstamp_new = 0" by (simp add: bitstamp_new_def)
  ultimately show ?thesis
    using bitstamp_process_text_total [OF reference.external_crates_axioms, of slot_new
        "exchange_metrics_new (ascii ''bitstamp'')" data_frame 3 4 bitstamp_new]
    by auto
qed

text \<open>
  C26. The frame \<open>"microtimestamp":"\\<close> (the key, an opening quote and a backslash) panics the adapter:
  the escape is skipped to one past the end, and the next key search slices the buffer there.
\<close>

theorem bitstamp_panics_on_trailing_backslash:
  assumes "external_crates X"
  shows "bitstamp_process_text X t0 d (pat_microtimestamp @ [b_quote, b_backslash]) h s m = Inl SliceStartIndex"
proof -
  let ?json = "pat_microtimestamp @ [b_quote, b_backslash]"
  define s1 where "s1 = advance (length pat_microtimestamp) (scanner_new ?json)"
  have 1: "seek X (scanner_new ?json) pat_microtimestamp = Inr (Some (), s1)"
    using external_crates.seek_at [OF assms, of "scanner_new ?json" "[]" b_quote 109 "ascii ''icrotimestamp\":''"]
    by (simp add: pat_microtimestamp_def ascii_def s1_def scanner_new_def rest_def)
  have "snd (read_string s1) = s1\<lparr>pos := length ?json + 1\<rparr>"
    by (simp add: s1_def scanner_new_def read_string_def skip_ws.simps read_string_loop.simps Let_def
        pat_microtimestamp_def ascii_def is_ws_def advance_def)
  then obtain v where "read_micro s1 = (v, s1\<lparr>pos := length ?json + 1\<rparr>)"
    by (cases "read_string s1") (auto simp: read_micro_def)
  moreover have "seek X (s1\<lparr>pos := length ?json + 1\<rparr>) pat_bids = Inl SliceStartIndex"
    by (simp add: seek_def s1_def scanner_new_def)
  ultimately have "bitstamp_walk X ?json = Inl SliceStartIndex"
    by (simp add: bitstamp_walk_def 1 read_optional_raw_levels_def)
  then show ?thesis by (simp add: bitstamp_process_text_def)
qed

theorem bitstamp_panics_on_trailing_backslash_witness:
  "bitstamp_process_text reference_crates 0 0 (pat_microtimestamp @ [b_quote, b_backslash]) bitstamp_new slot_new
     (exchange_metrics_new (ascii ''bitstamp'')) = Inl SliceStartIndex"
  by (rule bitstamp_panics_on_trailing_backslash [OF reference.external_crates_axioms])

end
