(* ===== verification/Adapters.thy ===== *)
theory Adapters
  imports WsLoop Bitstamp
begin

text \<open>
  The reconnection loop of \<open>src/exchange/mod.rs\<close> run with the two handlers: what holds of either
  adapter in every state its environment can bring it to. Both handlers satisfy the contract of
  \<open>handler_contract\<close>, from which the invariant follows.
\<close>

definition binance_start :: "binance_handler ws_state" where
  "binance_start = ws_init binance_new slot_new (exchange_metrics_new (ascii ''binance''))"

definition bitstamp_start :: "bitstamp_handler ws_state" where
  "bitstamp_start = ws_init bitstamp_new slot_new (exchange_metrics_new (ascii ''bitstamp''))"

lemma ws_inv_start:
  "ws_inv eid (ws_init h slot_new (exchange_metrics_new name))"
  by (simp add: ws_inv_def ws_init_def slot_inv_def unread_ok_def slot_unread_def slot_new_simps
      metrics_ok_def exchange_metrics_new_def backoff_ok_initial)

lemma binance_run_inv:
  assumes "external_crates X" and "rand_below rand" and "list_all (input_ok short_frame) inputs"
  shows "ws_inv BINANCE_ID (ws_run (binance_ws X) rand symbol binance_start inputs)"
  unfolding binance_start_def
  by (rule handler_contract.ws_run_inv [OF binance_contract [OF assms(1)] _ assms(2,3) ws_inv_start])
    (simp add: binance_ws_def)

lemma bitstamp_run_inv:
  assumes "external_crates X" and "rand_below rand" and "list_all (input_ok short_frame) inputs"
  shows "ws_inv BITSTAMP_ID (ws_run (bitstamp_ws X) rand symbol bitstamp_start inputs)"
  unfolding bitstamp_start_def
  by (rule handler_contract.ws_run_inv [OF bitstamp_contract [OF assms(1)] _ assms(2,3) ws_inv_start])
    (simp add: bitstamp_ws_def)

text \<open>The Binance adapter only steps out of its loop by returning.\<close>

lemma binance_never_panics:
  assumes "external_crates X" and "rand_below rand" and "list_all (input_ok short_frame) inputs"
  shows "\<forall>p. pc (ws_run (binance_ws X) rand symbol binance_start inputs) \<noteq> Panicked p"
  using assms(3)
proof (induction inputs rule: rev_induct)
  case Nil
  then show ?case by (simp add: ws_run_def binance_start_def ws_init_def)
next
  case (snoc i inputs)
  let ?c = "ws_run (binance_ws X) rand symbol binance_start inputs"
  from snoc have IH: "\<forall>p. pc ?c \<noteq> Panicked p" and inv: "ws_inv BINANCE_ID ?c"
    using binance_run_inv [OF assms(1,2)] by simp_all
  then have s: "slot_inv (sender ?c)" "metrics_ok (em ?c)" by (simp_all add: ws_inv_def)
  have "\<forall>p. pc (on_text (binance_ws X) t0 d t ?c) \<noteq> Panicked p" for t0 d t
  proof (cases rule: external_crates.binance_process_text_eq [OF assms(1) s, of t0 d t "handler ?c", case_names rejected accepted])
    case rejected
    with IH show ?thesis by (simp add: on_text_def binance_ws_def)
  next
    case (accepted seq bids asks s' m')
    with IH show ?thesis by (simp add: on_text_def binance_ws_def)
  qed
  with IH have "\<forall>p. pc (ws_step (binance_ws X) rand symbol ?c i) \<noteq> Panicked p"
    by (cases i) (auto simp: ws_step.simps on_connect_def Let_def split: ws_pc.split option.split)
  then show ?case by (simp add: ws_run_def)
qed

section \<open>Cancellation\<close>

text \<open>
  What a cancelled environment answers at each wait: \<open>is_cancelled\<close> is true, and the cancellation
  branch of a \<open>select!\<close> is taken; a connection attempt (at most \<open>CONNECT_TIMEOUT\<close>) and a subscription
  that are under way still end as they do.
\<close>

fun cancelled_answer :: "ws_pc \<Rightarrow> ws_input \<Rightarrow> bool" where
  "cancelled_answer AtTop i \<longleftrightarrow> i = Check True"
| "cancelled_answer Connecting i \<longleftrightarrow> i = ConnectTimeout \<or> i = ConnectOk \<or> i = ConnectErr"
| "cancelled_answer Subscribing i \<longleftrightarrow> i = SendOk \<or> i = SendErr"
| "cancelled_answer Reading i \<longleftrightarrow> i = Cancelled"
| "cancelled_answer AtRetry i \<longleftrightarrow> i = Check True"
| "cancelled_answer Drawing i \<longleftrightarrow> (\<exists>g. i = Draw g)"
| "cancelled_answer (Sleeping _) i \<longleftrightarrow> i = Cancelled"
| "cancelled_answer _ i \<longleftrightarrow> True"

fun cancelled_inputs :: "'h ws_handler \<Rightarrow> (u64 \<Rightarrow> nat \<Rightarrow> u64) \<Rightarrow> bytes \<Rightarrow> 'h ws_state \<Rightarrow> ws_input list \<Rightarrow> bool" where
  "cancelled_inputs H rand symbol c [] \<longleftrightarrow> True"
| "cancelled_inputs H rand symbol c (i # is) \<longleftrightarrow>
     cancelled_answer (pc c) i \<and> cancelled_inputs H rand symbol (ws_step H rand symbol c i) is"

text \<open>How many more answers the loop waits for at most.\<close>

fun waits_left :: "ws_pc \<Rightarrow> nat" where
  "waits_left Connecting = 3"
| "waits_left Subscribing = 2"
| "waits_left Drawing = 2"
| "waits_left Returned = 0"
| "waits_left (Panicked _) = 0"
| "waits_left _ = 1"

definition gauge_ok :: "'h ws_state \<Rightarrow> bool" where
  "gauge_ok c \<longleftrightarrow> (\<forall>p. pc c \<noteq> Panicked p) \<and> (em_connected (em c) \<longrightarrow> pc c = Subscribing \<or> pc c = Reading)"

lemma cancelled_step:
  assumes "cancelled_answer (pc c) i" and "gauge_ok c"
  shows "waits_left (pc (ws_step H rand symbol c i)) \<le> waits_left (pc c) - 1 \<and> gauge_ok (ws_step H rand symbol c i)"
  using assms
  by (cases "pc c"; cases i)
    (auto simp: ws_step.simps gauge_ok_def on_connect_def set_connected_def bump_errors_def Let_def
      split: option.splits)

lemma cancelled_run:
  "cancelled_inputs H rand symbol c is \<Longrightarrow> gauge_ok c \<Longrightarrow>
    waits_left (pc (ws_run H rand symbol c is)) \<le> waits_left (pc c) - length is
    \<and> gauge_ok (ws_run H rand symbol c is)"
proof (induction "is" arbitrary: c)
  case (Cons i "is")
  let ?c = "ws_step H rand symbol c i"
  have "waits_left (pc ?c) \<le> waits_left (pc c) - 1" "gauge_ok ?c"
    using cancelled_step [of c i H rand symbol] Cons.prems by simp_all
  moreover from this Cons.IH [of ?c] Cons.prems
  have "waits_left (pc (ws_run H rand symbol ?c is)) \<le> waits_left (pc ?c) - length is
      \<and> gauge_ok (ws_run H rand symbol ?c is)" by simp
  ultimately show ?case by (auto simp: ws_run_def)
qed (simp add: ws_run_def)

section \<open>Properties\<close>

text \<open>
  C18. Whatever the connection attempts, frames, cancellations and actions of the merger, each adapter
  keeps its slot in order with only admissible books of its own exchange in it (at most \<open>DEPTH\<close> levels
  a side, none empty), waits between 500 and 29999 milliseconds, reports itself connected exactly
  while it subscribes or reads, and the Binance adapter never panics.
\<close>

theorem adapters_safe:
  assumes "external_crates X" and "rand_below rand" and "list_all (input_ok short_frame) inputs"
  shows "ws_inv BINANCE_ID (ws_run (binance_ws X) rand symbol binance_start inputs)
    \<and> ws_inv BITSTAMP_ID (ws_run (bitstamp_ws X) rand symbol bitstamp_start inputs)
    \<and> (\<forall>p. pc (ws_run (binance_ws X) rand symbol binance_start inputs) \<noteq> Panicked p)"
  using binance_run_inv [OF assms] bitstamp_run_inv [OF assms] binance_never_panics [OF assms] by blast

theorem adapters_safe_witness:
  "ws_inv BINANCE_ID (ws_run (binance_ws reference_crates) (\<lambda>n g. 0) (ascii ''ethbtc'') binance_start
     [Check False, ConnectOk, TextFrame 5 1 (ascii ''{}''), ConsumerRecv, StreamEnd, Check False, Draw 0])"
proof -
  have "rand_below (\<lambda>n g. 0)" by (simp add: rand_below_def)
  moreover have "list_all (input_ok short_frame)
      [Check False, ConnectOk, TextFrame 5 1 (ascii ''{}''), ConsumerRecv, StreamEnd, Check False, Draw 0]"
    by (simp add: input_ok_def short_frame_def)
  ultimately show ?thesis using adapters_safe [OF reference.external_crates_axioms] by blast
qed

text \<open>
  A new connection starts afresh: the backoff is reset, the sequence tracking cleared so that the
  first frame cannot be taken for a stale one, and Binance reads at once while Bitstamp subscribes
  to the symbol's channel first.
\<close>

theorem connecting_resets:
  assumes "pc c = Connecting" and "pc c' = Connecting"
  shows "(let d = ws_step (binance_ws X) rand symbol c ConnectOk in
      pc d = Reading \<and> last_seq (handler d) = 0 \<and> backoff_ms d = INITIAL_BACKOFF_MS \<and> em_connected (em d))
    \<and> (let d = ws_step (bitstamp_ws X) rand symbol c' ConnectOk in
      pc d = Subscribing \<and> last_micro (handler d) = 0 \<and> backoff_ms d = INITIAL_BACKOFF_MS \<and> em_connected (em d))"
  using assms
  by (simp add: ws_step.simps on_connect_def binance_ws_def bitstamp_ws_def Let_def set_connected_def
      binance_on_connected_def bitstamp_on_connected_def bitstamp_subscribe_message_def)

theorem connecting_resets_witness:
  "last_seq (handler (ws_step (binance_ws reference_crates) (\<lambda>n g. 0) []
      (binance_start\<lparr>pc := Connecting, handler := \<lparr>last_seq = 9\<rparr>\<rparr>) ConnectOk)) = 0"
  using connecting_resets [of "binance_start\<lparr>pc := Connecting, handler := \<lparr>last_seq = 9\<rparr>\<rparr>"
      "bitstamp_start\<lparr>pc := Connecting\<rparr>" reference_crates "\<lambda>n g. 0" "[]"]
  by (simp add: Let_def)

text \<open>
  C37. When the merger is gone, the adapter stops on its next accepted frame but leaves its connection
  gauge up: \<open>HandleResult::Shutdown\<close> returns without resetting \<open>connected\<close>, unlike every other way
  out of the read loop, so \<open>/health\<close> keeps counting a feed that no longer runs.
\<close>

theorem shutdown_leaves_gauge_up:
  assumes "external_crates X"
  shows "let c = ws_run (binance_ws X) rand symbol binance_start
      [Check False, ConnectOk, ConsumerDrop, TextFrame 5 1 frame_160]
    in pc c = Returned \<and> em_connected (em c)"
proof -
  let ?c0 = "ws_run (binance_ws X) rand symbol binance_start [Check False, ConnectOk, ConsumerDrop]"
  have c0: "pc ?c0 = Reading" "em_connected (em ?c0)" "is_abandoned (sender ?c0)" "last_seq (handler ?c0) = 0"
    "slot_inv (sender ?c0)" "metrics_ok (em ?c0)"
    by (simp_all add: ws_run_def ws_step.simps binance_start_def ws_init_def on_connect_def binance_ws_def Let_def
        set_connected_def consumer_drop_def drop_half_def slot_new_def is_abandoned_def binance_on_connected_def
        slot_inv_def roles_ok_def mid_def metrics_ok_def exchange_metrics_new_def)
  have walk: "\<exists>bids asks. binance_walk X frame_160 = Inr (Some (160, bids, asks))"
    using external_crates.binance_walk_frame [OF assms _ frame_160_levels list.rel_intros(1) length_frame_160 [unfolded frame_160_def]]
    by (simp add: frame_160_def)
  have "pc (on_text (binance_ws X) 5 1 frame_160 ?c0) = Returned \<and> em_connected (em (on_text (binance_ws X) 5 1 frame_160 ?c0))"
  proof (cases rule: external_crates.binance_process_text_eq [OF assms c0(5,6), of 5 1 frame_160 "handler ?c0", case_names rejected accepted])
    case rejected
    with walk c0(4) show ?thesis by auto
  next
    case (accepted seq bids asks s' m')
    with c0 show ?thesis by (simp add: on_text_def binance_ws_def)
  qed
  moreover have "ws_run (binance_ws X) rand symbol binance_start [Check False, ConnectOk, ConsumerDrop, TextFrame 5 1 frame_160]
      = ws_step (binance_ws X) rand symbol ?c0 (TextFrame 5 1 frame_160)" by (simp add: ws_run_def)
  ultimately show ?thesis using c0(1) by (simp add: ws_step.simps)
qed

theorem shutdown_leaves_gauge_up_witness:
  "let c = ws_run (binance_ws reference_crates) (\<lambda>n g. 0) [] binance_start
      [Check False, ConnectOk, ConsumerDrop, TextFrame 5 1 frame_160]
    in pc c = Returned \<and> em_connected (em c)"
  by (rule shutdown_leaves_gauge_up [OF reference.external_crates_axioms])



end
