(* ===== verification/Merger.thy ===== *)
theory Merger
  imports BookTypes "HOL-Library.Product_Lexorder" "HOL-Library.Multiset"
begin

text \<open>
  \<open>src/merger.rs\<close>, the data path: \<open>BookStore\<close> (the latest book per exchange), eviction, and the
  k-way merge of the pre-sorted sides into the \<open>DEPTH\<close> best levels of a \<open>Summary\<close>.

  The merge keeps one cursor per slice and takes, \<open>n\<close> times, the best head; \<open>merge_loop\<close> is that
  loop. Its specification is a stable sort of all levels, in the locale \<open>level_order\<close>: it asks that
  \<open>cmp\<close> is the strict order of some key, and is interpreted for both comparators of \<open>merge\<close>.
\<close>

section \<open>Comparators\<close>

datatype ordering = Less | Equal | Greater

definition is_lt :: "ordering \<Rightarrow> bool" where
  "is_lt c \<longleftrightarrow> c = Less"

definition cmp_fp :: "fixed_point \<Rightarrow> fixed_point \<Rightarrow> ordering" where
  "cmp_fp a b = (if a < b then Less else if a = b then Equal else Greater)"

definition ordering_then :: "ordering \<Rightarrow> ordering \<Rightarrow> ordering" where
  "ordering_then a b = (case a of Equal \<Rightarrow> b | _ \<Rightarrow> a)"

type_synonym comparator = "raw_level \<Rightarrow> raw_level \<Rightarrow> ordering"

text \<open>The two closures of \<open>merge\<close>: best price first, then the larger amount.\<close>

definition cmp_bids :: comparator where
  "cmp_bids a b = ordering_then (cmp_fp (rl_price b) (rl_price a)) (cmp_fp (rl_amount b) (rl_amount a))"

definition cmp_asks :: comparator where
  "cmp_asks a b = ordering_then (cmp_fp (rl_price a) (rl_price b)) (cmp_fp (rl_amount b) (rl_amount a))"

section \<open>The book store\<close>

definition MAX_EXCHANGES :: nat where
  "MAX_EXCHANGES = length EXCHANGES"

text \<open>Five seconds, in nanoseconds.\<close>

definition STALE_THRESHOLD :: duration where
  "STALE_THRESHOLD = 5 * 10 ^ 9"

record book_store =
  books :: "order_book option list"

definition store_new :: book_store where
  "store_new = \<lparr>books = replicate MAX_EXCHANGES None\<rparr>"

definition store_insert :: "book_store \<Rightarrow> order_book \<Rightarrow> book_store" where
  "store_insert st book =
     (let idx = unat (ob_exchange_id book) in
      if idx < length (books st) then st\<lparr>books := (books st)[idx := Some book]\<rparr> else st)"

definition store_iter :: "book_store \<Rightarrow> order_book list" where
  "store_iter st = List.map_filter (\<lambda>b. b) (books st)"

text \<open>\<open>Instant - Instant\<close> saturates at zero.\<close>

definition evict_slot :: "instant \<Rightarrow> duration \<Rightarrow> order_book option \<Rightarrow> order_book option" where
  "evict_slot now threshold slot =
     (case slot of
        Some book \<Rightarrow> (let age = now - ob_decode_start book in if threshold < age then None else Some book)
      | None \<Rightarrow> None)"

definition evict_stale :: "instant \<Rightarrow> duration \<Rightarrow> book_store \<Rightarrow> book_store" where
  "evict_stale now threshold st = st\<lparr>books := map (evict_slot now threshold) (books st)\<rparr>"

section \<open>The k-way merge\<close>

text \<open>
  The inner loop over \<open>i\<close>: \<open>best\<close> is the index of the best head so far. \<open>cursors\<close> is an array of
  \<open>MAX_EXCHANGES\<close> entries, so reading \<open>cursors[i]\<close> panics past it; the other subscripts are guarded
  by the cursor tests.
\<close>

abbreviation head_at :: "tagged_slice list \<Rightarrow> nat list \<Rightarrow> nat \<Rightarrow> raw_level" where
  "head_at slices cursors i \<equiv> ts_levels (slices ! i) ! (cursors ! i)"

fun pick_best ::
    "comparator \<Rightarrow> tagged_slice list \<Rightarrow> nat list \<Rightarrow> nat option \<Rightarrow> nat list \<Rightarrow> nat option run" where
  "pick_best cmp slices cursors best [] = Inr best"
| "pick_best cmp slices cursors best (i # is) =
     (if length cursors \<le> i then Inl IndexOutOfBounds
      else if cursors ! i < length (ts_levels (slices ! i)) then
        pick_best cmp slices cursors
          (Some (case best of
              None \<Rightarrow> i
            | Some b \<Rightarrow> if is_lt (cmp (head_at slices cursors i) (head_at slices cursors b)) then i else b)) is
      else pick_best cmp slices cursors best is)"

definition stamp :: "exchange_id \<Rightarrow> raw_level \<Rightarrow> level" where
  "stamp eid r = \<lparr>lv_price = rl_price r, lv_amount = rl_amount r, lv_exchange_id = eid\<rparr>"

fun merge_loop ::
    "crates \<Rightarrow> comparator \<Rightarrow> tagged_slice list \<Rightarrow> nat list \<Rightarrow> level list \<Rightarrow> nat \<Rightarrow> level list run" where
  "merge_loop X cmp slices cursors result 0 = Inr result"
| "merge_loop X cmp slices cursors result (Suc n) =
     (case pick_best cmp slices cursors None [0..<length slices] of
        Inl p \<Rightarrow> Inl p
      | Inr None \<Rightarrow> Inr result
      | Inr (Some i) \<Rightarrow>
          (case push_level X DEPTH result (stamp (ts_exchange_id (slices ! i)) (head_at slices cursors i)) of
             None \<Rightarrow> Inr result
           | Some result' \<Rightarrow>
               merge_loop X cmp slices (cursors[i := cursors ! i + 1]) result' n))"

definition merge_top_n :: "crates \<Rightarrow> tagged_slice list \<Rightarrow> comparator \<Rightarrow> nat \<Rightarrow> level list run" where
  "merge_top_n X slices cmp n = merge_loop X cmp slices (replicate MAX_EXCHANGES 0) [] n"

section \<open>The summary\<close>

text \<open>\<open>let _ = slices.try_push(..)\<close>: a slice that does not fit is dropped.\<close>

definition push_or_drop :: "crates \<Rightarrow> tagged_slice list \<Rightarrow> tagged_slice \<Rightarrow> tagged_slice list" where
  "push_or_drop X slices t = (case push_slice X MAX_EXCHANGES slices t of None \<Rightarrow> slices | Some s \<Rightarrow> s)"

fun slices_loop ::
    "crates \<Rightarrow> tagged_slice list \<Rightarrow> tagged_slice list \<Rightarrow> order_book list \<Rightarrow> tagged_slice list \<times> tagged_slice list" where
  "slices_loop X bid_slices ask_slices [] = (bid_slices, ask_slices)"
| "slices_loop X bid_slices ask_slices (book # bs) =
     slices_loop X
       (push_or_drop X bid_slices \<lparr>ts_exchange_id = ob_exchange_id book, ts_levels = ob_bids book\<rparr>)
       (push_or_drop X ask_slices \<lparr>ts_exchange_id = ob_exchange_id book, ts_levels = ob_asks book\<rparr>) bs"

text \<open>
  \<open>as i64\<close> reinterprets the 64 bits and the subtraction wraps (the release profile has no overflow
  checks), so the spread is the word difference.
\<close>

definition spread_of :: "level list \<Rightarrow> level list \<Rightarrow> 64 word" where
  "spread_of asks bids =
     (case (asks, bids) of
        (ask # _, bid # _) \<Rightarrow> raw (lv_price ask) - raw (lv_price bid)
      | _ \<Rightarrow> 0)"

definition merge :: "crates \<Rightarrow> book_store \<Rightarrow> summary run" where
  "merge X st =
     (let (bid_slices, ask_slices) = slices_loop X [] [] (store_iter st) in
      case merge_top_n X bid_slices cmp_bids DEPTH of
        Inl p \<Rightarrow> Inl p
      | Inr bids \<Rightarrow>
          (case merge_top_n X ask_slices cmp_asks DEPTH of
             Inl p \<Rightarrow> Inl p
           | Inr asks \<Rightarrow> Inr \<lparr>sm_spread_raw = spread_of asks bids, sm_bids = bids, sm_asks = asks\<rparr>))"

section \<open>A stable sort takes its first minimum\<close>

lemma insort_behind:
  "\<forall>a\<in>set as. f x < f a \<Longrightarrow> foldr (insort_key f) as (x # ys) = x # foldr (insort_key f) as ys"
  by (induction as) (auto simp: not_le)

lemma sort_key_first_min:
  assumes "\<forall>a\<in>set as. f x < f a" and "\<forall>b\<in>set bs. f x \<le> f b"
  shows "sort_key f (as @ x # bs) = x # sort_key f (as @ bs)"
proof -
  have "\<forall>b\<in>set (sort_key f bs). f x \<le> f b" using assms(2) by simp
  then have "insort_key f x (sort_key f bs) = x # sort_key f bs" by (cases "sort_key f bs") simp_all
  then show ?thesis using insort_behind [OF assms(1)] by (simp add: sort_key_def)
qed

lemma concat_split_nth:
  "i < length qs \<Longrightarrow> concat (qs[i := q]) = concat (take i qs) @ q @ concat (drop (Suc i) qs)"
  by (simp add: upd_conv_take_nth_drop)

lemma mset_concat_step:
  "i < length qs \<Longrightarrow> qs ! i = x # q \<Longrightarrow> mset (concat qs) = add_mset x (mset (concat (qs[i := q])))"
  using concat_split_nth [of i qs "qs ! i"] concat_split_nth [of i qs q] list_update_id [of qs i] by simp

text \<open>The abstract queues: what every cursor has left.\<close>

definition queues :: "tagged_slice list \<Rightarrow> nat list \<Rightarrow> level list list" where
  "queues slices cursors =
     map (\<lambda>i. map (stamp (ts_exchange_id (slices ! i))) (drop (cursors ! i) (ts_levels (slices ! i))))
       [0..<length slices]"

definition first_best :: "('a \<Rightarrow> 'k::linorder) \<Rightarrow> 'a list list \<Rightarrow> nat \<Rightarrow> bool" where
  "first_best f qs i \<longleftrightarrow> i < length qs \<and> qs ! i \<noteq> []
     \<and> (\<forall>j<length qs. qs ! j \<noteq> [] \<longrightarrow> f (hd (qs ! i)) \<le> f (hd (qs ! j)))
     \<and> (\<forall>j<i. qs ! j \<noteq> [] \<longrightarrow> f (hd (qs ! i)) < f (hd (qs ! j)))"

lemma sorted_hd_le: "sorted (map f xs) \<Longrightarrow> x \<in> set xs \<Longrightarrow> f (hd xs) \<le> f x"
  by (cases xs) auto

lemma sort_first_best:
  assumes "first_best f qs i" and "\<forall>q\<in>set qs. sorted (map f q)"
  shows "sort_key f (concat qs) = hd (qs ! i) # sort_key f (concat (qs[i := tl (qs ! i)]))"
proof -
  let ?x = "hd (qs ! i)"
  from assms(1) have i: "i < length qs" and ne: "qs ! i \<noteq> []" by (simp_all add: first_best_def)
  have le: "f ?x \<le> f y" if "q \<in> set qs" "y \<in> set q" for q y
  proof -
    from that(1) obtain j where "j < length qs" "q = qs ! j" by (auto simp: in_set_conv_nth)
    with that assms sorted_hd_le [of f q y] show ?thesis by (fastforce simp: first_best_def)
  qed
  have less: "\<forall>a\<in>set (concat (take i qs)). f ?x < f a"
  proof
    fix a assume "a \<in> set (concat (take i qs))"
    then obtain q where "q \<in> set (take i qs)" "a \<in> set q" by auto
    then obtain j where "j < i" "a \<in> set (qs ! j)" using i by (auto simp: in_set_conv_nth [of q])
    with assms i sorted_hd_le [of f "qs ! j" a] show "f ?x < f a"
      unfolding first_best_def by (metis (no_types, lifting) empty_iff list.set(1) nth_mem order.strict_trans2 order_less_trans)
  qed
  have ge: "\<forall>b\<in>set (tl (qs ! i) @ concat (drop (Suc i) qs)). f ?x \<le> f b"
    using le le [OF nth_mem [OF i]] by (auto dest: in_set_dropD list.set_sel(2) [OF ne])
  have "concat qs = concat (take i qs) @ ?x # (tl (qs ! i) @ concat (drop (Suc i) qs))"
    using concat_split_nth [OF i, of "qs ! i"] ne by simp
  with sort_key_first_min [OF less ge] concat_split_nth [OF i, of "tl (qs ! i)"] show ?thesis by simp
qed

section \<open>Merging by a key\<close>

text \<open>
  What the merge needs of its comparator: "strictly before" is the strict order of a key. Every
  level of the output is then the head the key ranks first.
\<close>

definition unstamp :: "level \<Rightarrow> raw_level" where
  "unstamp l = \<lparr>rl_price = lv_price l, rl_amount = lv_amount l\<rparr>"

lemma unstamp_stamp [simp]: "unstamp (stamp e r) = r"
  by (simp add: unstamp_def stamp_def)

lemma pick_best_append:
  "pick_best cmp slices cursors best (is @ js)
   = (case pick_best cmp slices cursors best is of Inl p \<Rightarrow> Inl p
      | Inr best' \<Rightarrow> pick_best cmp slices cursors best' js)"
  by (induction "is" arbitrary: best) simp_all

definition all_levels :: "tagged_slice list \<Rightarrow> level list" where
  "all_levels slices = concat (map (\<lambda>t. map (stamp (ts_exchange_id t)) (ts_levels t)) slices)"

lemma length_queues [simp]: "length (queues slices cursors) = length slices"
  by (simp add: queues_def)

lemma queues_nth:
  "i < length slices \<Longrightarrow> queues slices cursors ! i
   = map (stamp (ts_exchange_id (slices ! i))) (drop (cursors ! i) (ts_levels (slices ! i)))"
  by (simp add: queues_def)

lemma queues_head:
  assumes "i < length slices" and "cursors ! i < length (ts_levels (slices ! i))"
  shows "queues slices cursors ! i \<noteq> []"
    and "hd (queues slices cursors ! i) = stamp (ts_exchange_id (slices ! i)) (head_at slices cursors i)"
  using assms by (simp_all add: queues_nth hd_map hd_drop_conv_nth)

lemma queues_Nil_iff:
  "i < length slices \<Longrightarrow> queues slices cursors ! i = [] \<longleftrightarrow> length (ts_levels (slices ! i)) \<le> cursors ! i"
  by (simp add: queues_nth)

lemma queues_step:
  assumes "i < length slices" and "i < length cursors"
  shows "queues slices (cursors[i := Suc (cursors ! i)])
    = (queues slices cursors)[i := tl (queues slices cursors ! i)]"
  by (rule nth_equalityI) (use assms in \<open>auto simp: queues_nth nth_list_update drop_Suc tl_drop simp flip: map_tl\<close>)

lemma queues_start:
  assumes "length slices \<le> k"
  shows "concat (queues slices (replicate k 0)) = all_levels slices"
proof -
  have "queues slices (replicate k 0) = map (\<lambda>t. map (stamp (ts_exchange_id t)) (ts_levels t)) slices"
    by (rule nth_equalityI) (use assms in \<open>simp_all add: queues_nth\<close>)
  then show ?thesis by (simp add: all_levels_def)
qed

locale level_order =
  fixes cmp :: "raw_level \<Rightarrow> raw_level \<Rightarrow> ordering"
    and key :: "raw_level \<Rightarrow> 'k::linorder"
  assumes is_lt_key: "is_lt (cmp a b) \<longleftrightarrow> key a < key b"
begin

abbreviation lkey :: "level \<Rightarrow> 'k" where
  "lkey l \<equiv> key (unstamp l)"

abbreviation ordered :: "tagged_slice list \<Rightarrow> bool" where
  "ordered slices \<equiv> \<forall>t\<in>set slices. sorted (map key (ts_levels t))"

text \<open>After looking at the first \<open>k\<close> slices, \<open>best\<close> is the first best head among them.\<close>

lemma pick_best_prefix:
  assumes "k \<le> length slices" and "k \<le> length cursors"
  shows "\<exists>best. pick_best cmp slices cursors None [0..<k] = Inr best
    \<and> (case best of None \<Rightarrow> \<forall>j<k. queues slices cursors ! j = []
       | Some i \<Rightarrow> first_best lkey (take k (queues slices cursors)) i)"
  using assms
proof (induction k)
  case (Suc k)
  then obtain best where IH: "pick_best cmp slices cursors None [0..<k] = Inr best"
    "case best of None \<Rightarrow> \<forall>j<k. queues slices cursors ! j = []
       | Some i \<Rightarrow> first_best lkey (take k (queues slices cursors)) i" by auto
  note k = Suc.prems
  let ?q = "queues slices cursors"
  let ?alive = "cursors ! k < length (ts_levels (slices ! k))"
  have key_head: "lkey (hd (?q ! j)) = key (head_at slices cursors j)" if "j \<le> k" "?q ! j \<noteq> []" for j
    using that queues_head(2) [of j slices cursors] k queues_Nil_iff [of j slices cursors] by simp
  have alive: "?alive \<longleftrightarrow> ?q ! k \<noteq> []" using queues_Nil_iff [of k slices cursors] k by auto
  have step: "pick_best cmp slices cursors None [0..<Suc k] = Inr (if ?alive then Some (case best of
      None \<Rightarrow> k | Some b \<Rightarrow> if is_lt (cmp (head_at slices cursors k) (head_at slices cursors b)) then k else b) else best)"
    using IH(1) k by (simp add: pick_best_append)
  show ?case
  proof (cases best)
    case None
    with IH(2) step alive k show ?thesis
      by (auto simp: first_best_def less_Suc_eq)
  next
    case (Some b)
    with IH(2) have fb: "first_best lkey (take k ?q) b" by simp
    then have b: "b < k" "?q ! b \<noteq> []" using k by (auto simp: first_best_def)
    then have lt: "is_lt (cmp (head_at slices cursors k) (head_at slices cursors b))
        \<longleftrightarrow> lkey (hd (?q ! k)) < lkey (hd (?q ! b))" if ?alive
      using key_head [of b] key_head [of k] alive that by (simp add: is_lt_key)
    show ?thesis
      using step Some fb lt alive b k
      by (auto simp: first_best_def less_Suc_eq not_less intro: order.strict_trans1 order.strict_trans2
          order.strict_implies_order)
  qed
qed simp


lemma pick_best_first:
  assumes "length slices \<le> length cursors"
  obtains (none) "pick_best cmp slices cursors None [0..<length slices] = Inr None"
      and "concat (queues slices cursors) = []"
  | (some) i where "pick_best cmp slices cursors None [0..<length slices] = Inr (Some i)"
      and "first_best lkey (queues slices cursors) i"
proof -
  obtain best where b: "pick_best cmp slices cursors None [0..<length slices] = Inr best"
    "case best of None \<Rightarrow> \<forall>j<length slices. queues slices cursors ! j = []
       | Some i \<Rightarrow> first_best lkey (take (length slices) (queues slices cursors)) i"
    using pick_best_prefix [of "length slices" slices cursors] assms by auto
  show thesis
  proof (cases best)
    case None
    with b(2) have "concat (queues slices cursors) = []" by (simp add: all_set_conv_all_nth)
    with b None show thesis by (intro none) simp_all
  next
    case (Some i)
    with b show thesis by (intro some [of i]) simp_all
  qed
qed

lemma ordered_queues:
  assumes "ordered slices" and "q \<in> set (queues slices cursors)"
  shows "sorted (map lkey q)"
proof -
  from assms(2) obtain i where i: "i < length slices" and q: "q = queues slices cursors ! i"
    by (auto simp: in_set_conv_nth)
  have "map lkey q = drop (cursors ! i) (map key (ts_levels (slices ! i)))"
    by (simp add: q queues_nth [OF i] drop_map comp_def)
  with assms(1) i show ?thesis by simp
qed

text \<open>
  The loop delivers what a stable sort of everything the cursors have left would put first.
\<close>

lemma merge_loop_sort:
  assumes X: "external_crates X" and "ordered slices" and "length slices \<le> length cursors"
    and "length result + n \<le> DEPTH"
  shows "merge_loop X cmp slices cursors result n
    = Inr (result @ take n (sort_key lkey (concat (queues slices cursors))))"
  using assms(2-)
proof (induction n arbitrary: cursors result)
  case (Suc n)
  from Suc.prems(2) show ?case
  proof (cases rule: pick_best_first)
    case none
    then show ?thesis by (simp del: concat_eq_Nil_conv)
  next
    case (some i)
    let ?qs = "queues slices cursors"
    let ?l = "stamp (ts_exchange_id (slices ! i)) (head_at slices cursors i)"
    from some(2) have i: "i < length slices" "?qs ! i \<noteq> []" by (simp_all add: first_best_def)
    then have head: "hd (?qs ! i) = ?l" using queues_head(2) queues_Nil_iff by (metis not_le)
    have "sort_key lkey (concat ?qs)
        = ?l # sort_key lkey (concat (queues slices (cursors[i := Suc (cursors ! i)])))"
      using sort_first_best [OF some(2)] ordered_queues [OF Suc.prems(1)] head
        queues_step [of i slices cursors] i Suc.prems(2) by simp
    moreover have "push_level X DEPTH result ?l = Some (result @ [?l])"
      using external_crates.axioms(3) [OF X] Suc.prems(3) by (simp add: bounded_push.push_eq)
    ultimately show ?thesis
      using some(1) Suc.IH [of "cursors[i := Suc (cursors ! i)]" "result @ [?l]"] Suc.prems by simp
  qed
qed simp

lemma merge_top_n_sort:
  assumes "external_crates X" and "ordered slices" and "length slices \<le> MAX_EXCHANGES" and "n \<le> DEPTH"
  shows "merge_top_n X slices cmp n = Inr (take n (sort_key lkey (all_levels slices)))"
  unfolding merge_top_n_def using assms by (subst merge_loop_sort) (simp_all add: queues_start)

end

context level_order
begin

text \<open>
  Without any order in the input the loop still conserves levels: what it delivers was there, and it
  stops short of \<open>n\<close> levels only when nothing is left.
\<close>

lemma merge_loop_conserves:
  assumes X: "external_crates X" and "length slices \<le> length cursors" and "length result + n \<le> DEPTH"
  shows "\<exists>out. merge_loop X cmp slices cursors result n = Inr (result @ out)
    \<and> mset out \<subseteq># mset (concat (queues slices cursors))
    \<and> length out = min n (length (concat (queues slices cursors)))"
  using assms(2-)
proof (induction n arbitrary: cursors result)
  case (Suc n)
  from Suc.prems(1) show ?case
  proof (cases rule: pick_best_first)
    case none
    then show ?thesis by (simp del: concat_eq_Nil_conv)
  next
    case (some i)
    let ?qs = "queues slices cursors"
    let ?l = "stamp (ts_exchange_id (slices ! i)) (head_at slices cursors i)"
    let ?cs = "cursors[i := Suc (cursors ! i)]"
    from some(2) have i: "i < length slices" "?qs ! i \<noteq> []" by (simp_all add: first_best_def)
    then have "?qs ! i = ?l # tl (?qs ! i)"
      using queues_head(2) queues_Nil_iff by (metis list.exhaust_sel not_le)
    then have ms: "mset (concat ?qs) = add_mset ?l (mset (concat (queues slices ?cs)))"
      using mset_concat_step [of i ?qs] queues_step [of i slices cursors] i Suc.prems(1) by simp
    have "push_level X DEPTH result ?l = Some (result @ [?l])"
      using external_crates.axioms(3) [OF X] Suc.prems(2) by (simp add: bounded_push.push_eq)
    moreover obtain out where "merge_loop X cmp slices ?cs (result @ [?l]) n = Inr ((result @ [?l]) @ out)"
      and "mset out \<subseteq># mset (concat (queues slices ?cs))"
      and "length out = min n (length (concat (queues slices ?cs)))"
      using Suc.IH [of ?cs "result @ [?l]"] Suc.prems by auto
    moreover have "length (concat ?qs) = Suc (length (concat (queues slices ?cs)))"
      using arg_cong [OF ms, of size] by (simp only: size_mset size_add_mset)
    ultimately show ?thesis using some(1) ms by (intro exI [of _ "?l # out"]) simp
  qed
qed simp

lemma merge_top_n_conserves:
  assumes "external_crates X" and "length slices \<le> MAX_EXCHANGES" and "n \<le> DEPTH"
  shows "\<exists>out. merge_top_n X slices cmp n = Inr out \<and> mset out \<subseteq># mset (all_levels slices)
    \<and> length out = min n (length (all_levels slices))"
  using merge_loop_conserves [of X slices "replicate MAX_EXCHANGES 0" "[]" n] assms
  by (simp add: merge_top_n_def queues_start)

end

text \<open>Both closures of \<open>merge\<close> are such an order: bids by falling price, asks by rising price.\<close>

definition bid_key :: "raw_level \<Rightarrow> int \<times> int" where
  "bid_key r = (- uint (raw (rl_price r)), - uint (raw (rl_amount r)))"

definition ask_key :: "raw_level \<Rightarrow> int \<times> int" where
  "ask_key r = (uint (raw (rl_price r)), - uint (raw (rl_amount r)))"

lemma cmp_fp_uint:
  "cmp_fp a b = (if uint (raw a) < uint (raw b) then Less
     else if uint (raw a) = uint (raw b) then Equal else Greater)"
  by (cases a; cases b) (simp add: cmp_fp_def less_fixed_point_def word_less_def word_uint_eq_iff)

interpretation bid_order: level_order cmp_bids bid_key
  by unfold_locales (auto simp: is_lt_def cmp_bids_def ordering_then_def bid_key_def cmp_fp_uint)

interpretation ask_order: level_order cmp_asks ask_key
  by unfold_locales (auto simp: is_lt_def cmp_asks_def ordering_then_def ask_key_def cmp_fp_uint)

section \<open>Depth pruning\<close>

text \<open>
  No cursor moves past the number of levels delivered, so levels of a slice beyond the first \<open>n\<close> are
  never read: the readers may stop at \<open>DEPTH\<close> levels, whatever the order of the levels.
\<close>

definition trim :: "nat \<Rightarrow> tagged_slice \<Rightarrow> tagged_slice" where
  "trim n t = t\<lparr>ts_levels := take n (ts_levels t)\<rparr>"

lemma trim_simps [simp]:
  "ts_exchange_id (trim n t) = ts_exchange_id t" "ts_levels (trim n t) = take n (ts_levels t)"
  by (simp_all add: trim_def)

lemma pick_best_trim:
  assumes "\<forall>i\<in>set is. i < length slices \<and> cursors ! i < n"
    and "\<forall>b. best = Some b \<longrightarrow> b < length slices \<and> cursors ! b < n"
  shows "pick_best cmp (map (trim n) slices) cursors best is = pick_best cmp slices cursors best is"
  using assms
proof (induction "is" arbitrary: best)
  case (Cons i js)
  then show ?case by (cases best) simp_all
qed simp

lemma pick_best_range:
  "pick_best cmp slices cursors best is = Inr (Some i) \<Longrightarrow> i \<in> set is \<or> best = Some i"
  by (induction "is" arbitrary: best) (auto split: if_splits option.splits)

lemma merge_loop_trim:
  assumes "\<forall>i<length slices. cursors ! i + k \<le> n" and "length slices \<le> length cursors"
  shows "merge_loop X cmp (map (trim n) slices) cursors result k = merge_loop X cmp slices cursors result k"
  using assms
proof (induction k arbitrary: cursors result)
  case (Suc k)
  have pick: "pick_best cmp (map (trim n) slices) cursors None [0..<length slices]
      = pick_best cmp slices cursors None [0..<length slices]"
    using Suc.prems(1) by (intro pick_best_trim) auto
  show ?case
  proof (cases "pick_best cmp slices cursors None [0..<length slices]")
    case (Inr best)
    show ?thesis
    proof (cases best)
      case (Some i)
      with Inr pick_best_range have i: "i < length slices" by fastforce
      then have "\<forall>j<length slices. cursors[i := Suc (cursors ! i)] ! j + k \<le> n"
        using Suc.prems by (auto simp: nth_list_update)
      with Suc.IH [of "cursors[i := Suc (cursors ! i)]"] Suc.prems i Inr Some pick show ?thesis
        by (auto split: option.split)
    qed (simp add: pick Inr)
  qed (simp add: pick)
qed simp

lemma merge_top_n_trim:
  "length slices \<le> MAX_EXCHANGES \<Longrightarrow>
    merge_top_n X (map (trim n) slices) cmp n = merge_top_n X slices cmp n"
  by (simp add: merge_top_n_def merge_loop_trim)

lemma all_levels_trim:
  "all_levels (map (trim n) slices)
   = concat (map (\<lambda>t. take n (map (stamp (ts_exchange_id t)) (ts_levels t))) slices)"
  by (simp add: all_levels_def comp_def take_map)

context level_order
begin

text \<open>So a sort of everything and a sort of what the readers keep agree on the first \<open>n\<close>.\<close>

lemma sort_trim:
  assumes "ordered slices" and "length slices \<le> MAX_EXCHANGES" and "n \<le> DEPTH"
  shows "take n (sort_key lkey (all_levels (map (trim n) slices))) = take n (sort_key lkey (all_levels slices))"
proof -
  have "ordered (map (trim n) slices)" using assms(1) by (simp add: take_map [symmetric])
  from merge_top_n_sort [OF reference.external_crates_axioms this, of n]
    merge_top_n_sort [OF reference.external_crates_axioms assms] assms(2,3)
    merge_top_n_trim [OF assms(2), of reference_crates n cmp]
  show ?thesis by simp
qed

end

section \<open>Merging a store\<close>

definition side_levels :: "(order_book \<Rightarrow> raw_level list) \<Rightarrow> book_store \<Rightarrow> level list" where
  "side_levels side st = concat (map (\<lambda>b. map (stamp (ob_exchange_id b)) (side b)) (store_iter st))"

text \<open>\<open>exchange_id\<close> is the index of the book.\<close>

definition wf_store :: "book_store \<Rightarrow> bool" where
  "wf_store st \<longleftrightarrow> length (books st) = MAX_EXCHANGES
     \<and> (\<forall>i<MAX_EXCHANGES. case books st ! i of None \<Rightarrow> True | Some b \<Rightarrow> unat (ob_exchange_id b) = i)"

lemma length_store_iter: "length (store_iter st) \<le> length (books st)"
  by (simp add: store_iter_def map_filter_def)

lemma set_store_iter: "b \<in> set (store_iter st) \<longleftrightarrow> Some b \<in> set (books st)"
  by (force simp: store_iter_def map_filter_def)

lemma slices_loop_eq:
  assumes "external_crates X"
    and "length bs + length as1 \<le> MAX_EXCHANGES" and "length bs + length as2 \<le> MAX_EXCHANGES"
  shows "slices_loop X as1 as2 bs =
    (as1 @ map (\<lambda>b. \<lparr>ts_exchange_id = ob_exchange_id b, ts_levels = ob_bids b\<rparr>) bs,
     as2 @ map (\<lambda>b. \<lparr>ts_exchange_id = ob_exchange_id b, ts_levels = ob_asks b\<rparr>) bs)"
  using assms(2,3)
proof (induction bs arbitrary: as1 as2)
  case (Cons b bs)
  then show ?case
    using external_crates.axioms(4) [OF assms(1)] by (simp add: push_or_drop_def bounded_push.push_eq)
qed simp

lemma merge_slices:
  assumes "external_crates X" and "length (books st) = MAX_EXCHANGES"
  obtains bs as where "slices_loop X [] [] (store_iter st) = (bs, as)"
    and "length bs \<le> MAX_EXCHANGES" and "length as \<le> MAX_EXCHANGES"
    and "all_levels bs = side_levels ob_bids st" and "all_levels as = side_levels ob_asks st"
    and "ts_levels ` set bs = ob_bids ` set (store_iter st)"
    and "ts_levels ` set as = ob_asks ` set (store_iter st)"
  using that slices_loop_eq [OF assms(1), of "store_iter st" "[]" "[]"] length_store_iter [of st] assms(2)
  by (simp add: all_levels_def side_levels_def comp_def image_image)

lemma merge_sort:
  assumes X: "external_crates X" and st: "length (books st) = MAX_EXCHANGES"
    and "\<forall>b\<in>set (store_iter st). sorted (map bid_key (ob_bids b)) \<and> sorted (map ask_key (ob_asks b))"
  defines "bids \<equiv> take DEPTH (sort_key (\<lambda>l. bid_key (unstamp l)) (side_levels ob_bids st))"
    and "asks \<equiv> take DEPTH (sort_key (\<lambda>l. ask_key (unstamp l)) (side_levels ob_asks st))"
  shows "merge X st = Inr \<lparr>sm_spread_raw = spread_of asks bids, sm_bids = bids, sm_asks = asks\<rparr>"
proof -
  from X st obtain bs as where sl: "slices_loop X [] [] (store_iter st) = (bs, as)"
    "length bs \<le> MAX_EXCHANGES" "length as \<le> MAX_EXCHANGES"
    "all_levels bs = side_levels ob_bids st" "all_levels as = side_levels ob_asks st"
    and side: "ts_levels ` set bs = ob_bids ` set (store_iter st)"
    "ts_levels ` set as = ob_asks ` set (store_iter st)"
    by (rule merge_slices)
  have "\<forall>t\<in>set bs. sorted (map bid_key (ts_levels t))" "\<forall>t\<in>set as. sorted (map ask_key (ts_levels t))"
    using assms(3) side by (metis (no_types, lifting) image_iff)+
  then show ?thesis
    using bid_order.merge_top_n_sort [OF X _ sl(2), of DEPTH] ask_order.merge_top_n_sort [OF X _ sl(3), of DEPTH] sl
    by (simp add: merge_def bids_def asks_def)
qed

lemma merge_conserves:
  assumes X: "external_crates X" and st: "length (books st) = MAX_EXCHANGES"
  obtains sm where "merge X st = Inr sm"
    and "mset (sm_bids sm) \<subseteq># mset (side_levels ob_bids st)"
    and "length (sm_bids sm) = min DEPTH (length (side_levels ob_bids st))"
    and "mset (sm_asks sm) \<subseteq># mset (side_levels ob_asks st)"
    and "length (sm_asks sm) = min DEPTH (length (side_levels ob_asks st))"
    and "sm_spread_raw sm = spread_of (sm_asks sm) (sm_bids sm)"
proof -
  from X st obtain bs as where sl: "slices_loop X [] [] (store_iter st) = (bs, as)"
    "length bs \<le> MAX_EXCHANGES" "length as \<le> MAX_EXCHANGES"
    "all_levels bs = side_levels ob_bids st" "all_levels as = side_levels ob_asks st"
    by (rule merge_slices)
  show thesis
    using bid_order.merge_top_n_conserves [OF X sl(2), of DEPTH] ask_order.merge_top_n_conserves [OF X sl(3), of DEPTH] sl that
    by (auto simp: merge_def)
qed

section \<open>Invariant of the store\<close>

lemma wf_store_new: "wf_store store_new"
  by (simp add: wf_store_def store_new_def)

lemma wf_store_insert: "wf_store st \<Longrightarrow> wf_store (store_insert st b)"
  by (auto simp: wf_store_def store_insert_def Let_def nth_list_update)

lemma evict_slot_cases:
  "evict_slot now threshold slot = Some b \<longleftrightarrow> slot = Some b \<and> now - ob_decode_start b \<le> threshold"
  by (auto simp: evict_slot_def Let_def not_less split: option.splits)

lemma wf_store_evict: "wf_store st \<Longrightarrow> wf_store (evict_stale now threshold st)"
  by (auto simp: wf_store_def evict_stale_def evict_slot_cases split: option.splits)

lemma wf_store_ids:
  assumes "wf_store st" and "b \<in> set (store_iter st)"
  shows "unat (ob_exchange_id b) < MAX_EXCHANGES"
    and "books st ! unat (ob_exchange_id b) = Some b"
proof -
  from assms(2) obtain i where i: "i < length (books st)" "books st ! i = Some b"
    by (auto simp: set_store_iter in_set_conv_nth [of "Some b"])
  with assms(1) have "unat (ob_exchange_id b) = i" by (auto simp: wf_store_def split: option.splits)
  with i assms(1) show "unat (ob_exchange_id b) < MAX_EXCHANGES"
    "books st ! unat (ob_exchange_id b) = Some b" by (simp_all add: wf_store_def)
qed

lemma side_level_id:
  assumes "wf_store st" and "l \<in> set (side_levels side st)"
  shows "unat (lv_exchange_id l) < MAX_EXCHANGES"
  using assms wf_store_ids(1) by (auto simp: side_levels_def stamp_def)

lemma merged_level_id:
  assumes "external_crates X" and "wf_store st" and "merge X st = Inr sm"
    and "l \<in> set (sm_bids sm) \<union> set (sm_asks sm)"
  shows "unat (lv_exchange_id l) < MAX_EXCHANGES"
proof -
  from assms(2) have "length (books st) = MAX_EXCHANGES" by (simp add: wf_store_def)
  from merge_conserves [OF assms(1) this] assms(3)
  have "set (sm_bids sm) \<subseteq> set (side_levels ob_bids st)" "set (sm_asks sm) \<subseteq> set (side_levels ob_asks st)"
    by (metis set_mset_mono set_mset_mset sum.inject(2))+
  then show ?thesis using assms(4) side_level_id [OF assms(2)] by blast
qed

section \<open>Best prices and spread\<close>

lemma sint_diff:
  fixes a b :: "64 word"
  assumes "- (2 ^ 63) \<le> uint a - uint b" and "uint a - uint b < 2 ^ 63"
  shows "sint (a - b) = uint a - uint b"
proof -
  have "sint (word_of_int (uint a - uint b) :: 64 word) = signed_take_bit 63 (uint a - uint b)"
    by (simp only: signed_of_int) simp
  with assms show ?thesis by (simp add: signed_take_bit_int_eq_self)
qed

lemma hd_sort_least:
  assumes "take n (sort_key f xs) \<noteq> []" and "x \<in> set xs"
  shows "f (hd (take n (sort_key f xs))) \<le> f x"
proof -
  from assms have "hd (take n (sort_key f xs)) = hd (sort_key f xs)" by simp
  with assms(2) sorted_hd_le [of f "sort_key f xs" x] show ?thesis by simp
qed

lemma unstamp_price [simp]: "rl_price (unstamp l) = lv_price l"
  by (simp add: unstamp_def)

lemma bid_key_price: "bid_key a \<le> bid_key b \<Longrightarrow> rl_price b \<le> rl_price a"
  by (auto simp: bid_key_def less_eq_fixed_point_def word_le_def)

lemma ask_key_price: "ask_key a \<le> ask_key b \<Longrightarrow> rl_price a \<le> rl_price b"
  by (auto simp: ask_key_def less_eq_fixed_point_def word_le_def)

section \<open>Properties\<close>

abbreviation sides_ordered :: "book_store \<Rightarrow> bool" where
  "sides_ordered st \<equiv>
    \<forall>b\<in>set (store_iter st). sorted (map bid_key (ob_bids b)) \<and> sorted (map ask_key (ob_asks b))"

text \<open>
  C7. The merged summary is the reference: each side is the first \<open>DEPTH\<close> levels of a stable sort of
  all levels of all books (bids by falling price, asks by rising price, then by falling amount, then
  by exchange), each stamped with its exchange. The k-way merge is an optimisation of it.
\<close>

theorem merge_is_stable_sort:
  assumes "external_crates X" and "length (books st) = MAX_EXCHANGES" and "sides_ordered st"
  shows "\<exists>sm. merge X st = Inr sm
    \<and> sm_bids sm = take DEPTH (sort_key (\<lambda>l. bid_key (unstamp l)) (side_levels ob_bids st))
    \<and> sm_asks sm = take DEPTH (sort_key (\<lambda>l. ask_key (unstamp l)) (side_levels ob_asks st))"
  using merge_sort [OF assms] by simp

text \<open>Two books with a shared bid price, for the witnesses.\<close>

definition two_books :: book_store where
  "two_books = \<lparr>books =
    [Some \<lparr>ob_exchange_id = 0,
       ob_bids = [\<lparr>rl_price = FixedPoint 100, rl_amount = FixedPoint 5\<rparr>],
       ob_asks = [\<lparr>rl_price = FixedPoint 103, rl_amount = FixedPoint 1\<rparr>], ob_decode_start = 7\<rparr>,
     Some \<lparr>ob_exchange_id = 1,
       ob_bids = [\<lparr>rl_price = FixedPoint 101, rl_amount = FixedPoint 2\<rparr>,
         \<lparr>rl_price = FixedPoint 100, rl_amount = FixedPoint 9\<rparr>],
       ob_asks = [\<lparr>rl_price = FixedPoint 102, rl_amount = FixedPoint 4\<rparr>], ob_decode_start = 8\<rparr>]\<rparr>"

lemma two_books_simps:
  "length (books two_books) = MAX_EXCHANGES" "wf_store two_books" "sides_ordered two_books"
  by code_simp+

lemma two_books_merge:
  "merge reference_crates two_books = Inr \<lparr>sm_spread_raw = 1,
     sm_bids = [\<lparr>lv_price = FixedPoint 101, lv_amount = FixedPoint 2, lv_exchange_id = 1\<rparr>,
       \<lparr>lv_price = FixedPoint 100, lv_amount = FixedPoint 9, lv_exchange_id = 1\<rparr>,
       \<lparr>lv_price = FixedPoint 100, lv_amount = FixedPoint 5, lv_exchange_id = 0\<rparr>],
     sm_asks = [\<lparr>lv_price = FixedPoint 102, lv_amount = FixedPoint 4, lv_exchange_id = 1\<rparr>,
       \<lparr>lv_price = FixedPoint 103, lv_amount = FixedPoint 1, lv_exchange_id = 0\<rparr>]\<rparr>"
  by code_simp

theorem merge_is_stable_sort_witness:
  "take DEPTH (sort_key (\<lambda>l. bid_key (unstamp l)) (side_levels ob_bids two_books)) =
    [\<lparr>lv_price = FixedPoint 101, lv_amount = FixedPoint 2, lv_exchange_id = 1\<rparr>,
     \<lparr>lv_price = FixedPoint 100, lv_amount = FixedPoint 9, lv_exchange_id = 1\<rparr>,
     \<lparr>lv_price = FixedPoint 100, lv_amount = FixedPoint 5, lv_exchange_id = 0\<rparr>]"
  using merge_is_stable_sort [OF reference.external_crates_axioms two_books_simps(1,3)]
  by (auto simp: two_books_merge)

text \<open>
  Whatever the order inside the books, merging never panics and conserves levels: each side of
  the summary is a sub-multiset of the books' levels and holds \<open>DEPTH\<close> of them, or all if there are
  fewer.
\<close>

theorem merge_conserves_levels:
  assumes "external_crates X" and "length (books st) = MAX_EXCHANGES"
  shows "\<exists>sm. merge X st = Inr sm
    \<and> mset (sm_bids sm) \<subseteq># mset (side_levels ob_bids st)
    \<and> length (sm_bids sm) = min DEPTH (length (side_levels ob_bids st))
    \<and> mset (sm_asks sm) \<subseteq># mset (side_levels ob_asks st)
    \<and> length (sm_asks sm) = min DEPTH (length (side_levels ob_asks st))"
  by (rule merge_conserves [OF assms]) blast

theorem merge_conserves_levels_witness:
  "\<exists>sm. merge reference_crates two_books = Inr sm
    \<and> length (sm_bids sm) = min DEPTH (length (side_levels ob_bids two_books))"
  using merge_conserves_levels [OF reference.external_crates_axioms two_books_simps(1)] by blast

text \<open>
  Keeping only the first \<open>n\<close> levels of every slice does not change the merged top \<open>n\<close>, for any
  comparator and levels in any order: the readers lose nothing by stopping at \<open>DEPTH\<close> levels.
\<close>

theorem depth_pruning:
  assumes "length slices \<le> MAX_EXCHANGES"
  shows "merge_top_n X (map (trim n) slices) cmp n = merge_top_n X slices cmp n"
  by (rule merge_top_n_trim [OF assms])

theorem depth_pruning_witness:
  "let t = \<lparr>ts_exchange_id = 0, ts_levels =
        [\<lparr>rl_price = FixedPoint 101, rl_amount = FixedPoint 2\<rparr>, \<lparr>rl_price = FixedPoint 100, rl_amount = FixedPoint 9\<rparr>]\<rparr>
   in merge_top_n reference_crates [trim 1 t] cmp_bids 1 = merge_top_n reference_crates [t] cmp_bids 1"
  using depth_pruning [of "[t]" reference_crates 1 cmp_bids for t] by (simp add: MAX_EXCHANGES_def EXCHANGES_def)

text \<open>
  Insertion replaces the book of its exchange and no other, and eviction removes exactly the
  books older than the threshold, where a book from the future counts as age zero.
\<close>

theorem store_contents:
  assumes "wf_store st" and "i < MAX_EXCHANGES"
  shows "books (store_insert st b) ! i = (if unat (ob_exchange_id b) = i then Some b else books st ! i)
    \<and> books (evict_stale now threshold st) ! i =
      (case books st ! i of Some book \<Rightarrow> if now \<le> ob_decode_start book + threshold then Some book else None
       | None \<Rightarrow> None)"
  using assms
  by (auto simp: wf_store_def store_insert_def Let_def evict_stale_def evict_slot_def split: option.splits)

theorem store_contents_witness:
  "books (evict_stale (5 * 10 ^ 9 + 8) STALE_THRESHOLD two_books) ! 0 = None
    \<and> books (evict_stale (5 * 10 ^ 9 + 8) STALE_THRESHOLD two_books) ! 1 = books two_books ! 1"
  using store_contents [OF two_books_simps(2), of 0 b "5 * 10 ^ 9 + 8" STALE_THRESHOLD for b]
    store_contents [OF two_books_simps(2), of 1 b "5 * 10 ^ 9 + 8" STALE_THRESHOLD for b]
  by (simp add: MAX_EXCHANGES_def EXCHANGES_def STALE_THRESHOLD_def two_books_def)

text \<open>
  The history of a store: what the merger's thread has done to it since \<open>BookStore::new\<close>. A book is
  the current one of index \<open>i\<close> if it was inserted under that id, no book of that id came after it, and
  every eviction since found it within the threshold.
\<close>

datatype store_op = Inserted order_book | Evicted instant duration

fun store_apply :: "book_store \<Rightarrow> store_op \<Rightarrow> book_store" where
  "store_apply st (Inserted b) = store_insert st b"
| "store_apply st (Evicted now threshold) = evict_stale now threshold st"

definition store_history :: "store_op list \<Rightarrow> book_store" where
  "store_history ops = foldl store_apply store_new ops"

fun leaves :: "nat \<Rightarrow> order_book \<Rightarrow> store_op \<Rightarrow> bool" where
  "leaves i b (Inserted b') = (unat (ob_exchange_id b') \<noteq> i)"
| "leaves i b (Evicted now threshold) = (now \<le> ob_decode_start b + threshold)"

definition current_book :: "store_op list \<Rightarrow> nat \<Rightarrow> order_book \<Rightarrow> bool" where
  "current_book ops i b \<longleftrightarrow> (\<exists>before since. ops = before @ Inserted b # since
     \<and> unat (ob_exchange_id b) = i \<and> list_all (leaves i b) since)"

lemma current_book_snoc:
  "current_book (ops @ [op]) i b \<longleftrightarrow>
     op = Inserted b \<and> unat (ob_exchange_id b) = i \<or> current_book ops i b \<and> leaves i b op"
proof
  assume "current_book (ops @ [op]) i b"
  then obtain before since where h: "ops @ [op] = before @ Inserted b # since" "unat (ob_exchange_id b) = i"
    "list_all (leaves i b) since" by (auto simp: current_book_def)
  then show "op = Inserted b \<and> unat (ob_exchange_id b) = i \<or> current_book ops i b \<and> leaves i b op"
    by (cases since rule: rev_cases) (auto simp: current_book_def)
next
  assume "op = Inserted b \<and> unat (ob_exchange_id b) = i \<or> current_book ops i b \<and> leaves i b op"
  then show "current_book (ops @ [op]) i b"
  proof (elim disjE conjE)
    assume "current_book ops i b" "leaves i b op"
    then obtain before since where "ops @ [op] = before @ Inserted b # since @ [op]" "unat (ob_exchange_id b) = i"
      "list_all (leaves i b) (since @ [op])" by (auto simp: current_book_def)
    then show ?thesis unfolding current_book_def by blast
  next
    assume "op = Inserted b" "unat (ob_exchange_id b) = i"
    then have "ops @ [op] = ops @ Inserted b # [] \<and> unat (ob_exchange_id b) = i \<and> list_all (leaves i b) []" by simp
    then show ?thesis unfolding current_book_def by blast
  qed
qed

lemma store_history_wf: "wf_store (store_history ops)"
proof (induction ops rule: rev_induct)
  case (snoc op ops)
  then show ?case by (cases op) (simp_all add: store_history_def wf_store_insert wf_store_evict)
qed (simp add: store_history_def wf_store_new)

text \<open>
  C13. The store is the latest fresh book of each exchange: after any sequence of insertions, of books of any
  exchange id, and evictions, with any clock and threshold, it has one place for each exchange, and that place
  holds a book if and only if it is the last one inserted under that id and every eviction since has
  found it no older than the threshold. An id past the table changes nothing.
\<close>

theorem store_history_exact:
  assumes "i < MAX_EXCHANGES"
  shows "length (books (store_history ops)) = MAX_EXCHANGES
    \<and> (books (store_history ops) ! i = Some b \<longleftrightarrow> current_book ops i b)
    \<and> (MAX_EXCHANGES \<le> unat (ob_exchange_id b) \<longrightarrow> store_history (ops @ [Inserted b]) = store_history ops)"
proof (intro conjI impI)
  show "length (books (store_history ops)) = MAX_EXCHANGES"
    using store_history_wf by (simp add: wf_store_def)
  show "books (store_history ops) ! i = Some b \<longleftrightarrow> current_book ops i b"
  proof (induction ops rule: rev_induct)
    case Nil
    show ?case using assms by (simp add: store_history_def store_new_def current_book_def)
  next
    case (snoc op ops)
    have wf: "wf_store (foldl store_apply store_new ops)" using store_history_wf [of ops] by (simp add: store_history_def)
    show ?case
    proof (cases op)
      case (Inserted b')
      with snoc store_contents [OF wf assms, of b'] show ?thesis
        by (auto simp: current_book_snoc store_history_def)
    next
      case (Evicted now threshold)
      with snoc store_contents [OF wf assms, of _ now threshold] show ?thesis
        by (auto simp: current_book_snoc store_history_def split: option.splits)
    qed
  qed
next
  assume "MAX_EXCHANGES \<le> unat (ob_exchange_id b)"
  then show "store_history (ops @ [Inserted b]) = store_history ops"
    using store_history_wf [of ops] by (simp add: store_history_def store_insert_def wf_store_def)
qed

text \<open>A newer book of the same exchange replaces the first, and outlives the eviction that would have taken it.\<close>

definition old_book :: order_book where
  "old_book = \<lparr>ob_exchange_id = 1, ob_bids = [], ob_asks = [], ob_decode_start = 7\<rparr>"

definition replacing_ops :: "store_op list" where
  "replacing_ops = [Inserted old_book, Inserted (old_book\<lparr>ob_decode_start := 9\<rparr>), Evicted (STALE_THRESHOLD + 9) STALE_THRESHOLD]"

theorem store_history_exact_witness:
  "books (store_history replacing_ops) ! 1 = Some (old_book\<lparr>ob_decode_start := 9\<rparr>)
    \<and> books (store_history (replacing_ops @ [Evicted (STALE_THRESHOLD + 10) STALE_THRESHOLD])) ! 1
        \<noteq> Some (old_book\<lparr>ob_decode_start := 9\<rparr>)"
proof -
  have i: "1 < MAX_EXCHANGES" by (simp add: MAX_EXCHANGES_def EXCHANGES_def)
  let ?b = "old_book\<lparr>ob_decode_start := 9\<rparr>"
  have "current_book replacing_ops 1 ?b"
    unfolding current_book_def replacing_ops_def
    by (rule exI [of _ "[Inserted old_book]"]) (simp add: old_book_def)
  moreover have "\<not> current_book (replacing_ops @ [Evicted (STALE_THRESHOLD + 10) STALE_THRESHOLD]) 1 ?b"
    by (simp add: current_book_snoc)
  ultimately show ?thesis using store_history_exact [OF i, of _ ?b] by simp
qed

text \<open>
  In a merge of a well-formed store every level carries an id the exchange table resolves, so
  \<open>exchange_name\<close> never panics on a published summary.
\<close>

theorem merged_ids_resolve:
  assumes "external_crates X" and "wf_store st" and "merge X st = Inr sm"
    and "l \<in> set (sm_bids sm) \<union> set (sm_asks sm)"
  shows "\<exists>name. exchange_name (lv_exchange_id l) = Inr name \<and> name \<in> set EXCHANGES"
  using merged_level_id [OF assms] by (simp add: exchange_name_def MAX_EXCHANGES_def)

theorem merged_ids_resolve_witness:
  "\<exists>name. exchange_name 1 = Inr name \<and> name \<in> set EXCHANGES"
  using merged_ids_resolve [OF reference.external_crates_axioms two_books_simps(2) two_books_merge,
      of "\<lparr>lv_price = FixedPoint 101, lv_amount = FixedPoint 2, lv_exchange_id = 1\<rparr>"] by simp

text \<open>
  C29. The published spread is exact: with both sides present it is the least ask price minus the
  greatest bid price over all books, as a signed number (negative when the books cross), provided
  that difference is an \<open>i64\<close>; with a side missing it is zero.
\<close>

theorem spread_exact:
  assumes "external_crates X" and "length (books st) = MAX_EXCHANGES" and "sides_ordered st"
    and "merge X st = Inr sm"
  shows "(sm_bids sm = [] \<or> sm_asks sm = [] \<longrightarrow> sm_spread_raw sm = 0)
    \<and> (\<forall>bid ask. sm_bids sm \<noteq> [] \<and> bid = hd (sm_bids sm) \<and> sm_asks sm \<noteq> [] \<and> ask = hd (sm_asks sm) \<longrightarrow>
        (\<forall>l\<in>set (side_levels ob_bids st). lv_price l \<le> lv_price bid)
        \<and> (\<forall>l\<in>set (side_levels ob_asks st). lv_price ask \<le> lv_price l)
        \<and> (let d = uint (raw (lv_price ask)) - uint (raw (lv_price bid)) in
            - (2 ^ 63) \<le> d \<and> d < 2 ^ 63 \<longrightarrow> sint (sm_spread_raw sm) = d))"
proof -
  note m = merge_sort [OF assms(1-3)]
  let ?B = "take DEPTH (sort_key (\<lambda>l. bid_key (unstamp l)) (side_levels ob_bids st))"
  let ?A = "take DEPTH (sort_key (\<lambda>l. ask_key (unstamp l)) (side_levels ob_asks st))"
  have sm: "sm_bids sm = ?B" "sm_asks sm = ?A" "sm_spread_raw sm = spread_of ?A ?B"
    using m assms(4) by auto
  have best_bid: "lv_price l \<le> lv_price (hd ?B)" if "?B \<noteq> []" "l \<in> set (side_levels ob_bids st)" for l
    using bid_key_price [OF hd_sort_least [OF that]] by simp
  have best_ask: "lv_price (hd ?A) \<le> lv_price l" if "?A \<noteq> []" "l \<in> set (side_levels ob_asks st)" for l
    using ask_key_price [OF hd_sort_least [OF that]] by simp
  have "spread_of ?A ?B = (if ?A = [] \<or> ?B = [] then 0 else raw (lv_price (hd ?A)) - raw (lv_price (hd ?B)))"
    unfolding spread_of_def by (cases ?A; cases ?B) (simp_all only: prod.case list.case list.sel refl if_True if_False simp_thms list.distinct)
  with sm best_bid best_ask show ?thesis by (auto simp: Let_def sint_diff)
qed

theorem spread_exact_witness:
  "\<exists>sm. merge reference_crates two_books = Inr sm \<and> sint (sm_spread_raw sm) = 102 - 101
    \<and> (\<forall>l\<in>set (side_levels ob_bids two_books). lv_price l \<le> FixedPoint 101)
    \<and> (\<forall>l\<in>set (side_levels ob_asks two_books). FixedPoint 102 \<le> lv_price l)"
  using spread_exact [OF reference.external_crates_axioms two_books_simps(1,3) two_books_merge]
  by (simp add: two_books_merge)

lemma merge_spread: "merge X st = Inr sm \<Longrightarrow> sm_spread_raw sm = spread_of (sm_asks sm) (sm_bids sm)"
  by (auto simp: merge_def split: prod.splits sum.splits)

lemma uint_diff_range:
  fixes a b :: "64 word"
  shows "- (2 ^ 64) < uint a - uint b" and "uint a - uint b < 2 ^ 64"
proof -
  have "uint a < 2 ^ 64" "uint b < 2 ^ 64" using uint_lt2p [of a] uint_lt2p [of b] by simp_all
  with uint_ge_0 [of a] uint_ge_0 [of b] show "- (2 ^ 64) < uint a - uint b" "uint a - uint b < 2 ^ 64" by linarith+
qed

lemma sint_diff_wraps:
  fixes a b :: "64 word"
  defines "d \<equiv> uint a - uint b"
  shows "sint (a - b) = (if d < - (2 ^ 63) then d + 2 ^ 64 else if 2 ^ 63 \<le> d then d - 2 ^ 64 else d)"
proof -
  have d: "- (2 ^ 64) < d" "d < 2 ^ 64" unfolding d_def by (rule uint_diff_range)+
  have "sint (word_of_int d :: 64 word) = signed_take_bit 63 d" by (simp only: signed_of_int) simp
  then have "sint (a - b) = (d + 2 ^ 63) mod 2 ^ 64 - 2 ^ 63"
    by (simp add: d_def signed_take_bit_eq_take_bit_shift take_bit_eq_mod)
  moreover consider "d < - (2 ^ 63)" | "- (2 ^ 63) \<le> d" "d < 2 ^ 63" | "2 ^ 63 \<le> d" by linarith
  then have "(d + 2 ^ 63) mod 2 ^ 64 = (if d < - (2 ^ 63) then d + 2 ^ 63 + 2 ^ 64 else if 2 ^ 63 \<le> d then d + 2 ^ 63 - 2 ^ 64 else d + 2 ^ 63)"
    using d mod_pos_pos_trivial [of "d + 2 ^ 63 + 2 ^ 64" "2 ^ 64"] mod_pos_pos_trivial [of "d + 2 ^ 63 - 2 ^ 64" "2 ^ 64"]
      mod_pos_pos_trivial [of "d + 2 ^ 63" "2 ^ 64"] mod_add_self2 [of "d + 2 ^ 63" "2 ^ 64"] minus_mod_self2 [of "d + 2 ^ 63" "2 ^ 64"]
    by cases simp_all
  ultimately show ?thesis by simp
qed

text \<open>
  C40. Outside the range of \<open>spread_exact\<close> the published spread wraps around, and its sign is then wrong: for
  any summary with both sides present, the spread is the best ask minus the best bid, less or plus
  \<open>2 ^ 64\<close> when that difference does not fit an \<open>i64\<close>. So an uncrossed book is published as crossed exactly if the
  difference is \<open>2 ^ 63\<close> or more, and a crossed one as uncrossed exactly if it is below \<open>- 2 ^ 63\<close>. The input does
  not exclude this: the witness merges two prices that parse.
\<close>

theorem merged_spread_wraps:
  fixes X st sm
  assumes "merge X st = Inr sm" and "sm_bids sm \<noteq> []" and "sm_asks sm \<noteq> []"
  defines "d \<equiv> uint (raw (lv_price (hd (sm_asks sm)))) - uint (raw (lv_price (hd (sm_bids sm))))"
  shows "sint (sm_spread_raw sm) = (if d < - (2 ^ 63) then d + 2 ^ 64 else if 2 ^ 63 \<le> d then d - 2 ^ 64 else d)
    \<and> (0 \<le> d \<and> sint (sm_spread_raw sm) < 0 \<longleftrightarrow> 2 ^ 63 \<le> d)
    \<and> (d < 0 \<and> 0 < sint (sm_spread_raw sm) \<longleftrightarrow> d < - (2 ^ 63))"
proof -
  obtain a as b bs where "sm_asks sm = a # as" "sm_bids sm = b # bs" using assms(2,3) by (metis list.exhaust)
  with merge_spread [OF assms(1)] have s: "sint (sm_spread_raw sm) = (if d < - (2 ^ 63) then d + 2 ^ 64 else if 2 ^ 63 \<le> d then d - 2 ^ 64 else d)"
    by (simp add: spread_of_def d_def sint_diff_wraps)
  have "- (2 ^ 64) < d" "d < 2 ^ 64" unfolding d_def by (rule uint_diff_range)+
  then show ?thesis unfolding s by auto
qed

text \<open>One book, its bid at 0.00000001 and its ask at 92233720368.54775809.\<close>

definition wide_book :: book_store where
  "wide_book = \<lparr>books =
    [Some \<lparr>ob_exchange_id = 0,
       ob_bids = [\<lparr>rl_price = FixedPoint 1, rl_amount = FixedPoint 5\<rparr>],
       ob_asks = [\<lparr>rl_price = FixedPoint 9223372036854775809, rl_amount = FixedPoint 5\<rparr>], ob_decode_start = 7\<rparr>,
     None]\<rparr>"

lemma wide_book_merge:
  "merge reference_crates wide_book = Inr \<lparr>sm_spread_raw = 9223372036854775808,
     sm_bids = [\<lparr>lv_price = FixedPoint 1, lv_amount = FixedPoint 5, lv_exchange_id = 0\<rparr>],
     sm_asks = [\<lparr>lv_price = FixedPoint 9223372036854775809, lv_amount = FixedPoint 5, lv_exchange_id = 0\<rparr>]\<rparr>"
  by code_simp

theorem merged_spread_wraps_witness:
  "\<exists>sm. merge reference_crates wide_book = Inr sm
    \<and> fp_parse (ascii ''0.00000001'') = Some (lv_price (hd (sm_bids sm)))
    \<and> fp_parse (ascii ''92233720368.54775809'') = Some (lv_price (hd (sm_asks sm)))
    \<and> lv_price (hd (sm_bids sm)) < lv_price (hd (sm_asks sm)) \<and> sint (sm_spread_raw sm) < 0"
proof -
  have "fp_parse (ascii ''0.00000001'') = Some (FixedPoint 1)"
    "fp_parse (ascii ''92233720368.54775809'') = Some (FixedPoint 9223372036854775809)"
    by (simp_all add: parse_eval del: digit_test)
  moreover have "sint (9223372036854775808 :: 64 word) < 0"
    using merged_spread_wraps [OF wide_book_merge] by simp
  ultimately show ?thesis by (simp add: wide_book_merge less_fixed_point_def)
qed

end
