(* ===== verification/MergerLoop.thy ===== *)
theory MergerLoop
  imports Merger Exchange
begin

text \<open>
  \<open>src/merger.rs\<close>, \<open>run_spsc\<close>: the polling loop of the merger thread. One pass looks at the
  cancellation flag and at the producers, then polls every slot once; a book it finds is stored, stale
  books are evicted, and the merge of the rest is published. The published summaries are a log, newest
  last (the \<open>watch\<close> channel keeps the last). The clock readings of a poll (\<open>t0\<close> and
  \<open>decode_start.elapsed()\<close>) are inputs, as is what the producers do to the slots between two passes.
  \<open>merger_thread\<close> adds the pinning of the thread to a core, over the answers of the operating system;
  the log lines are left out.
\<close>

section \<open>The loop\<close>

record merger_state =
  slots :: "order_book slot list"
  store :: book_store
  summaries :: "summary list"
  e2e_latency :: prom_histogram
  merges :: u64

text \<open>\<open>recv()\<close> on one receiver and the body of \<open>if let Some(book)\<close>.\<close>

definition poll_one :: "crates \<Rightarrow> instant \<Rightarrow> duration \<Rightarrow> nat \<Rightarrow> merger_state \<Rightarrow> merger_state run" where
  "poll_one X t0 elapsed i c =
     (case slot_recv (slots c ! i) of
        Inl p \<Rightarrow> Inl p
      | Inr (None, s) \<Rightarrow> Inr (c\<lparr>slots := (slots c)[i := s]\<rparr>)
      | Inr (Some book, s) \<Rightarrow>
          (let st = evict_stale t0 STALE_THRESHOLD (store_insert (store c) book) in
           case merge X st of
             Inl p \<Rightarrow> Inl p
           | Inr summary \<Rightarrow>
               (case histogram_record (e2e_latency c) elapsed of
                  Inl p \<Rightarrow> Inl p
                | Inr h \<Rightarrow>
                    Inr (c\<lparr>slots := (slots c)[i := s], store := st, summaries := summaries c @ [summary],
                          e2e_latency := h, merges := merges c + 1\<rparr>))))"

text \<open>\<open>for receiver in receivers\<close>, with the clock of each turn.\<close>

fun poll_all :: "crates \<Rightarrow> (instant \<times> duration) list \<Rightarrow> nat \<Rightarrow> merger_state \<Rightarrow> merger_state run" where
  "poll_all X [] i c = Inr c"
| "poll_all X ((t0, elapsed) # clocks) i c =
     (case poll_one X t0 elapsed i c of
        Inl p \<Rightarrow> Inl p
      | Inr c' \<Rightarrow> poll_all X clocks (i + 1) c')"

text \<open>
  One pass of the loop: \<open>None\<close> when it breaks. The list of clocks has one entry per receiver.
\<close>

definition merger_pass :: "crates \<Rightarrow> bool \<Rightarrow> (instant \<times> duration) list \<Rightarrow> merger_state \<Rightarrow> merger_state option run" where
  "merger_pass X cancelled clocks c =
     (if cancelled then Inr None
      else if list_all is_abandoned (slots c) then Inr None
      else map_sum id Some (poll_all X clocks 0 c))"

text \<open>
  The loop on a sequence of turns: what the producers do to the slots, the flag, the clocks. It ends
  with the turns or at a break, and says whether it broke.
\<close>

type_synonym turn = "(order_book slot list \<Rightarrow> order_book slot list) \<times> bool \<times> (instant \<times> duration) list"

fun merger_loop :: "crates \<Rightarrow> turn list \<Rightarrow> merger_state \<Rightarrow> (bool \<times> merger_state) run" where
  "merger_loop X [] c = Inr (False, c)"
| "merger_loop X ((producers, cancelled, clocks) # turns) c =
     (let c = c\<lparr>slots := producers (slots c)\<rparr> in
      case merger_pass X cancelled clocks c of
        Inl p \<Rightarrow> Inl p
      | Inr None \<Rightarrow> Inr (True, c)
      | Inr (Some c') \<Rightarrow> merger_loop X turns c')"

definition merger_start :: "order_book slot list \<Rightarrow> merger_state" where
  "merger_start receivers = \<lparr>slots = receivers, store = store_new, summaries = [],
     e2e_latency = histogram_new, merges = 0\<rparr>"

definition run_spsc :: "crates \<Rightarrow> order_book slot list \<Rightarrow> turn list \<Rightarrow> (bool \<times> merger_state) run" where
  "run_spsc X receivers turns =
     (if MAX_EXCHANGES < length receivers then Inl AssertionFailed
      else merger_loop X turns (merger_start receivers))"

text \<open>
  \<open>pin_to_last_core\<close>, on Linux: the answer of \<open>sysconf\<close>, the \<open>CPU_SET\<close> of libc (which panics past the end
  of the mask) and the answer of \<open>sched_setaffinity\<close> are parameters.
\<close>

datatype pinning = Pinned nat | NotPinned nat | UnknownCpus

definition pin_to_last_core :: "int \<Rightarrow> (nat \<Rightarrow> 'mask run) \<Rightarrow> ('mask \<Rightarrow> int) \<Rightarrow> pinning run" where
  "pin_to_last_core cpus cpu_set sched_setaffinity =
     (if 0 < cpus then
        let core = nat (cpus - 1) in
        (case cpu_set core of
           Inl p \<Rightarrow> Inl p
         | Inr bits \<Rightarrow> Inr (if sched_setaffinity bits = 0 then Pinned core else NotPinned core))
      else Inr UnknownCpus)"

text \<open>\<open>run_spsc\<close> with the pinning between its assertion and its loop.\<close>

definition merger_thread ::
    "crates \<Rightarrow> int \<Rightarrow> (nat \<Rightarrow> 'mask run) \<Rightarrow> ('mask \<Rightarrow> int) \<Rightarrow> order_book slot list \<Rightarrow> turn list \<Rightarrow> (bool \<times> merger_state) run" where
  "merger_thread X cpus cpu_set sched_setaffinity receivers turns =
     (if MAX_EXCHANGES < length receivers then Inl AssertionFailed
      else
        case pin_to_last_core cpus cpu_set sched_setaffinity of
          Inl p \<Rightarrow> Inl p
        | Inr _ \<Rightarrow> merger_loop X turns (merger_start receivers))"

lemma merger_thread_eq:
  assumes "0 < cpus \<Longrightarrow> \<exists>bits. cpu_set (nat (cpus - 1)) = Inr bits"
  shows "merger_thread X cpus cpu_set sched_setaffinity receivers turns = run_spsc X receivers turns"
  using assms by (auto simp: merger_thread_def run_spsc_def pin_to_last_core_def Let_def)

lemma pinned_to_existing_core:
  assumes "pin_to_last_core cpus cpu_set sched_setaffinity = Inr (Pinned core)"
  shows "int core = cpus - 1"
  using assms by (auto simp: pin_to_last_core_def Let_def split: sum.splits if_splits)

section \<open>Invariant\<close>

definition fresh_store :: "instant \<Rightarrow> book_store \<Rightarrow> bool" where
  "fresh_store t0 st \<longleftrightarrow> (\<forall>b\<in>set (store_iter st). t0 \<le> ob_decode_start b + STALE_THRESHOLD)"

definition merger_inv :: "merger_state \<Rightarrow> bool" where
  "merger_inv c \<longleftrightarrow> wf_store (store c) \<and> wf_histogram (e2e_latency c) \<and> list_all slot_inv (slots c)
     \<and> merges c = of_nat (length (summaries c))"

lemma fresh_after_eviction: "fresh_store t0 (evict_stale t0 STALE_THRESHOLD st)"
  unfolding fresh_store_def
proof
  fix b assume "b \<in> set (store_iter (evict_stale t0 STALE_THRESHOLD st))"
  then obtain slot where "evict_slot t0 STALE_THRESHOLD slot = Some b"
    by (auto simp: set_store_iter evict_stale_def)
  then show "t0 \<le> ob_decode_start b + STALE_THRESHOLD" by (auto simp: evict_slot_cases)
qed

lemma wf_store_length: "wf_store st \<Longrightarrow> length (books st) = MAX_EXCHANGES"
  by (simp add: wf_store_def)

text \<open>The two ways a poll can go.\<close>

lemma poll_one_cases:
  assumes X: "external_crates X" and inv: "merger_inv c" and i: "i < length (slots c)"
  obtains (idle) s where "slot_unread (slots c ! i) = None"
      and "poll_one X t0 d i c = Inr (c\<lparr>slots := (slots c)[i := s]\<rparr>)"
      and "merger_inv (c\<lparr>slots := (slots c)[i := s]\<rparr>)"
  | (book) b sm c' where "slot_unread (slots c ! i) = Some b"
      and "poll_one X t0 d i c = Inr c'" and "merger_inv c'"
      and "store c' = evict_stale t0 STALE_THRESHOLD (store_insert (store c) b)"
      and "merge X (store c') = Inr sm" and "summaries c' = summaries c @ [sm]"
      and "\<exists>s. slots c' = (slots c)[i := s]"
proof -
  have s_inv: "slot_inv (slots c ! i)" using inv i by (simp add: merger_inv_def list_all_length)
  obtain s where s: "slot_recv (slots c ! i) = Inr (slot_unread (slots c ! i), s)" "slot_inv s"
    using triple.recv_law [OF s_inv] by blast
  have all: "list_all slot_inv ((slots c)[i := s])"
    using inv s(2) by (auto simp: merger_inv_def list_all_iff dest: set_update_subset_insert [THEN subsetD])
  show thesis
  proof (cases "slot_unread (slots c ! i)")
    case None
    with s all inv show thesis by (intro idle [of s]) (simp_all add: poll_one_def merger_inv_def)
  next
    case (Some b)
    let ?st = "evict_stale t0 STALE_THRESHOLD (store_insert (store c) b)"
    have wf: "wf_store ?st" using inv by (simp add: merger_inv_def wf_store_insert wf_store_evict)
    obtain sm where sm: "merge X ?st = Inr sm" by (rule merge_conserves [OF X wf_store_length [OF wf]])
    obtain h where h: "histogram_record (e2e_latency c) d = Inr h" "wf_histogram h"
      using inv by (auto simp: merger_inv_def elim: record_wf [where d = d])
    show thesis
      by (rule book [of b "c\<lparr>slots := (slots c)[i := s], store := ?st, summaries := summaries c @ [sm],
              e2e_latency := h, merges := merges c + 1\<rparr>" sm])
        (use Some s sm h wf all inv in \<open>auto simp: poll_one_def merger_inv_def\<close>)
  qed
qed

text \<open>Every published summary is the merge of a store in order.\<close>

definition all_merged :: "crates \<Rightarrow> summary list \<Rightarrow> bool" where
  "all_merged X sms \<longleftrightarrow> list_all (\<lambda>sm. \<exists>st. wf_store st \<and> merge X st = Inr sm) sms"

text \<open>What one pass does to the log and the store, whatever it finds.\<close>

definition pass_ok :: "crates \<Rightarrow> merger_state \<Rightarrow> merger_state \<Rightarrow> bool" where
  "pass_ok X c c' \<longleftrightarrow> merger_inv c' \<and> length (slots c') = length (slots c)
     \<and> prefix (summaries c) (summaries c') \<and> (all_merged X (summaries c) \<longrightarrow> all_merged X (summaries c'))
     \<and> (summaries c' = summaries c \<and> store c' = store c
        \<or> (\<exists>t0 sm. fresh_store t0 (store c') \<and> merge X (store c') = Inr sm \<and> last (summaries c') = sm
            \<and> summaries c' \<noteq> []))"

lemma pass_ok_trans: "pass_ok X c c1 \<Longrightarrow> pass_ok X c1 c2 \<Longrightarrow> pass_ok X c c2"
  unfolding pass_ok_def by (metis prefix_order.trans)

lemma poll_one_ok:
  assumes "external_crates X" and "merger_inv c" and "i < length (slots c)"
  obtains c' where "poll_one X t0 d i c = Inr c'" and "pass_ok X c c'"
    and "slot_unread (slots c ! i) = None \<Longrightarrow> store c' = store c \<and> summaries c' = summaries c"
proof (cases rule: poll_one_cases [OF assms, of t0 d, case_names idle book])
  case (idle s)
  then show thesis by (intro that [of "c\<lparr>slots := (slots c)[i := s]\<rparr>"]) (simp_all add: pass_ok_def)
next
  case (book b sm c')
  then show thesis
    using fresh_after_eviction [of t0 "store_insert (store c) b"]
    by (intro that [of c']) (auto simp: pass_ok_def all_merged_def merger_inv_def)
qed

lemma pass_ok_refl: "merger_inv c \<Longrightarrow> pass_ok X c c"
  by (simp add: pass_ok_def)

lemma poll_all_ok:
  assumes "external_crates X" and "merger_inv c" and "i + length clocks \<le> length (slots c)"
  obtains c' where "poll_all X clocks i c = Inr c'" and "pass_ok X c c'"
  using assms(2,3)
proof (induction clocks arbitrary: i c thesis)
  case Nil
  then show ?case by (simp add: pass_ok_refl)
next
  case (Cons a clocks)
  obtain t0 d where a: "a = (t0, d)" by (cases a)
  from Cons.prems(3) have "i < length (slots c)" by simp
  from poll_one_ok [OF assms(1) Cons.prems(2) this, of t0 d]
  obtain c1 where c1: "poll_one X t0 d i c = Inr c1" "pass_ok X c c1" by metis
  then have "merger_inv c1" "Suc i + length clocks \<le> length (slots c1)"
    using Cons.prems(3) by (simp_all add: pass_ok_def)
  then obtain c2 where "poll_all X clocks (Suc i) c1 = Inr c2" "pass_ok X c1 c2"
    by (metis Cons.IH)
  with c1 a show ?case by (intro Cons.prems(1) [of c2]) (auto intro: pass_ok_trans)
qed

section \<open>The whole loop\<close>

text \<open>
  What a turn must respect: there is a clock reading per receiver, and the producers leave their slots
  in order (every operation of the sending half does).
\<close>

definition turn_ok :: "nat \<Rightarrow> turn \<Rightarrow> bool" where
  "turn_ok n t \<longleftrightarrow> (case t of (producers, _, clocks) \<Rightarrow> length clocks = n
     \<and> (\<forall>ss. length ss = n \<longrightarrow> list_all slot_inv ss \<longrightarrow>
          length (producers ss) = n \<and> list_all slot_inv (producers ss)))"

lemma merger_loop_ok:
  assumes "external_crates X" and "merger_inv c" and "list_all (turn_ok (length (slots c))) turns"
  shows "\<exists>b c'. merger_loop X turns c = Inr (b, c') \<and> merger_inv c'
    \<and> (all_merged X (summaries c) \<longrightarrow> all_merged X (summaries c'))"
  using assms(2,3)
proof (induction turns arbitrary: c)
  case Nil
  then show ?case by (intro exI [of _ False] exI [of _ c]) simp
next
  case (Cons t turns)
  obtain producers cancelled clocks where t: "t = (producers, cancelled, clocks)" by (cases t)
  let ?c = "c\<lparr>slots := producers (slots c)\<rparr>"
  have c: "merger_inv ?c" "length (slots ?c) = length (slots c)" "length clocks = length (slots c)"
    using Cons.prems t by (simp_all add: merger_inv_def turn_ok_def)
  obtain c1 where c1: "poll_all X clocks 0 ?c = Inr c1" "pass_ok X ?c c1"
    by (rule poll_all_ok [OF assms(1) c(1), of 0 clocks]) (use c in simp)
  show ?case
  proof (cases "cancelled \<or> list_all is_abandoned (slots ?c)")
    case True
    then have "merger_pass X cancelled clocks ?c = Inr None" by (auto simp: merger_pass_def)
    then have "merger_loop X (t # turns) c = Inr (True, ?c)" by (simp add: t Let_def)
    with c show ?thesis by (intro exI [of _ True] exI [of _ ?c]) simp
  next
    case False
    have "merger_inv c1" "length (slots c1) = length (slots c)"
      "all_merged X (summaries c) \<longrightarrow> all_merged X (summaries c1)"
      using c1(2) c(2) by (simp_all add: pass_ok_def)
    with Cons.IH [of c1] Cons.prems(2) obtain b c' where "merger_loop X turns c1 = Inr (b, c')"
      "merger_inv c'" "all_merged X (summaries c) \<longrightarrow> all_merged X (summaries c')"
      by auto
    with False c1(1) t show ?thesis by (simp add: merger_pass_def)
  qed
qed

lemma merger_inv_start: "list_all slot_inv receivers \<Longrightarrow> merger_inv (merger_start receivers)"
  by (simp add: merger_inv_def merger_start_def wf_store_new)

lemma poll_all_idle:
  assumes "external_crates X" and "merger_inv c" and "i + length clocks \<le> length (slots c)"
    and "\<forall>j<length (slots c). i \<le> j \<longrightarrow> slot_unread (slots c ! j) = None"
  shows "\<exists>c'. poll_all X clocks i c = Inr c' \<and> store c' = store c \<and> summaries c' = summaries c"
  using assms(2-)
proof (induction clocks arbitrary: i c)
  case (Cons a clocks)
  obtain t0 d where a: "a = (t0, d)" by (cases a)
  from Cons.prems(2) have i: "i < length (slots c)" by simp
  show ?case
  proof (cases rule: poll_one_cases [OF assms(1) Cons.prems(1) i, of t0 d, case_names idle book])
    case (idle s)
    with Cons.IH [of "c\<lparr>slots := (slots c)[i := s]\<rparr>" "Suc i"] Cons.prems a show ?thesis by simp
  next
    case (book b sm c')
    with Cons.prems(3) i show ?thesis by simp
  qed
qed simp

lemma run_spsc_ok:
  assumes "external_crates X" and "list_all slot_inv receivers"
    and "list_all (turn_ok (length receivers)) turns" and "length receivers \<le> MAX_EXCHANGES"
  shows "\<exists>b c. run_spsc X receivers turns = Inr (b, c) \<and> wf_store (store c)
    \<and> merges c = of_nat (length (summaries c)) \<and> all_merged X (summaries c)"
  using merger_loop_ok [OF assms(1) merger_inv_start [OF assms(2)], of turns] assms(3,4)
  by (auto simp: run_spsc_def merger_inv_def merger_start_def all_merged_def)

lemma run_published:
  assumes "external_crates X" and "list_all slot_inv receivers"
    and "list_all (turn_ok (length receivers)) turns" and "run_spsc X receivers turns = Inr (ended, c)"
  shows "all_merged X (summaries c)"
  using run_spsc_ok [OF assms(1-3)] assms(4) by (cases "length receivers \<le> MAX_EXCHANGES") (auto simp: run_spsc_def)

section \<open>Properties\<close>

text \<open>
  C27. The merger never panics once started with at most \<open>MAX_EXCHANGES\<close> receivers, whatever the
  producers publish and in whichever order; all it publishes are merges of stores in order, and the
  \<open>merges\<close> counter is their number. With more receivers it refuses to start.
\<close>

theorem run_spsc_safe:
  assumes "external_crates X" and "list_all slot_inv receivers"
    and "list_all (turn_ok (length receivers)) turns"
  shows "if length receivers \<le> MAX_EXCHANGES
    then \<exists>b c. run_spsc X receivers turns = Inr (b, c) \<and> wf_store (store c)
      \<and> merges c = of_nat (length (summaries c)) \<and> all_merged X (summaries c)
    else run_spsc X receivers turns = Inl AssertionFailed"
  using run_spsc_ok [OF assms] by (auto simp: run_spsc_def)

theorem run_spsc_safe_witness:
  "\<exists>b c. run_spsc reference_crates [slot_new, slot_new] [(id, False, [(0, 0), (0, 0)])] = Inr (b, c)
    \<and> wf_store (store c)"
proof -
  have "slot_inv (slot_new :: order_book slot)" by (simp add: slot_inv_def slot_new_simps)
  then show ?thesis
    using run_spsc_safe [OF reference.external_crates_axioms, of "[slot_new, slot_new]" "[(id, False, [(0, 0), (0, 0)])]"]
    by (auto simp: turn_ok_def MAX_EXCHANGES_def EXCHANGES_def)
qed

text \<open>
  Polling a slot that holds an unread book publishes exactly one summary: the merge of a store in
  which no book is older than the threshold, in which every other exchange's book is the old one if
  it is fresh enough, and in which the new book is the exchange's if it is.
\<close>

theorem poll_publishes_fresh_merge:
  assumes "external_crates X" and "merger_inv c" and "i < length (slots c)"
    and "slot_unread (slots c ! i) = Some b"
  shows "\<exists>c' sm. poll_one X t0 d i c = Inr c' \<and> merger_inv c'
    \<and> summaries c' = summaries c @ [sm] \<and> merge X (store c') = Inr sm \<and> fresh_store t0 (store c')
    \<and> (\<forall>k<MAX_EXCHANGES. books (store c') ! k =
        evict_slot t0 STALE_THRESHOLD (if unat (ob_exchange_id b) = k then Some b else books (store c) ! k))"
proof (cases rule: poll_one_cases [OF assms(1-3), of t0 d, case_names idle book])
  case (idle s)
  with assms(4) show ?thesis by simp
next
  case (book b' sm c')
  then have "b' = b" using assms(4) by simp
  moreover have "wf_store (store c)" using assms(2) by (simp add: merger_inv_def)
  ultimately have "books (store c') ! k =
      evict_slot t0 STALE_THRESHOLD (if unat (ob_exchange_id b) = k then Some b else books (store c) ! k)"
    if "k < MAX_EXCHANGES" for k
    using that by (auto simp: book(4) evict_stale_def store_insert_def Let_def wf_store_def)
  with book fresh_after_eviction [of t0 "store_insert (store c) b'"] show ?thesis
    by (intro exI [of _ c'] exI [of _ sm]) auto
qed

definition full_slot :: "order_book slot" where
  "full_slot = slot_new\<lparr>buffers := [Some \<lparr>ob_exchange_id = 0, ob_bids = [], ob_asks = [], ob_decode_start = 9\<rparr>, None, None],
     state := 1, tx_back := 1\<rparr>"

theorem poll_publishes_fresh_merge_witness:
  "\<exists>c' sm. poll_one reference_crates 10 1 0 (merger_start [full_slot]) = Inr c' \<and> summaries c' = [sm]"
proof -
  have "slot_inv full_slot" "slot_unread full_slot
      = Some \<lparr>ob_exchange_id = 0, ob_bids = [], ob_asks = [], ob_decode_start = 9\<rparr>"
    by (simp_all add: full_slot_def slot_new_def slot_inv_def roles_ok_def mid_def slot_unread_def
        load_dirty_def DIRTY_def)
  then show ?thesis
    using poll_publishes_fresh_merge [OF reference.external_crates_axioms merger_inv_start, of "[full_slot]" 0 _ 10 1]
    by (fastforce simp: merger_start_def)
qed

text \<open>
  C39. Eviction only happens while a book is being merged: a pass that finds no unread book leaves the
  store and the published summaries as they are, at any time and however old the books. When all
  exchanges fall silent, the last summary stays published.
\<close>

theorem silent_pass_keeps_stale_books:
  assumes "external_crates X" and "merger_inv c" and "length clocks = length (slots c)"
    and "\<forall>j<length (slots c). slot_unread (slots c ! j) = None"
  shows "\<exists>c'. poll_all X clocks 0 c = Inr c' \<and> store c' = store c \<and> summaries c' = summaries c"
  by (rule poll_all_idle [OF assms(1,2)]) (use assms(3,4) in simp_all)

theorem silent_pass_keeps_stale_books_witness:
  "\<exists>c'. poll_all reference_crates [(10 ^ 12, 0)] 0 \<lparr>slots = [slot_new], store = two_books, summaries = [default_summary],
      e2e_latency = histogram_new, merges = 1\<rparr> = Inr c' \<and> store c' = two_books"
  using silent_pass_keeps_stale_books [OF reference.external_crates_axioms, of "\<lparr>slots = [slot_new], store = two_books,
      summaries = [default_summary], e2e_latency = histogram_new, merges = 1\<rparr>" "[(10 ^ 12, 0)]"]
  by (auto simp: merger_inv_def two_books_simps(2) slot_inv_def slot_unread_def slot_new_simps)

text \<open>
  C28. A turn always ends the loop when the flag is set or every producer is gone, and the second test
  stands before the poll: books the producers published last and nobody took are then never merged.
\<close>

theorem merger_exit_skips_unread:
  assumes "cancelled \<or> list_all is_abandoned (producers (slots c))"
    and "i < length (producers (slots c))" and "slot_unread (producers (slots c) ! i) = Some b"
  shows "\<exists>c'. merger_loop X ((producers, cancelled, clocks) # turns) c = Inr (True, c')
    \<and> summaries c' = summaries c \<and> store c' = store c \<and> slot_unread (slots c' ! i) = Some b"
  using assms by (auto simp: merger_pass_def Let_def)

text \<open>A producer that sends a book and is dropped.\<close>

definition last_words :: "order_book slot \<Rightarrow> order_book slot" where
  "last_words s = snd (drop_half (projr (slot_send s \<lparr>ob_exchange_id = 0, ob_bids = [], ob_asks = [], ob_decode_start = 9\<rparr>)))"

theorem merger_exit_skips_unread_witness:
  "\<exists>c'. merger_loop reference_crates [(map last_words, False, [(10, 1)])] (merger_start [slot_new]) = Inr (True, c')
    \<and> summaries c' = []"
proof -
  have "list_all is_abandoned (map last_words (slots (merger_start [slot_new])))"
    "slot_unread (map last_words (slots (merger_start [slot_new])) ! 0)
      = Some \<lparr>ob_exchange_id = 0, ob_bids = [], ob_asks = [], ob_decode_start = 9\<rparr>"
    by (simp_all add: last_words_def merger_start_def slot_send_def write_back_def publish_swap_def drop_half_def
        slot_new_def is_abandoned_def slot_unread_def load_dirty_def mid_def DIRTY_def Let_def)
  with merger_exit_skips_unread [of False "map last_words" "merger_start [slot_new]" 0 _ reference_crates "[(10, 1)]" "[]"]
  show ?thesis by (auto simp: merger_start_def)
qed

end
