(* ===== verification/Pipeline.thy ===== *)
theory Pipeline
  imports Adapters MergerLoop
begin

text \<open>
  The three threads together, over the two slots they share: either adapter (\<open>run_ws_loop\<close> of
  \<open>src/exchange/mod.rs\<close> with its handler) and the merger (\<open>run_spsc\<close> of \<open>src/merger.rs\<close>), interleaved in any
  order. An event is one step of one of them; the merger's steps are its test at the head of the loop
  and one turn of its loop over the receivers. Sends and receives are single steps here: \<open>SlotOrder\<close>
  shows that interleaving their accesses gives nothing else. A panic ends the process.
\<close>

section \<open>The threads\<close>

datatype merger_pc = AtCheck | AtReceiver nat | Stopped | MergerPanicked panic

record pipeline =
  binance_feed :: "binance_handler ws_state"
  binance_gone :: bool
  bitstamp_feed :: "bitstamp_handler ws_state"
  bitstamp_gone :: bool
  merger_side :: merger_state
  merger_at :: merger_pc
  merger_gone :: bool

datatype pipeline_event =
    BinanceInput ws_input
  | BitstampInput ws_input
  | BinanceExits \<comment> \<open>the thread has returned and drops its sender\<close>
  | BitstampExits
  | MergerCheck bool \<comment> \<open>the answer of \<open>is_cancelled\<close>\<close>
  | MergerPoll instant duration
  | MergerExits

definition shared :: "pipeline \<Rightarrow> order_book slot list" where
  "shared p = [sender (binance_feed p), sender (bitstamp_feed p)]"

definition pipeline_start :: pipeline where
  "pipeline_start = \<lparr>binance_feed = binance_start, binance_gone = False, bitstamp_feed = bitstamp_start, bitstamp_gone = False,
     merger_side = merger_start [slot_new, slot_new], merger_at = AtCheck, merger_gone = False\<rparr>"

definition aborted :: "pipeline \<Rightarrow> bool" where
  "aborted p \<longleftrightarrow> (case pc (binance_feed p) of Panicked _ \<Rightarrow> True | _ \<Rightarrow> False)
     \<or> (case pc (bitstamp_feed p) of Panicked _ \<Rightarrow> True | _ \<Rightarrow> False)
     \<or> (case merger_at p of MergerPanicked _ \<Rightarrow> True | _ \<Rightarrow> False)"

text \<open>The inputs of an adapter that are not the merger's actions on its slot.\<close>

definition own_input :: "ws_input \<Rightarrow> bool" where
  "own_input i \<longleftrightarrow> i \<noteq> ConsumerRecv \<and> i \<noteq> ConsumerDrop"

definition drop_sender :: "'h ws_state \<Rightarrow> 'h ws_state" where
  "drop_sender c = c\<lparr>sender := snd (drop_half (sender c))\<rparr>"

fun pipeline_step ::
    "crates \<Rightarrow> (u64 \<Rightarrow> nat \<Rightarrow> u64) \<Rightarrow> bytes \<Rightarrow> pipeline \<Rightarrow> pipeline_event \<Rightarrow> pipeline" where
  "pipeline_step X rand symbol p (BinanceInput i) =
     (if aborted p \<or> \<not> own_input i then p
      else p\<lparr>binance_feed := ws_step (binance_ws X) rand symbol (binance_feed p) i\<rparr>)"
| "pipeline_step X rand symbol p (BitstampInput i) =
     (if aborted p \<or> \<not> own_input i then p
      else p\<lparr>bitstamp_feed := ws_step (bitstamp_ws X) rand symbol (bitstamp_feed p) i\<rparr>)"
| "pipeline_step X rand symbol p BinanceExits =
     (if aborted p \<or> pc (binance_feed p) \<noteq> Returned \<or> binance_gone p then p
      else p\<lparr>binance_feed := drop_sender (binance_feed p), binance_gone := True\<rparr>)"
| "pipeline_step X rand symbol p BitstampExits =
     (if aborted p \<or> pc (bitstamp_feed p) \<noteq> Returned \<or> bitstamp_gone p then p
      else p\<lparr>bitstamp_feed := drop_sender (bitstamp_feed p), bitstamp_gone := True\<rparr>)"
| "pipeline_step X rand symbol p (MergerCheck cancelled) =
     (if aborted p \<or> merger_at p \<noteq> AtCheck then p
      else p\<lparr>merger_at := if cancelled \<or> list_all is_abandoned (shared p) then Stopped else AtReceiver 0\<rparr>)"
| "pipeline_step X rand symbol p (MergerPoll t0 elapsed) =
     (if aborted p then p
      else case merger_at p of
        AtReceiver i \<Rightarrow>
          (case poll_one X t0 elapsed i ((merger_side p)\<lparr>slots := shared p\<rparr>) of
             Inl q \<Rightarrow> p\<lparr>merger_at := MergerPanicked q\<rparr>
           | Inr c \<Rightarrow>
               p\<lparr>merger_side := c, binance_feed := (binance_feed p)\<lparr>sender := slots c ! 0\<rparr>,
                 bitstamp_feed := (bitstamp_feed p)\<lparr>sender := slots c ! 1\<rparr>,
                 merger_at := if i + 1 < length (shared p) then AtReceiver (i + 1) else AtCheck\<rparr>)
      | _ \<Rightarrow> p)"
| "pipeline_step X rand symbol p MergerExits =
     (if aborted p \<or> merger_at p \<noteq> Stopped \<or> merger_gone p then p
      else p\<lparr>binance_feed := drop_sender (binance_feed p), bitstamp_feed := drop_sender (bitstamp_feed p), merger_gone := True\<rparr>)"

definition pipeline_run ::
    "crates \<Rightarrow> (u64 \<Rightarrow> nat \<Rightarrow> u64) \<Rightarrow> bytes \<Rightarrow> pipeline_event list \<Rightarrow> pipeline" where
  "pipeline_run X rand symbol = foldl (pipeline_step X rand symbol) pipeline_start"

section \<open>Where a book comes from\<close>

text \<open>The book is what the walker of its exchange read from one of the frames of its connection.\<close>

definition from_frame :: "crates \<Rightarrow> pipeline_event list \<Rightarrow> order_book \<Rightarrow> bool" where
  "from_frame X es b \<longleftrightarrow> (\<exists>d t.
     ob_exchange_id b = BINANCE_ID \<and> BinanceInput (TextFrame (ob_decode_start b) d t) \<in> set es
       \<and> (\<exists>seq. binance_walk X t = Inr (Some (seq, ob_bids b, ob_asks b)))
     \<or> ob_exchange_id b = BITSTAMP_ID \<and> BitstampInput (TextFrame (ob_decode_start b) d t) \<in> set es
       \<and> (\<exists>micro. bitstamp_walk X t = Inr (Some (ascii ''data'', micro, ob_bids b, ob_asks b))))"

definition unread_from :: "crates \<Rightarrow> pipeline_event list \<Rightarrow> order_book slot \<Rightarrow> bool" where
  "unread_from X es s \<longleftrightarrow> (\<forall>b. slot_unread s = Some b \<longrightarrow> from_frame X es b)"

definition sourced :: "crates \<Rightarrow> pipeline_event list \<Rightarrow> summary \<Rightarrow> bool" where
  "sourced X es sm \<longleftrightarrow> (\<exists>st. wf_store st \<and> merge X st = Inr sm
     \<and> (\<forall>b\<in>set (store_iter st). from_frame X es b))"

lemma from_frame_mono: "from_frame X es b \<Longrightarrow> set es \<subseteq> set es' \<Longrightarrow> from_frame X es' b"
  unfolding from_frame_def by blast

lemma ws_step_slot:
  assumes "own_input i"
  obtains (same) "sender (ws_step H rand symbol c i) = sender c"
      and "metrics_ok (em c) \<Longrightarrow> metrics_ok (em (ws_step H rand symbol c i))"
  | (frame) t0 d t h s m r where "i = TextFrame t0 d t"
      and "process_text H t0 d t (handler c) (sender c) (em c) = Inr (h, s, m, r)"
      and "sender (ws_step H rand symbol c i) = s"
      and "metrics_ok m \<Longrightarrow> metrics_ok (em (ws_step H rand symbol c i))"
proof (cases "\<exists>t0 d t h s m r. i = TextFrame t0 d t \<and> pc c = Reading
    \<and> process_text H t0 d t (handler c) (sender c) (em c) = Inr (h, s, m, r)")
  case True
  then obtain t0 d t h s m r where t: "i = TextFrame t0 d t" "pc c = Reading"
    "process_text H t0 d t (handler c) (sender c) (em c) = Inr (h, s, m, r)" by blast
  show thesis
    by (rule frame [OF t(1,3)])
      (use t in \<open>simp_all add: ws_step.simps on_text_def metrics_ok_def set_connected_def Let_def split: handle_result.split\<close>)
next
  case False
  show thesis
    by (rule same) (use assms False in \<open>cases i; cases "pc c"; force simp: ws_step.simps on_text_def on_connect_def
        own_input_def metrics_ok_def set_connected_def bump_errors_def bump_reconnections_def Let_def
        split: sum.splits prod.splits\<close>)+
qed

lemma binance_text_slot:
  assumes "external_crates X" and "binance_process_text X t0 d t h s m = Inr (h', s', m', r)"
    and "slot_inv s" and "metrics_ok m"
  shows "slot_inv s' \<and> metrics_ok m' \<and> refcount s' = refcount s
    \<and> em_connected m' = em_connected m \<and> (r = Shutdown \<longrightarrow> is_abandoned s) \<and> (slot_unread s' = slot_unread s
    \<or> (\<exists>seq bids asks. binance_walk X t = Inr (Some (seq, bids, asks)) \<and> slot_unread s'
        = Some \<lparr>ob_exchange_id = BINANCE_ID, ob_bids = bids, ob_asks = asks, ob_decode_start = t0\<rparr>))"
proof (cases rule: external_crates.binance_process_text_eq [OF assms(1,3,4), of t0 d t h, case_names rejected accepted])
  case rejected
  with assms show ?thesis by (auto simp: bump_errors_def metrics_ok_def)
next
  case (accepted seq bids asks s1 m1)
  with assms show ?thesis by (cases "is_abandoned s") auto
qed

lemma bitstamp_text_slot:
  assumes "bitstamp_process_text X t0 d t h s m = Inr (h', s', m', r)" and "slot_inv s" and "metrics_ok m"
  shows "slot_inv s' \<and> metrics_ok m' \<and> refcount s' = refcount s
    \<and> em_connected m' = em_connected m \<and> (r = Shutdown \<longrightarrow> is_abandoned s) \<and> (slot_unread s' = slot_unread s
    \<or> (\<exists>micro bids asks. bitstamp_walk X t = Inr (Some (ascii ''data'', micro, bids, asks)) \<and> slot_unread s'
        = Some \<lparr>ob_exchange_id = BITSTAMP_ID, ob_bids = bids, ob_asks = asks, ob_decode_start = t0\<rparr>))"
proof (cases "\<exists>micro bids asks. bitstamp_walk X t = Inr (Some (ascii ''data'', micro, bids, asks))")
  case False
  with bitstamp_other_event [OF assms(1)] assms(2,3) show ?thesis by (auto simp: bump_errors_def metrics_ok_def)
next
  case True
  then obtain micro bids asks where w: "bitstamp_walk X t = Inr (Some (ascii ''data'', micro, bids, asks))" by blast
  note p = assms(1) [unfolded bitstamp_data_event [OF w]]
  show ?thesis
  proof (cases rule: bitstamp_data_eq [OF assms(2,3), of micro h t0 d bids asks, case_names rejected accepted])
    case rejected
    with p assms show ?thesis by (auto simp: bump_errors_def metrics_ok_def)
  next
    case (accepted s1 m1)
    with p w assms show ?thesis by (cases "is_abandoned s") auto
  qed
qed

lemma poll_one_slots:
  assumes "poll_one X t0 d i c = Inr c'" and "slot_inv (slots c ! i)"
  shows "\<exists>s. slots c' = (slots c)[i := s] \<and> slot_unread s = None"
proof -
  obtain s where s: "slot_recv (slots c ! i) = Inr (slot_unread (slots c ! i), s)" "slot_unread s = None"
    using triple.recv_law [OF assms(2)] by blast
  with assms(1) show ?thesis by (auto simp: poll_one_def Let_def split: sum.splits option.splits)
qed

lemma drop_half_slot [simp]:
  "slot_inv (snd (drop_half s)) = slot_inv s" "slot_unread (snd (drop_half s)) = slot_unread s"
  by (simp_all add: drop_half_def Let_def slot_inv_def roles_ok_def mid_def slot_unread_def load_dirty_def)

lemma stored_books:
  assumes "b' \<in> set (store_iter (evict_stale t0 threshold (store_insert st b)))"
  shows "b' = b \<or> b' \<in> set (store_iter st)"
proof -
  have "Some b' \<in> set (books (store_insert st b))"
    using assms by (auto simp: set_store_iter evict_stale_def dest!: sym [of "Some b'"] simp: evict_slot_cases)
  then show ?thesis
    by (auto simp: set_store_iter store_insert_def Let_def split: if_splits dest: set_update_subset_insert [THEN subsetD])
qed

section \<open>Invariant\<close>

definition side_inv :: "crates \<Rightarrow> pipeline_event list \<Rightarrow> 'h ws_state \<Rightarrow> bool" where
  "side_inv X es c \<longleftrightarrow> slot_inv (sender c) \<and> metrics_ok (em c) \<and> unread_from X es (sender c)"

definition pipeline_inv :: "crates \<Rightarrow> pipeline_event list \<Rightarrow> pipeline \<Rightarrow> bool" where
  "pipeline_inv X es p \<longleftrightarrow> side_inv X es (binance_feed p) \<and> side_inv X es (bitstamp_feed p)
     \<and> merger_inv ((merger_side p)\<lparr>slots := shared p\<rparr>)
     \<and> (\<forall>b\<in>set (store_iter (store (merger_side p))). from_frame X es b)
     \<and> list_all (sourced X es) (summaries (merger_side p))
     \<and> (case merger_at p of MergerPanicked _ \<Rightarrow> False | AtReceiver i \<Rightarrow> i < 2 | _ \<Rightarrow> True)"

lemma pipeline_inv_mono:
  assumes "pipeline_inv X es p" and "set es \<subseteq> set es'"
  shows "pipeline_inv X es' p"
proof -
  note mono = from_frame_mono [OF _ assms(2)]
  then have "list_all (sourced X es') (summaries (merger_side p))"
    using assms(1) unfolding pipeline_inv_def list_all_iff sourced_def by meson
  with assms(1) mono show ?thesis by (auto simp: pipeline_inv_def side_inv_def unread_from_def)
qed

lemma merger_inv_slots:
  "merger_inv c \<Longrightarrow> list_all slot_inv ss \<Longrightarrow> merger_inv (c\<lparr>slots := ss\<rparr>)"
  by (simp add: merger_inv_def)

lemma adapter_step:
  assumes "own_input i" and "side_inv X es c"
    and "\<And>t0 d t h s m r. i = TextFrame t0 d t \<Longrightarrow>
      process_text H t0 d t (handler c) (sender c) (em c) = Inr (h, s, m, r) \<Longrightarrow>
      slot_inv s \<and> metrics_ok m \<and> (slot_unread s = slot_unread (sender c)
        \<or> (\<exists>b. slot_unread s = Some b \<and> from_frame X es b))"
  shows "side_inv X es (ws_step H rand symbol c i)"
proof (cases rule: ws_step_slot [OF assms(1), of H rand symbol c, case_names same frame])
  case same
  with assms(2) show ?thesis by (simp add: side_inv_def)
next
  case (frame t0 d t h s m r)
  with assms(3) [OF frame(1,2)] assms(2) show ?thesis by (auto simp: side_inv_def unread_from_def)
qed

lemma binance_event:
  assumes "external_crates X" and "own_input i" and "side_inv X es c" and "BinanceInput i \<in> set es"
  shows "side_inv X es (ws_step (binance_ws X) rand symbol c i)"
  using assms(2,3)
proof (rule adapter_step)
  fix t0 d t h s m r
  assume i: "i = TextFrame t0 d t"
    and "process_text (binance_ws X) t0 d t (handler c) (sender c) (em c) = Inr (h, s, m, r)"
  then have "binance_process_text X t0 d t (handler c) (sender c) (em c) = Inr (h, s, m, r)"
    by (simp add: binance_ws_def)
  from binance_text_slot [OF assms(1) this] assms(3,4) i
  show "slot_inv s \<and> metrics_ok m \<and> (slot_unread s = slot_unread (sender c)
      \<or> (\<exists>b. slot_unread s = Some b \<and> from_frame X es b))"
    by (fastforce simp: side_inv_def from_frame_def)
qed

lemma bitstamp_event:
  assumes "own_input i" and "side_inv X es c" and "BitstampInput i \<in> set es"
  shows "side_inv X es (ws_step (bitstamp_ws X) rand symbol c i)"
  using assms(1,2)
proof (rule adapter_step)
  fix t0 d t h s m r
  assume i: "i = TextFrame t0 d t"
    and "process_text (bitstamp_ws X) t0 d t (handler c) (sender c) (em c) = Inr (h, s, m, r)"
  then have "bitstamp_process_text X t0 d t (handler c) (sender c) (em c) = Inr (h, s, m, r)"
    by (simp add: bitstamp_ws_def)
  from bitstamp_text_slot [OF this] assms(2,3) i
  show "slot_inv s \<and> metrics_ok m \<and> (slot_unread s = slot_unread (sender c)
      \<or> (\<exists>b. slot_unread s = Some b \<and> from_frame X es b))"
    by (fastforce simp: side_inv_def from_frame_def)
qed

lemma sender_drop [simp]: "sender (drop_sender c) = snd (drop_half (sender c))"
  by (simp add: drop_sender_def)

lemma side_inv_drop: "side_inv X es (drop_sender c) = side_inv X es c"
  by (simp add: side_inv_def drop_sender_def unread_from_def)

lemma side_inv_taken: "side_inv X es c \<Longrightarrow> slot_inv s \<Longrightarrow> slot_unread s = None \<Longrightarrow> side_inv X es (c\<lparr>sender := s\<rparr>)"
  by (simp add: side_inv_def unread_from_def)

text \<open>One turn of the merger's loop over its receivers.\<close>

lemma poll_event:
  assumes X: "external_crates X" and inv: "pipeline_inv X es p" and at: "merger_at p = AtReceiver i"
  obtains c where "poll_one X t0 d i ((merger_side p)\<lparr>slots := shared p\<rparr>) = Inr c" and "merger_inv c"
    and "side_inv X es ((binance_feed p)\<lparr>sender := slots c ! 0\<rparr>)" and "side_inv X es ((bitstamp_feed p)\<lparr>sender := slots c ! 1\<rparr>)"
    and "slots c = [slots c ! 0, slots c ! 1]"
    and "\<forall>b\<in>set (store_iter (store c)). from_frame X es b" and "list_all (sourced X es) (summaries c)"
proof -
  let ?c = "(merger_side p)\<lparr>slots := shared p\<rparr>"
  have i: "i < length (slots ?c)" and m: "merger_inv ?c" and sides: "side_inv X es (binance_feed p)" "side_inv X es (bitstamp_feed p)"
    using inv at by (simp_all add: pipeline_inv_def shared_def)
  have slot: "slot_inv (slots ?c ! i)" using m i by (simp add: merger_inv_def list_all_length)
  have from_books: "from_frame X es b" if "slot_unread (slots ?c ! i) = Some b" for b
    using that i sides by (auto simp: shared_def side_inv_def unread_from_def less_2_cases_iff numeral_2_eq_2 less_Suc_eq)
  obtain c where c: "poll_one X t0 d i ?c = Inr c" "merger_inv c"
    "(\<forall>b\<in>set (store_iter (store c)). from_frame X es b) \<and> list_all (sourced X es) (summaries c)"
  proof (cases rule: poll_one_cases [OF X m i, of t0 d, case_names idle book])
    case (idle s)
    with inv show thesis by (intro that [of "?c\<lparr>slots := (slots ?c)[i := s]\<rparr>"]) (simp_all add: pipeline_inv_def)
  next
    case (book b sm c')
    have books: "\<forall>b\<in>set (store_iter (store c')). from_frame X es b"
      using stored_books [of _ t0 STALE_THRESHOLD "store (merger_side p)" b] from_books [OF book(1)] inv
      by (auto simp: book(4) pipeline_inv_def)
    moreover have "sourced X es sm"
      unfolding sourced_def using books book(3,5) by (metis merger_inv_def)
    ultimately show thesis using book inv by (intro that [of c']) (auto simp: pipeline_inv_def)
  qed
  obtain s where s: "slots c = (shared p)[i := s]" "slot_unread s = None"
    using poll_one_slots [OF c(1) slot] by auto
  have "slot_inv s" using c(2) i by (auto simp: merger_inv_def s(1) shared_def list_all_iff less_Suc_eq)
  with s sides i show thesis
    by (intro that [OF c(1,2)]) (use c(3) in \<open>auto simp: shared_def less_Suc_eq intro: side_inv_taken\<close>)
qed

lemma pipeline_step_inv:
  assumes X: "external_crates X" and inv: "pipeline_inv X es p" and e: "e \<in> set es"
  shows "pipeline_inv X es (pipeline_step X rand symbol p e)"
proof (cases e)
  case (BinanceInput i)
  with binance_event [OF X _ _ e [unfolded BinanceInput]] inv show ?thesis
    by (auto simp: pipeline_inv_def shared_def side_inv_def merger_inv_def)
next
  case (BitstampInput i)
  with bitstamp_event [OF _ _ e [unfolded BitstampInput]] inv show ?thesis
    by (auto simp: pipeline_inv_def shared_def side_inv_def merger_inv_def)
next
  case (MergerPoll t0 d)
  show ?thesis
  proof (cases "\<exists>i. merger_at p = AtReceiver i")
    case True
    then obtain i where at: "merger_at p = AtReceiver i" by blast
    obtain c where c: "poll_one X t0 d i ((merger_side p)\<lparr>slots := shared p\<rparr>) = Inr c" "merger_inv c"
      "side_inv X es ((binance_feed p)\<lparr>sender := slots c ! 0\<rparr>)" "side_inv X es ((bitstamp_feed p)\<lparr>sender := slots c ! 1\<rparr>)"
      "slots c = [slots c ! 0, slots c ! 1]"
      "\<forall>b\<in>set (store_iter (store c)). from_frame X es b" "list_all (sourced X es) (summaries c)"
      by (rule poll_event [OF X inv at])
    have "c\<lparr>slots := [slots c ! 0, slots c ! 1]\<rparr> = c" using c(5) by simp
    with MergerPoll at c inv show ?thesis
      by (auto simp: pipeline_inv_def shared_def)
  next
    case False
    with MergerPoll inv show ?thesis by (cases "merger_at p") simp_all
  qed
qed (use inv in \<open>auto simp: pipeline_inv_def shared_def merger_inv_def side_inv_drop\<close>)

lemma pipeline_inv_run: "external_crates X \<Longrightarrow> pipeline_inv X es (pipeline_run X rand symbol es)"
proof (induction es rule: rev_induct)
  case Nil
  show ?case
    using ws_inv_start [of BINANCE_ID binance_new "ascii ''binance''"] ws_inv_start [of BITSTAMP_ID bitstamp_new "ascii ''bitstamp''"]
      merger_inv_start [of "[slot_new, slot_new]"]
    by (simp add: pipeline_run_def pipeline_start_def pipeline_inv_def side_inv_def shared_def merger_start_def
        binance_start_def bitstamp_start_def ws_inv_def ws_init_def unread_from_def slot_unread_def slot_new_simps
        store_new_def store_iter_def map_filter_def)
next
  case (snoc e es)
  then have "pipeline_inv X (es @ [e]) (pipeline_run X rand symbol es)" by (auto intro: pipeline_inv_mono)
  from pipeline_step_inv [OF snoc.prems this] show ?case by (simp add: pipeline_run_def)
qed

section \<open>The reference counts\<close>

lemma refcount_recv: "slot_recv s = Inr (r, s') \<Longrightarrow> refcount s' = refcount s"
  by (auto simp: slot_recv_def take_swap_def Let_def split: if_splits dest: refcount_take)

lemma binance_step_refcount:
  assumes "external_crates X" and "own_input i" and "side_inv X es c"
  shows "refcount (sender (ws_step (binance_ws X) rand symbol c i)) = refcount (sender c)"
proof (cases rule: ws_step_slot [OF assms(2), of "binance_ws X" rand symbol c, case_names same frame])
  case (frame t0 d t h s m r)
  with binance_text_slot [OF assms(1)] assms(3) show ?thesis by (auto simp: binance_ws_def side_inv_def)
qed simp

lemma bitstamp_step_refcount:
  assumes "own_input i" and "side_inv X es c"
  shows "refcount (sender (ws_step (bitstamp_ws X) rand symbol c i)) = refcount (sender c)"
proof (cases rule: ws_step_slot [OF assms(1), of "bitstamp_ws X" rand symbol c, case_names same frame])
  case (frame t0 d t h s m r)
  with bitstamp_text_slot assms(2) show ?thesis by (auto simp: bitstamp_ws_def side_inv_def)
qed simp

lemma poll_one_refcount:
  assumes "poll_one X t0 d i c = Inr c'"
  shows "\<exists>s. slots c' = (slots c)[i := s] \<and> refcount s = refcount (slots c ! i)"
  using assms by (auto simp: poll_one_def Let_def dest: refcount_recv split: sum.splits option.splits prod.splits)

definition counts_ok :: "pipeline \<Rightarrow> bool" where
  "counts_ok p \<longleftrightarrow> refcount (sender (binance_feed p)) = (if binance_gone p then 0 else 1) + (if merger_gone p then 0 else 1)
     \<and> refcount (sender (bitstamp_feed p)) = (if bitstamp_gone p then 0 else 1) + (if merger_gone p then 0 else 1)"

lemma counts_ok_step:
  assumes X: "external_crates X" and inv: "pipeline_inv X es p" and counts: "counts_ok p"
  shows "counts_ok (pipeline_step X rand symbol p e)"
proof (cases e)
  case (BinanceInput i)
  with binance_step_refcount [OF X, of i es "binance_feed p"] inv counts show ?thesis
    by (simp add: counts_ok_def pipeline_inv_def)
next
  case (BitstampInput i)
  with bitstamp_step_refcount [of i X es "bitstamp_feed p"] inv counts show ?thesis
    by (simp add: counts_ok_def pipeline_inv_def)
next
  case (MergerPoll t0 d)
  show ?thesis
  proof (cases "\<exists>i. merger_at p = AtReceiver i")
    case True
    then obtain i where at: "merger_at p = AtReceiver i" by blast
    then have "i < 2" using inv by (simp add: pipeline_inv_def)
    obtain c where c: "poll_one X t0 d i ((merger_side p)\<lparr>slots := shared p\<rparr>) = Inr c"
      by (rule poll_event [OF X inv at])
    with poll_one_refcount [OF c] \<open>i < 2\<close> MergerPoll at counts show ?thesis
      by (auto simp: counts_ok_def shared_def less_2_cases_iff)
  next
    case False
    with MergerPoll counts show ?thesis by (cases "merger_at p") simp_all
  qed
qed (use counts in \<open>auto simp: counts_ok_def drop_half_def\<close>)

lemma counts_ok_run: "external_crates X \<Longrightarrow> counts_ok (pipeline_run X rand symbol es)"
proof (induction es rule: rev_induct)
  case Nil
  show ?case by (simp add: pipeline_run_def pipeline_start_def counts_ok_def binance_start_def bitstamp_start_def
      ws_init_def slot_new_def)
next
  case (snoc e es)
  then show ?case
    using counts_ok_step [OF snoc.prems pipeline_inv_run [OF snoc.prems]] by (simp add: pipeline_run_def)
qed

section \<open>Properties\<close>

text \<open>A level of a summary stands in a frame of the exchange it is attributed to, on that side.\<close>

definition in_frames :: "crates \<Rightarrow> pipeline_event list \<Rightarrow> (order_book \<Rightarrow> raw_level list) \<Rightarrow> level \<Rightarrow> bool" where
  "in_frames X es side l \<longleftrightarrow> (\<exists>b. from_frame X es b \<and> ob_exchange_id b = lv_exchange_id l \<and> unstamp l \<in> set (side b))"

lemma sourced_in_frames:
  assumes "external_crates X" and "sourced X es sm"
  shows "list_all (in_frames X es ob_bids) (sm_bids sm) \<and> list_all (in_frames X es ob_asks) (sm_asks sm)"
proof -
  obtain st where st: "wf_store st" "merge X st = Inr sm" "\<forall>b\<in>set (store_iter st). from_frame X es b"
    using assms(2) unfolding sourced_def by blast
  obtain sm' where "merge X st = Inr sm'" "mset (sm_bids sm') \<subseteq># mset (side_levels ob_bids st)"
    "mset (sm_asks sm') \<subseteq># mset (side_levels ob_asks st)"
    by (rule merge_conserves [OF assms(1) wf_store_length [OF st(1)]])
  then have "set (sm_bids sm) \<subseteq> set (side_levels ob_bids st)" "set (sm_asks sm) \<subseteq> set (side_levels ob_asks st)"
    using st(2) by (auto dest!: set_mset_mono)
  moreover have "in_frames X es side l" if "l \<in> set (side_levels side st)" for side l
  proof -
    from that obtain b r where "b \<in> set (store_iter st)" "r \<in> set (side b)" "l = stamp (ob_exchange_id b) r"
      by (auto simp: side_levels_def)
    with st(3) show ?thesis by (intro in_frames_def [THEN iffD2] exI [of _ b]) (simp, simp add: stamp_def)
  qed
  ultimately show ?thesis by (auto simp: list_all_iff)
qed

text \<open>
  The \<open>k\<close>-th summary of a run is published by one poll of the merger, at the clock reading \<open>now\<close> of that
  poll: it is the merge of the store the poll leaves, whose books were read from frames that arrived before
  and are not stale at \<open>now\<close>.
\<close>

definition published_fresh ::
    "crates \<Rightarrow> (u64 \<Rightarrow> nat \<Rightarrow> u64) \<Rightarrow> bytes \<Rightarrow> pipeline_event list \<Rightarrow> nat \<Rightarrow> bool" where
  "published_fresh X rand symbol es k \<longleftrightarrow> (\<exists>before now elapsed after. es = before @ MergerPoll now elapsed # after
     \<and> (let c = merger_side (pipeline_run X rand symbol before);
            c' = merger_side (pipeline_run X rand symbol (before @ [MergerPoll now elapsed])) in
        length (summaries c) = k \<and> length (summaries c') = k + 1
        \<and> merge X (store c') = Inr (summaries (merger_side (pipeline_run X rand symbol es)) ! k)
        \<and> wf_store (store c') \<and> fresh_store now (store c') \<and> (\<forall>b\<in>set (store_iter (store c')). from_frame X before b)))"

lemma pipeline_run_snoc: "pipeline_run X rand symbol (es @ [e]) = pipeline_step X rand symbol (pipeline_run X rand symbol es) e"
  by (simp add: pipeline_run_def)

lemma step_summaries:
  assumes X: "external_crates X" and inv: "pipeline_inv X es p"
  obtains (same) "summaries (merger_side (pipeline_step X rand symbol p e)) = summaries (merger_side p)"
  | (publish) now elapsed sm where "e = MergerPoll now elapsed"
      and "summaries (merger_side (pipeline_step X rand symbol p e)) = summaries (merger_side p) @ [sm]"
      and "merge X (store (merger_side (pipeline_step X rand symbol p e))) = Inr sm"
      and "fresh_store now (store (merger_side (pipeline_step X rand symbol p e)))"
proof (cases "\<exists>now elapsed i. e = MergerPoll now elapsed \<and> merger_at p = AtReceiver i \<and> \<not> aborted p")
  case True
  then obtain now elapsed i where e: "e = MergerPoll now elapsed" and at: "merger_at p = AtReceiver i" "\<not> aborted p" by blast
  have m: "merger_inv ((merger_side p)\<lparr>slots := shared p\<rparr>)" and i: "i < length (slots ((merger_side p)\<lparr>slots := shared p\<rparr>))"
    using inv at(1) by (simp_all add: pipeline_inv_def shared_def)
  show thesis
  proof (cases rule: poll_one_cases [OF X m i, of now elapsed, case_names idle book])
    case (idle s)
    with e at show thesis by (intro same) simp
  next
    case (book b sm c')
    with e at fresh_after_eviction [of now "store_insert (store (merger_side p)) b"] show thesis
      by (intro publish [of now elapsed sm]) simp_all
  qed
next
  case False
  then show thesis by (intro same) (cases e; cases "merger_at p"; simp)
qed

lemma published_fresh_extend:
  assumes "published_fresh X rand symbol es k"
    and "summaries (merger_side (pipeline_run X rand symbol (es @ [e]))) ! k = summaries (merger_side (pipeline_run X rand symbol es)) ! k"
  shows "published_fresh X rand symbol (es @ [e]) k"
proof -
  obtain before now elapsed after where "es = before @ MergerPoll now elapsed # after"
    and "let c = merger_side (pipeline_run X rand symbol before);
            c' = merger_side (pipeline_run X rand symbol (before @ [MergerPoll now elapsed])) in
        length (summaries c) = k \<and> length (summaries c') = k + 1
        \<and> merge X (store c') = Inr (summaries (merger_side (pipeline_run X rand symbol (es @ [e]))) ! k)
        \<and> wf_store (store c') \<and> fresh_store now (store c') \<and> (\<forall>b\<in>set (store_iter (store c')). from_frame X before b)"
    using assms(1) unfolding published_fresh_def assms(2) by blast
  moreover from this(1) have "es @ [e] = before @ MergerPoll now elapsed # (after @ [e])" by simp
  ultimately show ?thesis unfolding published_fresh_def by blast
qed

lemma from_frame_poll [simp]: "from_frame X (es @ [MergerPoll now elapsed]) b = from_frame X es b"
  by (simp add: from_frame_def)

lemma all_published_fresh:
  assumes X: "external_crates X"
  shows "k < length (summaries (merger_side (pipeline_run X rand symbol es))) \<Longrightarrow> published_fresh X rand symbol es k"
proof (induction es rule: rev_induct)
  case Nil
  then show ?case by (simp add: pipeline_run_def pipeline_start_def merger_start_def)
next
  case (snoc e es)
  let ?p = "pipeline_run X rand symbol es" and ?p' = "pipeline_run X rand symbol (es @ [e])"
  show ?case
  proof (cases rule: step_summaries [OF X pipeline_inv_run [OF X, of es rand symbol], of rand symbol e, folded pipeline_run_snoc, case_names same publish])
    case same
    with snoc show ?thesis by (intro published_fresh_extend) simp_all
  next
    case (publish now elapsed sm)
    show ?thesis
    proof (cases "k < length (summaries (merger_side ?p))")
      case True
      with snoc.IH publish(2) show ?thesis by (intro published_fresh_extend) (simp_all add: nth_append)
    next
      case False
      with snoc.prems publish(2) have k: "length (summaries (merger_side ?p)) = k" by simp
      have "pipeline_inv X (es @ [e]) ?p'" by (rule pipeline_inv_run [OF X])
      then have "wf_store (store (merger_side ?p'))" "\<forall>b\<in>set (store_iter (store (merger_side ?p'))). from_frame X es b"
        by (simp_all add: pipeline_inv_def merger_inv_def publish(1))
      with k publish show ?thesis
        unfolding published_fresh_def by (intro exI [of _ es] exI [of _ now] exI [of _ elapsed] exI [of _ "[]"]) (simp add: nth_append)
    qed
  qed
qed

text \<open>
  C4. Nothing is invented. In every interleaving of the two adapters and the merger, whatever the
  connections do and whatever the frames contain, the merger does not panic, and each summary is published by
  a poll that merges fresh books: none older than the threshold at the clock reading of that poll, at most one
  of each exchange, each read from one frame of that exchange that arrived before; so every level
  clients see stood in a frame of the exchange named with it, on the same side.
\<close>

theorem nothing_invented:
  assumes "external_crates X"
  shows "(\<forall>q. merger_at (pipeline_run X rand symbol es) \<noteq> MergerPanicked q)
    \<and> (\<forall>k<length (summaries (merger_side (pipeline_run X rand symbol es))). published_fresh X rand symbol es k)
    \<and> list_all (\<lambda>sm. list_all (in_frames X es ob_bids) (sm_bids sm) \<and> list_all (in_frames X es ob_asks) (sm_asks sm))
        (summaries (merger_side (pipeline_run X rand symbol es)))"
proof -
  have inv: "pipeline_inv X es (pipeline_run X rand symbol es)" by (rule pipeline_inv_run [OF assms])
  then have "list_all (sourced X es) (summaries (merger_side (pipeline_run X rand symbol es)))" by (simp add: pipeline_inv_def)
  then have "list_all (\<lambda>sm. list_all (in_frames X es ob_bids) (sm_bids sm)
      \<and> list_all (in_frames X es ob_asks) (sm_asks sm)) (summaries (merger_side (pipeline_run X rand symbol es)))"
    by (rule list.pred_mono_strong) (rule sourced_in_frames [OF assms])
  moreover have "\<forall>q. merger_at (pipeline_run X rand symbol es) \<noteq> MergerPanicked q"
    using inv by (auto simp: pipeline_inv_def)
  ultimately show ?thesis using all_published_fresh [OF assms] by simp
qed

text \<open>A Binance frame on its way to the first summary.\<close>

definition first_events :: "pipeline_event list" where
  "first_events = [BinanceInput (Check False), BinanceInput ConnectOk, BinanceInput (TextFrame 5 1 frame_160),
     MergerCheck False, MergerPoll 10 1]"

abbreviation first_step ::
    "(u64 \<Rightarrow> nat \<Rightarrow> u64) \<Rightarrow> bytes \<Rightarrow> binance_handler ws_state \<Rightarrow> ws_input \<Rightarrow> binance_handler ws_state" where
  "first_step rand symbol \<equiv> ws_step (binance_ws reference_crates) rand symbol"

lemma first_frame:
  fixes rand symbol
  defines "c \<equiv> first_step rand symbol (first_step rand symbol binance_start (Check False)) ConnectOk"
  obtains b where "pc c = Reading" and "slot_unread (sender (first_step rand symbol c (TextFrame 5 1 frame_160))) = Some b"
    and "slot_inv (sender (first_step rand symbol c (TextFrame 5 1 frame_160)))"
    and "pc (first_step rand symbol c (TextFrame 5 1 frame_160)) = Reading"
proof -
  have c: "pc c = Reading" "sender c = slot_new" "last_seq (handler c) = 0" "metrics_ok (em c)"
    by (simp_all add: c_def ws_step.simps binance_start_def ws_init_def on_connect_def binance_ws_def Let_def
        binance_on_connected_def metrics_ok_def exchange_metrics_new_def set_connected_def)
  have new: "slot_inv (sender c)" "\<not> is_abandoned (sender c)"
    by (simp_all add: c(2) slot_inv_def slot_new_simps) (simp add: is_abandoned_def slot_new_def)
  have walk: "binance_walk reference_crates frame_160 = Inr (Some (160, [one_level], []))"
    using external_crates.binance_walk_frame [OF reference.external_crates_axioms _ frame_160_levels list.rel_intros(1)
        length_frame_160 [unfolded frame_160_def]]
    by (simp add: frame_160_def nonzero_def one_level_def DEPTH_def)
  show thesis
  proof (cases rule: external_crates.binance_process_text_eq [OF reference.external_crates_axioms new(1) c(4),
        of 5 1 frame_160 "handler c", case_names rejected accepted])
    case rejected
    with c(3) walk show thesis by simp
  next
    case (accepted seq bids asks s' m')
    with c new show thesis
      by (intro that) (auto simp: ws_step.simps on_text_def binance_ws_def Let_def)
  qed
qed

text \<open>The adapter has sent its book; the merger has not looked yet.\<close>

abbreviation first_frames :: "pipeline_event list" where
  "first_frames \<equiv> [BinanceInput (Check False), BinanceInput ConnectOk, BinanceInput (TextFrame 5 1 frame_160)]"

lemma first_sent:
  obtains c b where "slot_unread (sender c) = Some b" and "slot_inv (sender c)" and "pc c = Reading"
    and "pipeline_run reference_crates rand symbol first_frames = pipeline_start\<lparr>binance_feed := c\<rparr>"
    and "\<not> aborted (pipeline_start\<lparr>binance_feed := c\<rparr>)"
proof -
  let ?next = "pipeline_step reference_crates rand symbol" and ?start = "\<lambda>c. pipeline_start\<lparr>binance_feed := c\<rparr>"
  let ?c1 = "first_step rand symbol binance_start (Check False)"
  let ?c2 = "first_step rand symbol ?c1 ConnectOk"
  let ?c3 = "first_step rand symbol ?c2 (TextFrame 5 1 frame_160)"
  obtain b where c3: "pc ?c2 = Reading" "slot_unread (sender ?c3) = Some b" "slot_inv (sender ?c3)" "pc ?c3 = Reading"
    by (rule first_frame)
  have calm: "\<not> aborted (?start c)" if "pc c \<in> {AtTop, Connecting, Reading}" for c
    using that by (auto simp: aborted_def pipeline_start_def bitstamp_start_def ws_init_def)
  have start: "pipeline_start = ?start binance_start" by (simp add: pipeline_start_def)
  have step: "?next (?start c) (BinanceInput i) = ?start (first_step rand symbol c i)"
    if "own_input i" "pc c \<in> {AtTop, Connecting, Reading}" for c i
    using that(1) calm [OF that(2)] by simp
  have own: "own_input (Check False)" "own_input ConnectOk" "own_input (TextFrame 5 1 frame_160)"
    by (simp_all add: own_input_def)
  have pcs: "pc binance_start \<in> {AtTop, Connecting, Reading}" "pc ?c1 \<in> {AtTop, Connecting, Reading}"
    "pc ?c2 \<in> {AtTop, Connecting, Reading}"
    by (simp_all add: c3(1)) (simp_all add: binance_start_def ws_init_def ws_step.simps)
  have "pipeline_run reference_crates rand symbol first_frames = ?start ?c3"
    by (simp only: pipeline_run_def foldl.simps step [OF own(1) pcs(1), folded start]
        step [OF own(2) pcs(2)] step [OF own(3) pcs(3)])
  with c3 calm [of ?c3] show thesis by (intro that [of ?c3 b]) simp_all
qed

lemma first_run:
  obtains c b where "slot_unread (sender c) = Some b" and "slot_inv (sender c)" and "pc c = Reading"
    and "pipeline_run reference_crates rand symbol first_events
      = pipeline_step reference_crates rand symbol (pipeline_start\<lparr>binance_feed := c, merger_at := AtReceiver 0\<rparr>) (MergerPoll 10 1)"
proof -
  obtain c b where c: "slot_unread (sender c) = Some b" "slot_inv (sender c)" "pc c = Reading"
    "pipeline_run reference_crates rand symbol first_frames = pipeline_start\<lparr>binance_feed := c\<rparr>"
    "\<not> aborted (pipeline_start\<lparr>binance_feed := c\<rparr>)" by (rule first_sent)
  have "pipeline_step reference_crates rand symbol (pipeline_start\<lparr>binance_feed := c\<rparr>) (MergerCheck False)
      = pipeline_start\<lparr>binance_feed := c, merger_at := AtReceiver 0\<rparr>"
    using c(5) by (simp add: shared_def) (simp add: pipeline_start_def bitstamp_start_def ws_init_def is_abandoned_def slot_new_def)
  with c(4) have "pipeline_run reference_crates rand symbol first_events
      = pipeline_step reference_crates rand symbol (pipeline_start\<lparr>binance_feed := c, merger_at := AtReceiver 0\<rparr>) (MergerPoll 10 1)"
    by (simp add: pipeline_run_def first_events_def del: pipeline_step.simps)
  with c show thesis by (intro that [of c b])
qed

lemma first_summary:
  obtains sm where "summaries (merger_side (pipeline_run reference_crates rand symbol first_events)) = [sm]"
proof -
  obtain c b where c: "slot_unread (sender c) = Some b" "slot_inv (sender c)" "pc c = Reading"
    and run: "pipeline_run reference_crates rand symbol first_events
      = pipeline_step reference_crates rand symbol (pipeline_start\<lparr>binance_feed := c, merger_at := AtReceiver 0\<rparr>) (MergerPoll 10 1)"
    by (rule first_run)
  let ?p = "pipeline_start\<lparr>binance_feed := c, merger_at := AtReceiver 0\<rparr>"
  let ?m = "(merger_side ?p)\<lparr>slots := shared ?p\<rparr>"
  have m: "merger_inv ?m" "0 < length (slots ?m)" "slot_unread (slots ?m ! 0) = Some b" "summaries ?m = []"
    using c merger_inv_start [of "[sender c, sender bitstamp_start]"]
    by (simp_all add: pipeline_start_def shared_def merger_start_def bitstamp_start_def ws_init_def slot_inv_def
        slot_new_simps)
  obtain sm c' where "poll_one reference_crates 10 1 0 ?m = Inr c'" "summaries c' = [sm]"
  proof (cases rule: poll_one_cases [OF reference.external_crates_axioms m(1,2), of 10 1, case_names idle book])
    case (idle s)
    with m(3) show thesis by simp
  next
    case (book b' sm c')
    with m(4) show thesis by (intro that [of c' sm]) simp_all
  qed
  then show thesis
    using c(3) by (intro that [of sm])
      (simp add: run, simp add: pipeline_start_def aborted_def bitstamp_start_def ws_init_def)
qed

theorem nothing_invented_witness:
  "\<exists>sm. summaries (merger_side (pipeline_run reference_crates (\<lambda>n g. 0) (ascii ''ethbtc'') first_events)) = [sm]
    \<and> published_fresh reference_crates (\<lambda>n g. 0) (ascii ''ethbtc'') first_events 0 \<and> list_all (in_frames reference_crates first_events ob_bids) (sm_bids sm)"
proof -
  obtain sm where "summaries (merger_side (pipeline_run reference_crates (\<lambda>n g. 0) (ascii ''ethbtc'') first_events)) = [sm]"
    by (rule first_summary)
  with nothing_invented [OF reference.external_crates_axioms, of "\<lambda>n g. 0" "ascii ''ethbtc''" first_events]
  show ?thesis by auto
qed

text \<open>
  C36. Each thread learns exactly when the other has gone: while a half is alive, \<open>is_abandoned\<close> holds if
  and only if the other half has been dropped, in every interleaving; and at the head of its loop the
  merger stops without a cancellation exactly when both adapters have gone.
\<close>

theorem abandonment_exact:
  fixes X rand symbol es
  assumes "external_crates X"
  defines "p \<equiv> pipeline_run X rand symbol es"
  shows "(is_abandoned (sender (binance_feed p)) \<longleftrightarrow> binance_gone p \<noteq> merger_gone p)
    \<and> (is_abandoned (sender (bitstamp_feed p)) \<longleftrightarrow> bitstamp_gone p \<noteq> merger_gone p)
    \<and> (\<not> aborted p \<and> merger_at p = AtCheck \<and> \<not> merger_gone p \<longrightarrow>
        merger_at (pipeline_step X rand symbol p (MergerCheck False))
          = (if binance_gone p \<and> bitstamp_gone p then Stopped else AtReceiver 0))"
  using counts_ok_run [OF assms(1), of rand symbol es]
  by (auto simp: p_def [symmetric] counts_ok_def is_abandoned_def shared_def split: if_splits)

theorem abandonment_exact_witness:
  "is_abandoned (sender (binance_feed (pipeline_run reference_crates (\<lambda>n g. 0) [] [MergerCheck True, MergerExits])))"
proof -
  let ?p = "pipeline_run reference_crates (\<lambda>n g. 0) [] [MergerCheck True, MergerExits]"
  have "binance_gone ?p \<noteq> merger_gone ?p"
    by (simp add: pipeline_run_def pipeline_start_def aborted_def binance_start_def bitstamp_start_def ws_init_def)
  then show ?thesis
    using abandonment_exact [OF reference.external_crates_axioms, of "\<lambda>n g. 0" "[]" "[MergerCheck True, MergerExits]"]
    by blast
qed

end
