(* ===== verification/Float64.thy ===== *)
theory Float64
  imports FixedPoint "HOL-Library.Log_Nat"
begin

text \<open>
  The \<open>f64\<close> conversions of \<open>src/types.rs\<close>. A finite double is the rational number it denotes; an
  operation is the exact result rounded to a significand of 53 bits, ties to even, as IEEE 754 asks.
  The values here are 0 or between \<open>10 ^ -8\<close> and \<open>2 ^ 64\<close>, so there is neither overflow nor a subnormal
  number, and the exponent is unbounded in the model.
\<close>

section \<open>Rounding\<close>

type_synonym f64 = rat

text \<open>The exponent of a positive number: \<open>2 ^ ilog2 r \<le> r < 2 ^ (ilog2 r + 1)\<close>.\<close>

definition ilog2 :: "rat \<Rightarrow> int" where
  "ilog2 r =
     (let (p, q) = quotient_of r; k = bitlen p - bitlen q in if r < 2 powi k then k - 1 else k)"

definition round_half_even :: "rat \<Rightarrow> int" where
  "round_half_even x =
     (let f = \<lfloor>x\<rfloor>; d = x - of_int f in if d < 1 / 2 \<or> d = 1 / 2 \<and> even f then f else f + 1)"

definition round_f64 :: "rat \<Rightarrow> f64" where
  "round_f64 x =
     (if x = 0 then 0
      else let e = ilog2 \<bar>x\<bar> - 52 in of_int (round_half_even (x / 2 powi e)) * 2 powi e)"

section \<open>The conversions\<close>

definition scale_f64 :: f64 where
  "scale_f64 = round_f64 (of_nat (unat SCALE))"

definition to_f64 :: "fixed_point \<Rightarrow> f64" where
  "to_f64 x = round_f64 (round_f64 (of_nat (unat (raw x))) / scale_f64)"

definition spread_to_f64 :: "64 word \<Rightarrow> f64" where
  "spread_to_f64 w = round_f64 (round_f64 (of_int (sint w)) / scale_f64)"

text \<open>\<open>f64::round\<close>, half away from zero, and the saturating \<open>as u64\<close> of a non-negative number.\<close>

definition round_half_away :: "rat \<Rightarrow> int" where
  "round_half_away x = (if 0 \<le> x then \<lfloor>x + 1 / 2\<rfloor> else - \<lfloor>1 / 2 - x\<rfloor>)"

definition cast_u64 :: "int \<Rightarrow> u64" where
  "cast_u64 i = (if i < 0 then 0 else if i < 2 ^ 64 then of_int i else - 1)"

definition from_f64 :: "f64 \<Rightarrow> fixed_point run" where
  "from_f64 v =
     (if \<not> 0 \<le> v then Inl AssertionFailed
      else Inr (FixedPoint (cast_u64 (round_half_away (round_f64 (v * scale_f64))))))"

section \<open>Properties of rounding\<close>

lemma round_half_even_near:
  "of_int (round_half_even x) \<le> x + 1 / 2" "x - 1 / 2 \<le> of_int (round_half_even x)"
proof -
  have "of_int \<lfloor>x\<rfloor> \<le> x" "x < of_int \<lfloor>x\<rfloor> + 1" by linarith+
  then show "of_int (round_half_even x) \<le> x + 1 / 2" "x - 1 / 2 \<le> of_int (round_half_even x)"
    by (auto simp: round_half_even_def Let_def; linarith)+
qed

lemma round_half_even_mono:
  assumes "x \<le> y"
  shows "round_half_even x \<le> round_half_even y"
proof (cases "\<lfloor>x\<rfloor> = \<lfloor>y\<rfloor>")
  case True
  with assms show ?thesis by (auto simp: round_half_even_def Let_def)
next
  case False
  with floor_mono [OF assms] have "\<lfloor>x\<rfloor> + 1 \<le> \<lfloor>y\<rfloor>" by linarith
  then show ?thesis by (auto simp: round_half_even_def Let_def)
qed

lemma round_half_even_int [simp]: "round_half_even (of_int i) = i"
  by (simp add: round_half_even_def)

lemma bitlen_range:
  assumes "0 < (p :: int)"
  shows "2 powi (bitlen p - 1) \<le> (of_int p :: rat)" and "of_int p < (2 :: rat) powi bitlen p"
proof -
  have b: "2 ^ nat (bitlen p - 1) \<le> p" "p < 2 ^ nat (bitlen p)"
    using bitlen_bounds [OF assms] by simp_all
  have n: "0 \<le> bitlen p - 1" "0 \<le> bitlen p" using bitlen_ge_iff_power [of 1 p] assms by simp_all
  have "(of_int (2 ^ nat (bitlen p - 1)) :: rat) \<le> of_int p" using b(1) by (simp only: of_int_le_iff)
  then show "2 powi (bitlen p - 1) \<le> (of_int p :: rat)" using n by (simp add: power_int_def)
  have "of_int p < (of_int (2 ^ nat (bitlen p)) :: rat)" using b(2) by (simp only: of_int_less_iff)
  then show "of_int p < (2 :: rat) powi bitlen p" using n by (simp add: power_int_def)
qed

lemma ilog2_range:
  assumes "0 < r"
  shows "2 powi ilog2 r \<le> r" and "r < 2 powi (ilog2 r + 1)"
proof -
  obtain p q where pq: "quotient_of r = (p, q)" by (cases "quotient_of r")
  have q: "0 < q" by (rule quotient_of_denom_pos [OF pq])
  have r: "r = of_int p / of_int q" by (rule quotient_of_div [OF pq])
  have p: "0 < p" using assms q by (simp add: r zero_less_divide_iff)
  define k where "k = bitlen p - bitlen q"
  have pow: "(2 :: rat) powi (k - 1) = 2 powi (bitlen p - 1) / 2 powi bitlen q"
    "(2 :: rat) powi (k + 1) = 2 powi bitlen p / 2 powi (bitlen q - 1)"
    by (simp_all add: k_def power_int_diff power_int_add)
  have "2 powi (bitlen p - 1) / 2 powi bitlen q \<le> of_int p / (of_int q :: rat)"
    using bitlen_range [OF p] bitlen_range [OF q] p q by (intro frac_le) auto
  moreover have "of_int p / of_int q < (2 :: rat) powi bitlen p / 2 powi (bitlen q - 1)"
    using bitlen_range [OF p] bitlen_range [OF q] p by (intro frac_less) auto
  ultimately have "2 powi (k - 1) \<le> r" "r < 2 powi (k + 1)" by (simp_all only: pow r)
  moreover have "ilog2 r = (if r < 2 powi k then k - 1 else k)" by (simp add: ilog2_def pq k_def)
  ultimately show "2 powi ilog2 r \<le> r" and "r < 2 powi (ilog2 r + 1)" by (auto split: if_splits)
qed


lemma power2_less: "(2 :: rat) powi a < 2 powi b \<Longrightarrow> a < b"
  using power_int_increasing [of b a "2 :: rat"] by (cases "b \<le> a") auto

lemma exact_below_53:
  assumes "\<bar>i\<bar> < 2 ^ 53"
  shows "round_f64 (of_int i) = of_int i"
proof (cases "i = 0")
  case False
  define e where "e = ilog2 \<bar>of_int i\<bar>"
  have pos: "0 < \<bar>of_int i :: rat\<bar>" using False by simp
  have "\<bar>of_int i :: rat\<bar> < 2 powi 53"
    using assms by (simp add: power_int_def)
  with ilog2_range(1) [OF pos] have "(2 :: rat) powi e < 2 powi 53" by (simp add: e_def)
  then have "e < 53" by (rule power2_less)
  then have "e - 52 \<le> 0" by simp
  then obtain n :: nat where n: "e - 52 = - int n" by (metis int_nat_eq neg_le_0_iff_le nonpos_int_cases)
  have "of_int i / 2 powi (e - 52) = (of_int (i * 2 ^ n) :: rat)"
    by (simp add: n power_int_minus divide_inverse)
  then have "round_half_even (of_int i / 2 powi (e - 52)) = i * 2 ^ n" by (simp only: round_half_even_int)
  then show ?thesis using False
    by (simp add: round_f64_def e_def [symmetric] n power_int_minus)
qed (simp add: round_f64_def)

lemma scale_f64_value: "scale_f64 = 10 ^ 8"
proof -
  have "unat SCALE = 10 ^ 8" by (simp add: SCALE_def)
  then show ?thesis using exact_below_53 [of "10 ^ 8"] by (simp add: scale_f64_def)
qed

text \<open>Half a unit in the last place, as a relative error.\<close>

lemma round_f64_error:
  assumes "0 < x"
  shows "\<bar>round_f64 x - x\<bar> \<le> x / 2 ^ 53"
proof -
  define u :: rat where "u = 2 powi (ilog2 x - 52)"
  have u: "0 < u" "x / u * u = x" by (simp_all add: u_def)
  have "2 powi ilog2 x = u * 2 ^ 52" by (simp add: u_def power_int_diff)
  with ilog2_range(1) [OF assms] have le: "u * 2 ^ 52 \<le> x" by simp
  have "round_f64 x - x = (of_int (round_half_even (x / u)) - x / u) * u"
    using assms u by (simp add: round_f64_def u_def [symmetric] algebra_simps)
  then have "\<bar>round_f64 x - x\<bar> = \<bar>of_int (round_half_even (x / u)) - x / u\<bar> * u"
    using u by (simp add: abs_mult)
  also have "\<dots> \<le> 1 / 2 * u"
  proof (rule mult_right_mono)
    show "\<bar>of_int (round_half_even (x / u)) - x / u\<bar> \<le> 1 / 2"
      using round_half_even_near [of "x / u"] by linarith
  qed (use u in simp)
  also have "\<dots> \<le> x / 2 ^ 53" using le by (simp add: field_simps)
  finally show ?thesis .
qed

lemma round_f64_pos: "0 < x \<Longrightarrow> 0 < round_f64 x"
proof -
  assume x: "0 < x"
  then have "x / 2 ^ 53 < x" by simp
  with round_f64_error [OF x] show "0 < round_f64 x" by linarith
qed


lemma round_f64_0 [simp]: "round_f64 0 = 0"
  by (simp add: round_f64_def)

lemma round_f64_nonneg: "0 \<le> x \<Longrightarrow> 0 \<le> round_f64 x"
  using round_f64_pos [of x] by (cases "x = 0") simp_all

lemma round_f64_mono:
  assumes "0 \<le> x" and "x \<le> y"
  shows "round_f64 x \<le> round_f64 y"
proof (cases "x = 0 \<or> x = y")
  case True
  then show ?thesis using assms round_f64_pos [of y] by (cases "y = 0") (auto simp: round_f64_def)
next
  case False
  with assms have x: "0 < x" and y: "0 < y" and "x < y" by simp_all
  define ux :: rat where "ux = 2 powi (ilog2 x - 52)"
  define uy :: rat where "uy = 2 powi (ilog2 y - 52)"
  have u: "0 < ux" "0 < uy" by (simp_all add: ux_def uy_def)
  have rx: "round_f64 x = of_int (round_half_even (x / ux)) * ux"
    and ry: "round_f64 y = of_int (round_half_even (y / uy)) * uy"
    using x y by (simp_all add: round_f64_def ux_def uy_def Let_def)
  have "(2 :: rat) powi ilog2 x < 2 powi (ilog2 y + 1)"
    using ilog2_range [OF x] ilog2_range [OF y] \<open>x < y\<close> by linarith
  then have "ilog2 x < ilog2 y + 1" by (rule power2_less)
  then have "ilog2 x \<le> ilog2 y" by simp
  then consider (same) "ilog2 x = ilog2 y" | (less) "ilog2 x + 1 \<le> ilog2 y" by linarith
  then show ?thesis
  proof cases
    case same
    then have "ux = uy" by (simp add: ux_def uy_def)
    moreover have "x / uy \<le> y / uy" using \<open>x < y\<close> u by (simp add: divide_right_mono)
    ultimately show ?thesis
      using round_half_even_mono [of "x / uy" "y / uy"] u by (simp add: rx ry mult_right_mono)
  next
    case less
    have px: "2 powi (ilog2 x + 1) = ux * 2 ^ 53" and py: "2 powi ilog2 y = uy * 2 ^ 52"
      by (simp_all add: ux_def uy_def power_int_diff power_int_add)
    have "x / ux \<le> of_int (2 ^ 53)" "of_int (2 ^ 52) \<le> y / uy"
      using ilog2_range(2) [OF x, unfolded px] ilog2_range(1) [OF y, unfolded py] u
      by (simp_all add: pos_divide_le_eq pos_le_divide_eq mult.commute)
    then have "round_half_even (x / ux) \<le> 2 ^ 53" "2 ^ 52 \<le> round_half_even (y / uy)"
      using round_half_even_mono round_half_even_int by metis+
    then have "of_int (round_half_even (x / ux)) \<le> (of_int (2 ^ 53) :: rat)"
      "(of_int (2 ^ 52) :: rat) \<le> of_int (round_half_even (y / uy))"
      by (simp_all only: of_int_le_iff)
    then have "round_f64 x \<le> 2 powi (ilog2 x + 1)" "2 powi ilog2 y \<le> round_f64 y"
      using u by (simp_all add: rx ry px py mult.commute)
    moreover have "(2 :: rat) powi (ilog2 x + 1) \<le> 2 powi ilog2 y"
      using less by (intro power_int_increasing) simp_all
    ultimately show ?thesis by linarith
  qed
qed

lemma to_f64_mono:
  assumes "raw x \<le> raw y"
  shows "to_f64 x \<le> to_f64 y"
proof -
  have "(of_nat (unat (raw x)) :: rat) \<le> of_nat (unat (raw y))"
    using assms by (simp only: of_nat_le_iff word_le_nat_alt)
  moreover have "(0 :: rat) \<le> of_nat (unat (raw x))" by (simp only: of_nat_0_le_iff)
  ultimately show ?thesis
    unfolding to_f64_def scale_f64_value
    by (intro round_f64_mono divide_right_mono divide_nonneg_nonneg round_f64_nonneg) simp_all
qed

lemma round_half_away_near:
  assumes "\<bar>x - of_int i\<bar> < 1 / 2" and "0 \<le> x"
  shows "round_half_away x = i"
proof -
  have "of_int i \<le> x + 1 / 2" "x + 1 / 2 < of_int i + 1" using assms(1) by linarith+
  then have "\<lfloor>x + 1 / 2\<rfloor> = i" by (rule floor_unique)
  with assms(2) show ?thesis by (simp only: round_half_away_def if_True)
qed

lemma from_to_f64:
  assumes "unat (raw x) < 2 ^ 51"
  shows "from_f64 (to_f64 x) = Inr x"
proof -
  define n where "n = unat (raw x)"
  define y where "y = to_f64 x"
  define z where "z = round_f64 (y * 10 ^ 8)"
  have y: "y = round_f64 (of_nat n / 10 ^ 8)"
    using exact_below_53 [of "int n"] assms
    by (simp add: y_def to_f64_def scale_f64_value flip: n_def)
  have near: "\<bar>z - of_nat n\<bar> < 1 / 2 \<and> 0 \<le> z \<and> 0 \<le> y"
  proof (cases "n = 0")
    case False
    define N :: rat where "N = of_nat n"
    have N: "0 < N" "N \<le> 2 ^ 51 - 1"
    proof -
      show "0 < N" using False by (simp add: N_def)
      have "of_nat n \<le> (of_nat (2 ^ 51 - 1) :: rat)"
        using assms by (simp only: of_nat_le_iff flip: n_def)
      then show "N \<le> 2 ^ 51 - 1" by (simp add: N_def)
    qed
    have y1: "\<bar>y - N / 10 ^ 8\<bar> \<le> N / 10 ^ 8 / 2 ^ 53" "0 < y"
      using round_f64_error [of "N / 10 ^ 8"] round_f64_pos [of "N / 10 ^ 8"] N by (simp_all add: y N_def)
    have z1: "\<bar>z - y * 10 ^ 8\<bar> \<le> y * 10 ^ 8 / 2 ^ 53" "0 < z"
      using round_f64_error [of "y * 10 ^ 8"] round_f64_pos [of "y * 10 ^ 8"] y1(2) by (simp_all add: z_def)
    have "\<bar>y * 10 ^ 8 - N\<bar> \<le> N / 2 ^ 53"
      using y1(1) by (simp add: abs_le_iff field_simps)
    moreover from this have "y * 10 ^ 8 / 2 ^ 53 \<le> (N + N / 2 ^ 53) / 2 ^ 53"
      by (intro divide_right_mono) (simp_all only: abs_le_iff, linarith, simp)
    moreover have "N / 2 ^ 53 + (N + N / 2 ^ 53) / 2 ^ 53 < 1 / 2"
      using N by (simp add: field_simps)
    ultimately have "\<bar>z - N\<bar> < 1 / 2" using z1(1) by linarith
    with z1(2) y1(2) show ?thesis by (simp add: N_def)
  qed (simp add: z_def y)
  then have "round_half_away z = int n" by (intro round_half_away_near) simp_all
  moreover have "cast_u64 (int n) = raw x"
    using uint_lt2p [of "raw x"] by (simp add: cast_u64_def n_def)
  ultimately show ?thesis
    using near by (simp add: from_f64_def scale_f64_value z_def flip: y_def)
qed


lemma spread_pos:
  assumes "0 < sint w"
  shows "0 < spread_to_f64 w"
proof -
  have "(0 :: rat) < of_int (sint w)" using assms by (simp only: of_int_0_less_iff)
  then show ?thesis
    unfolding spread_to_f64_def scale_f64_value by (intro round_f64_pos divide_pos_pos) simp_all
qed

lemma spread_zero: "sint w = 0 \<Longrightarrow> spread_to_f64 w = 0"
  by (simp only: spread_to_f64_def of_int_0 round_f64_0 div_0)

text \<open>Rounding is symmetric, so what holds of positive numbers carries over to negative ones.\<close>

lemma round_half_even_minus: "round_half_even (- x) = - round_half_even x"
proof (cases "x = of_int \<lfloor>x\<rfloor>")
  case True
  then show ?thesis by (metis of_int_minus round_half_even_int)
next
  case False
  have "of_int \<lfloor>x\<rfloor> \<le> x" "x < of_int \<lfloor>x\<rfloor> + 1" by linarith+
  moreover from this(1) False have "of_int \<lfloor>x\<rfloor> < x" by (rule order_le_neq_trans [OF _ not_sym])
  ultimately have "of_int (- \<lfloor>x\<rfloor> - 1) \<le> - x" "- x < of_int (- \<lfloor>x\<rfloor> - 1) + 1" by auto
  then have "\<lfloor>- x\<rfloor> = - \<lfloor>x\<rfloor> - 1" by (rule floor_unique)
  then show ?thesis by (auto simp: round_half_even_def Let_def)
qed

lemma round_f64_minus: "round_f64 (- x) = - round_f64 x"
  by (simp add: round_f64_def Let_def round_half_even_minus)

lemma round_f64_error_abs: "\<bar>round_f64 x - x\<bar> \<le> \<bar>x\<bar> / 2 ^ 53"
  using round_f64_error [of x] round_f64_error [of "- x"] round_f64_minus [of x]
  by (cases x "0 :: rat" rule: linorder_cases) (simp_all add: abs_minus_commute)

lemma spread_neg:
  assumes "sint w < 0"
  shows "spread_to_f64 w < 0"
proof -
  have "(0 :: rat) < - of_int (sint w)" using assms by (simp only: neg_0_less_iff_less of_int_less_0_iff)
  from round_f64_pos [OF this] have "round_f64 (of_int (sint w)) / 10 ^ 8 < 0"
    by (simp add: round_f64_minus divide_neg_pos)
  with round_f64_pos [of "- (round_f64 (of_int (sint w)) / 10 ^ 8)"] show ?thesis
    by (simp only: spread_to_f64_def scale_f64_value round_f64_minus neg_0_less_iff_less)
qed

lemma spread_sign:
  "0 < spread_to_f64 w \<longleftrightarrow> 0 < sint w" "spread_to_f64 w < 0 \<longleftrightarrow> sint w < 0"
  using spread_pos [of w] spread_zero [of w] spread_neg [of w]
  by (cases "sint w" "0 :: int" rule: linorder_cases; simp)+

text \<open>
  A decimal scaled by \<open>10 ^ 8\<close>, shown as a double: rounded twice, it is within two units in the last
  place of the exact quotient.
\<close>

definition accurate :: "f64 \<Rightarrow> int \<Rightarrow> bool" where
  "accurate v i \<longleftrightarrow> \<bar>v - of_int i / 10 ^ 8\<bar> \<le> \<bar>of_int i / 10 ^ 8\<bar> / 2 ^ 51"

lemma accurate_rounding: "accurate (round_f64 (round_f64 (of_int i) / scale_f64)) i"
proof -
  define x :: rat where "x = of_int i / 10 ^ 8"
  define y where "y = round_f64 (of_int i) / 10 ^ 8"
  define v where "v = round_f64 (round_f64 (of_int i) / scale_f64)"
  have "\<bar>round_f64 (of_int i) - of_int i\<bar> / 10 ^ 8 \<le> \<bar>of_int i\<bar> / 2 ^ 53 / 10 ^ 8"
    using round_f64_error_abs [of "of_int i"] by (rule divide_right_mono) simp
  then have y: "\<bar>y - x\<bar> \<le> \<bar>x\<bar> / 2 ^ 53" by (simp add: y_def x_def flip: diff_divide_distrib)
  have z: "\<bar>v - y\<bar> \<le> \<bar>y\<bar> / 2 ^ 53"
    using round_f64_error_abs [of y] by (simp only: v_def scale_f64_value y_def)
  have sum: "s \<le> a / 2 ^ 51" if "s \<le> t + u" "t \<le> b / 2 ^ 53" "u \<le> a / 2 ^ 53" "b \<le> a * 2" "0 \<le> a" for s t u a b :: rat
    using that by (simp add: field_simps)
  have "\<bar>x\<bar> / 2 ^ 53 \<le> \<bar>x\<bar>" by simp
  with y have "\<bar>y\<bar> \<le> \<bar>x\<bar> * 2" by linarith
  with z y have "\<bar>v - x\<bar> \<le> \<bar>x\<bar> / 2 ^ 51" by (intro sum [of _ "\<bar>v - y\<bar>" "\<bar>y - x\<bar>" "\<bar>y\<bar>"]) simp_all
  then show ?thesis by (simp only: accurate_def x_def v_def)
qed

lemma spread_accurate: "accurate (spread_to_f64 w) (sint w)"
  unfolding spread_to_f64_def by (rule accurate_rounding)

lemma to_f64_accurate: "accurate (to_f64 x) (uint (raw x))"
  using accurate_rounding [of "uint (raw x)"] by (simp add: to_f64_def)

section \<open>Properties\<close>

text \<open>
  Converting a price to \<open>f64\<close> and back is the identity up to \<open>2 ^ 51\<close> units (22.5 million): both
  roundings together stay below half a unit, so no two such prices share a double.
\<close>

theorem f64_roundtrip:
  assumes "unat (raw x) < 2 ^ 51"
  shows "from_f64 (to_f64 x) = Inr x"
  by (rule from_to_f64 [OF assms])

theorem f64_roundtrip_witness: "from_f64 (to_f64 (FixedPoint 10150000000)) = Inr (FixedPoint 10150000000)"
  by (rule f64_roundtrip) simp

end
