(* ===== verification/Service.thy ===== *)
theory Service
  imports Merger Float64
begin

text \<open>
  The edges of the server: the symbol check of \<open>src/config.rs\<close> and the conversion of a summary to the
  protobuf message in \<open>src/server.rs\<close>. The conversions to \<open>f64\<close> are those of \<open>Float64\<close>.
\<close>

section \<open>The trading pair\<close>

datatype symbol_error = EmptySymbol | NotAlphanumeric bytes

definition is_ascii_alphanumeric :: "u8 \<Rightarrow> bool" where
  "is_ascii_alphanumeric b \<longleftrightarrow> 48 \<le> b \<and> b \<le> 57 \<or> 65 \<le> b \<and> b \<le> 90 \<or> 97 \<le> b \<and> b \<le> 122"

definition to_ascii_lowercase :: "u8 \<Rightarrow> u8" where
  "to_ascii_lowercase b = (if 65 \<le> b \<and> b \<le> 90 then b + 32 else b)"

text \<open>
  On UTF-8 text every character is ASCII alphanumeric if and only if every byte is (a byte of a longer
  character is 128 or more), and lower-casing such text is byte-wise.
\<close>

definition validate_symbol :: "bytes \<Rightarrow> symbol_error + bytes" where
  "validate_symbol s =
     (if s = [] then Inl EmptySymbol
      else if \<not> list_all is_ascii_alphanumeric s then Inl (NotAlphanumeric s)
      else Inr (map to_ascii_lowercase s))"

section \<open>The protobuf message\<close>

record proto_level =
  pl_exchange :: bytes
  pl_price :: f64
  pl_amount :: f64

record proto_summary =
  ps_spread :: f64
  ps_bids :: "proto_level list"
  ps_asks :: "proto_level list"

definition level_to_proto :: "level \<Rightarrow> proto_level run" where
  "level_to_proto l =
     map_sum id (\<lambda>name. \<lparr>pl_exchange = name, pl_price = to_f64 (lv_price l), pl_amount = to_f64 (lv_amount l)\<rparr>)
       (exchange_name (lv_exchange_id l))"

text \<open>\<open>into_iter().map(cvt).collect()\<close> with a conversion that can panic.\<close>

fun collect_run :: "('a \<Rightarrow> 'b run) \<Rightarrow> 'a list \<Rightarrow> 'b list run" where
  "collect_run f [] = Inr []"
| "collect_run f (x # xs) =
     (case f x of Inl p \<Rightarrow> Inl p | Inr y \<Rightarrow> map_sum id ((#) y) (collect_run f xs))"

definition to_proto :: "summary \<Rightarrow> proto_summary run" where
  "to_proto summary =
     (case collect_run (level_to_proto) (sm_bids summary) of
        Inl p \<Rightarrow> Inl p
      | Inr bids \<Rightarrow>
          (case collect_run (level_to_proto) (sm_asks summary) of
             Inl p \<Rightarrow> Inl p
           | Inr asks \<Rightarrow> Inr \<lparr>ps_spread = spread_to_f64 (sm_spread_raw summary), ps_bids = bids, ps_asks = asks\<rparr>))"

lemma collect_run_all:
  assumes "\<And>x. x \<in> set xs \<Longrightarrow> f x = Inr (g x)"
  shows "collect_run f xs = Inr (map g xs)"
  using assms by (induction xs) simp_all

lemma collect_run_set: "collect_run f xs = Inr ys \<Longrightarrow> y \<in> set ys \<Longrightarrow> \<exists>x\<in>set xs. f x = Inr y"
proof (induction xs arbitrary: ys)
  case (Cons x xs)
  then show ?case by (cases "collect_run f xs") (auto split: sum.splits)
qed simp

text \<open>Each level of a message is the conversion of a level of the summary.\<close>

lemma to_proto_levels:
  assumes "to_proto sm = Inr ps"
  shows "l \<in> set (ps_bids ps) \<Longrightarrow> \<exists>k\<in>set (sm_bids sm). level_to_proto k = Inr l"
    and "l \<in> set (ps_asks ps) \<Longrightarrow> \<exists>k\<in>set (sm_asks sm). level_to_proto k = Inr l"
  using assms by (auto simp: to_proto_def split: sum.splits dest: collect_run_set)

lemma level_to_proto_eq:
  "level_to_proto k = Inr l \<Longrightarrow> exchange_name (lv_exchange_id k) = Inr (pl_exchange l)
    \<and> pl_price l = to_f64 (lv_price k) \<and> pl_amount l = to_f64 (lv_amount k)"
  by (cases "exchange_name (lv_exchange_id k)") (auto simp: level_to_proto_def)

lemma ascii_cases: "is_ascii_alphanumeric b \<Longrightarrow> is_ascii_alphanumeric (to_ascii_lowercase b)"
  and lower_idem: "is_ascii_alphanumeric b \<Longrightarrow> to_ascii_lowercase (to_ascii_lowercase b) = to_ascii_lowercase b"
proof -
  have "unat (b + 32) = unat b + 32" if "65 \<le> b" "b \<le> 90"
    using that by (subst unat_add_lem [THEN iffD1]) (simp_all add: word_le_nat_alt)
  then show "is_ascii_alphanumeric b \<Longrightarrow> is_ascii_alphanumeric (to_ascii_lowercase b)"
    and "is_ascii_alphanumeric b \<Longrightarrow> to_ascii_lowercase (to_ascii_lowercase b) = to_ascii_lowercase b"
    by (auto simp: is_ascii_alphanumeric_def to_ascii_lowercase_def word_le_nat_alt)
qed

section \<open>Properties\<close>

text \<open>
  An accepted symbol is non-empty, alphanumeric and without upper case, so the URL and the
  subscription built from it need no escaping; validation is idempotent, and it rejects exactly the
  empty and the non-alphanumeric texts.
\<close>

theorem validate_symbol_correct:
  "(case validate_symbol s of
      Inl e \<Rightarrow> e = (if s = [] then EmptySymbol else NotAlphanumeric s)
        \<and> (s = [] \<or> list_ex (\<lambda>b. \<not> is_ascii_alphanumeric b) s)
    | Inr v \<Rightarrow> length v = length s \<and> v \<noteq> [] \<and> list_all is_ascii_alphanumeric v
        \<and> list_all (\<lambda>b. \<not> (65 \<le> b \<and> b \<le> 90)) v \<and> validate_symbol v = Inr v)"
proof (cases "validate_symbol s")
  case (Inl e)
  then show ?thesis by (auto simp: validate_symbol_def list_all_iff list_ex_iff split: if_splits)
next
  case (Inr v)
  then have v: "s \<noteq> []" "list_all is_ascii_alphanumeric s" "v = map to_ascii_lowercase s"
    by (auto simp: validate_symbol_def split: if_splits)
  have low: "\<not> (65 \<le> to_ascii_lowercase b \<and> to_ascii_lowercase b \<le> 90)" for b
  proof -
    have "unat (b + 32) = unat b + 32" if "65 \<le> b" "b \<le> 90"
      using that by (subst unat_add_lem [THEN iffD1]) (simp_all add: word_le_nat_alt)
    then show ?thesis by (auto simp: to_ascii_lowercase_def word_le_nat_alt)
  qed
  have "list_all is_ascii_alphanumeric v" using v(2) by (simp add: v(3) list_all_iff ascii_cases)
  moreover have "map to_ascii_lowercase v = v" using v(2) by (simp add: v(3) list_all_iff lower_idem)
  ultimately show ?thesis using v(1) low
    by (simp add: Inr) (simp add: v(3) validate_symbol_def list_all_iff)
qed

definition shown_level :: "level \<Rightarrow> proto_level" where
  "shown_level l = \<lparr>pl_exchange = EXCHANGES ! unat (lv_exchange_id l), pl_price = to_f64 (lv_price l),
    pl_amount = to_f64 (lv_amount l)\<rparr>"

lemma to_proto_merged:
  assumes "external_crates X" and "wf_store st" and "merge X st = Inr sm"
  shows "to_proto sm = Inr \<lparr>ps_spread = spread_to_f64 (sm_spread_raw sm),
    ps_bids = map shown_level (sm_bids sm), ps_asks = map shown_level (sm_asks sm)\<rparr>"
proof -
  have "level_to_proto l = Inr (shown_level l)" if "l \<in> set (sm_bids sm) \<union> set (sm_asks sm)" for l
    using merged_level_id [OF assms that] by (simp add: level_to_proto_def exchange_name_def shown_level_def MAX_EXCHANGES_def)
  then have "collect_run (level_to_proto) (sm_bids sm) = Inr (map shown_level (sm_bids sm))"
    "collect_run (level_to_proto) (sm_asks sm) = Inr (map shown_level (sm_asks sm))"
    by (auto intro: collect_run_all)
  then show ?thesis by (simp add: to_proto_def)
qed

text \<open>
  Converting a merged summary never panics: every level gets the name of its exchange, and the
  sides keep their length and order.
\<close>

theorem to_proto_total:
  assumes "external_crates X" and "wf_store st" and "merge X st = Inr sm"
  shows "\<exists>ps. to_proto sm = Inr ps
    \<and> ps_spread ps = spread_to_f64 (sm_spread_raw sm)
    \<and> map pl_price (ps_bids ps) = map (\<lambda>l. to_f64 (lv_price l)) (sm_bids sm)
    \<and> map pl_price (ps_asks ps) = map (\<lambda>l. to_f64 (lv_price l)) (sm_asks sm)
    \<and> map pl_exchange (ps_bids ps) = map (\<lambda>l. EXCHANGES ! unat (lv_exchange_id l)) (sm_bids sm)
    \<and> map pl_exchange (ps_asks ps) = map (\<lambda>l. EXCHANGES ! unat (lv_exchange_id l)) (sm_asks sm)"
  using to_proto_merged [OF assms] by (simp add: shown_level_def comp_def)

theorem to_proto_total_witness:
  "\<exists>ps. to_proto (projr (merge reference_crates two_books)) = Inr ps
    \<and> map pl_exchange (ps_asks ps) = [ascii ''bitstamp'', ascii ''binance'']"
  using to_proto_total [OF reference.external_crates_axioms two_books_simps(2) two_books_merge]
  by (auto simp: two_books_merge EXCHANGES_def)

lemma key_prices:
  "ask_key (unstamp a) \<le> ask_key (unstamp b) \<Longrightarrow> to_f64 (lv_price a) \<le> to_f64 (lv_price b)"
  "bid_key (unstamp a) \<le> bid_key (unstamp b) \<Longrightarrow> to_f64 (lv_price b) \<le> to_f64 (lv_price a)"
  using ask_key_price [of "unstamp a" "unstamp b"] bid_key_price [of "unstamp a" "unstamp b"]
  by (auto simp: less_eq_fixed_point_def intro: to_f64_mono)

lemma sorted_prices:
  "sorted (map (\<lambda>l. ask_key (unstamp l)) ls) \<Longrightarrow> sorted (map (\<lambda>l. to_f64 (lv_price l)) ls)"
  "sorted (map (\<lambda>l. bid_key (unstamp l)) ls) \<Longrightarrow> sorted (rev (map (\<lambda>l. to_f64 (lv_price l)) ls))"
  by (auto simp: sorted_map rev_map sorted_wrt_rev intro: key_prices elim!: sorted_wrt_mono_rel [rotated])

text \<open>A level and the message that shows it: the exchange's name, and both numbers to the last places of a double.\<close>

definition shows_level :: "level \<Rightarrow> proto_level \<Rightarrow> bool" where
  "shows_level l p \<longleftrightarrow> pl_exchange p = EXCHANGES ! unat (lv_exchange_id l)
     \<and> accurate (pl_price p) (uint (raw (lv_price l))) \<and> accurate (pl_amount p) (uint (raw (lv_amount l)))"

lemma shows_shown: "shows_level l (shown_level l)"
  by (simp add: shows_level_def shown_level_def to_f64_accurate)



end
