(* ===== verification/Startup.thy ===== *)
theory Startup
  imports Pipeline Service
begin

text \<open>
  How the process comes up and goes down: \<open>src/main.rs\<close>, the wiring of an exchange in
  \<open>src/exchange/mod.rs\<close>, the \<open>Config\<close> of \<open>src/config.rs\<close>, \<open>src/error.rs\<close> and \<open>serve_http\<close> of
  \<open>src/metrics.rs\<close>. The answers of the operating system and of the servers (does a port bind, does a
  thread spawn, how does the gRPC server end, did a thread panic) are a record of outcomes; the
  error values of the library are type variables. A thread is what it was started with; what it then
  does is modelled in \<open>WsLoop\<close> and \<open>MergerLoop\<close>. Logging and the server options are left out.
\<close>

section \<open>Errors\<close>

datatype ('io, 'tr) error = Bind 'io | Spawn 'io | Transport 'tr

definition error_display :: "('io \<Rightarrow> bytes) \<Rightarrow> ('tr \<Rightarrow> bytes) \<Rightarrow> ('io, 'tr) error \<Rightarrow> bytes" where
  "error_display show_io show_tr err =
     (case err of
        Bind e \<Rightarrow> ascii ''failed to bind port: '' @ show_io e
      | Spawn e \<Rightarrow> ascii ''failed to spawn thread: '' @ show_io e
      | Transport e \<Rightarrow> ascii ''gRPC transport error: '' @ show_tr e)"

definition error_source :: "('io, 'tr) error \<Rightarrow> 'io + 'tr" where
  "error_source err = (case err of Bind e \<Rightarrow> Inl e | Spawn e \<Rightarrow> Inl e | Transport e \<Rightarrow> Inr e)"

definition error_from :: "'tr \<Rightarrow> ('io, 'tr) error" where
  "error_from e = Transport e"

section \<open>Configuration\<close>

type_synonym u16 = "16 word"

record config =
  symbol :: bytes
  port :: u16
  metrics_port :: u16

text \<open>An option of the command line: the flag, else the environment variable, else the default.\<close>

definition arg :: "bytes option \<times> bytes option \<Rightarrow> bytes \<Rightarrow> bytes" where
  "arg given fallback = (case given of (Some v, _) \<Rightarrow> v | (None, Some v) \<Rightarrow> v | (None, None) \<Rightarrow> fallback)"

text \<open>\<open>Config::parse()\<close>; \<open>None\<close> is its exit with a usage error. \<open>parse_u16\<close> is the parser of a port.\<close>

definition config_parse :: "(bytes \<Rightarrow> u16 option) \<Rightarrow> bytes option \<times> bytes option \<Rightarrow> bytes option \<times> bytes option
    \<Rightarrow> bytes option \<times> bytes option \<Rightarrow> config option" where
  "config_parse parse_u16 symbol_arg port_arg metrics_port_arg =
     (case validate_symbol (arg symbol_arg (ascii ''ethbtc'')) of
        Inl _ \<Rightarrow> None
      | Inr s \<Rightarrow>
          do {
            p \<leftarrow> parse_u16 (arg port_arg (ascii ''50051''));
            mp \<leftarrow> parse_u16 (arg metrics_port_arg (ascii ''9090''));
            Some \<lparr>symbol = s, port = p, metrics_port = mp\<rparr>
          })"

section \<open>Outcomes and state\<close>

record ('io, 'tr) outcomes =
  bind_grpc :: "u16 \<Rightarrow> 'io + unit"
  local_addr :: "'io + unit"
  start_time :: instant
  spawn :: "bytes \<Rightarrow> 'io + unit"
  signal :: bool
  bind_metrics :: "u16 \<Rightarrow> 'io + unit"
  grpc_server :: "'tr + unit"
  panicked :: "bytes \<Rightarrow> bool"

text \<open>What a thread is started with; the merger gets the receivers of the slots, by their number.\<close>

datatype job =
    BinanceThread bytes "binance_handler ws_state"
  | BitstampThread bytes "bitstamp_handler ws_state"
  | MergerThread "nat list"

datatype action =
    GrpcBound u16
  | ThreadSpawned bytes job
  | HttpServing u16
  | GrpcServed
  | ThreadJoined bytes
  | PanicLogged bytes

record app =
  app_slots :: "order_book slot list"
  cancelled :: bool
  actions :: "action list"

definition app_new :: app where
  "app_new = \<lparr>app_slots = [], cancelled = False, actions = []\<rparr>"

definition act :: "action \<Rightarrow> app \<Rightarrow> app" where
  "act a s = s\<lparr>actions := actions s @ [a]\<rparr>"

text \<open>How \<open>main\<close> ends: it returns, or it panics.\<close>

datatype ('io, 'tr) exit = Exit "('io, 'tr) error + unit" | Crash panic

section \<open>Wiring an exchange\<close>

text \<open>\<open>spawn_exchange\<close>: the thread is named after the handler; it runs \<open>run_ws_loop\<close> from its start.\<close>

definition spawn_exchange ::
    "('io, 'tr) outcomes \<Rightarrow> bytes \<Rightarrow> (bytes \<Rightarrow> 'h ws_state \<Rightarrow> job) \<Rightarrow> 'h \<Rightarrow> bytes \<Rightarrow> order_book slot
      \<Rightarrow> exchange_metrics \<Rightarrow> app \<Rightarrow> ('io + unit) \<times> app" where
  "spawn_exchange env name job h ticker tx m s =
     (let thread = ascii ''ws-'' @ name in
      case spawn env thread of
        Inl e \<Rightarrow> (Inl e, s)
      | Inr _ \<Rightarrow> (Inr (), act (ThreadSpawned thread (job ticker (ws_init h tx m))) s))"

definition wire_exchange ::
    "('io, 'tr) outcomes \<Rightarrow> bytes \<Rightarrow> (bytes \<Rightarrow> 'h ws_state \<Rightarrow> job) \<Rightarrow> 'h \<Rightarrow> bytes
      \<Rightarrow> exchange_metrics \<Rightarrow> app \<Rightarrow> ('io + nat) \<times> app" where
  "wire_exchange env name job h ticker m s =
     (let receiver = length (app_slots s); s = s\<lparr>app_slots := app_slots s @ [slot_new]\<rparr> in
      case spawn_exchange env name job h ticker slot_new m s of
        (Inl e, s) \<Rightarrow> (Inl e, s)
      | (Inr _, s) \<Rightarrow> (Inr receiver, s))"

section \<open>The process\<close>

text \<open>The task of the shutdown signals: \<open>signal\<close> says whether SIGINT or SIGTERM ever comes.\<close>

definition shutdown_task :: "('io, 'tr) outcomes \<Rightarrow> app \<Rightarrow> app" where
  "shutdown_task env s = (if signal env then s\<lparr>cancelled := True\<rparr> else s)"

text \<open>\<open>serve_http\<close>: a port that does not bind cancels the whole process.\<close>

definition serve_http :: "('io, 'tr) outcomes \<Rightarrow> u16 \<Rightarrow> app \<Rightarrow> app" where
  "serve_http env p s =
     (case bind_metrics env p of
        Inl _ \<Rightarrow> s\<lparr>cancelled := True\<rparr>
      | Inr _ \<Rightarrow> act (HttpServing p) s)"

fun join_threads :: "('io, 'tr) outcomes \<Rightarrow> bytes list \<Rightarrow> app \<Rightarrow> app" where
  "join_threads env [] s = s"
| "join_threads env (name # names) s =
     (let s = act (ThreadJoined name) s in
      join_threads env names (if panicked env name then act (PanicLogged name) s else s))"

text \<open>From the gRPC server on: it blocks until shutdown, then everything is joined.\<close>

definition serve_and_join :: "('io, 'tr) outcomes \<Rightarrow> bytes list \<Rightarrow> app \<Rightarrow> ('io, 'tr) exit \<times> app" where
  "serve_and_join env threads s =
     (let s = act GrpcServed s in
      case grpc_server env of
        Inl e \<Rightarrow> (Exit (Inl (error_from e)), s)
      | Inr _ \<Rightarrow> (Exit (Inr ()), join_threads env threads s))"

definition main :: "('io, 'tr) outcomes \<Rightarrow> config \<Rightarrow> ('io, 'tr) exit \<times> app" where
  "main env cfg =
     (let s = app_new in
      case bind_grpc env (port cfg) of
        Inl e \<Rightarrow> (Exit (Inl (Bind e)), s)
      | Inr _ \<Rightarrow>
     (let s = act (GrpcBound (port cfg)) s in
      case local_addr env of
        Inl e \<Rightarrow> (Exit (Inl (Bind e)), s)
      | Inr _ \<Rightarrow>
     (let metrics = metrics_register EXCHANGES (start_time env) in
      case metrics_exchange metrics (ascii ''binance'') of
        Inl p \<Rightarrow> (Crash p, s)
      | Inr m \<Rightarrow>
     (case wire_exchange env (ascii ''binance'') BinanceThread binance_new (symbol cfg) m s of
        (Inl e, s) \<Rightarrow> (Exit (Inl (Spawn e)), s)
      | (Inr c1, s) \<Rightarrow>
     (case metrics_exchange metrics (ascii ''bitstamp'') of
        Inl p \<Rightarrow> (Crash p, s)
      | Inr m \<Rightarrow>
     (case wire_exchange env (ascii ''bitstamp'') BitstampThread bitstamp_new (symbol cfg) m s of
        (Inl e, s) \<Rightarrow> (Exit (Inl (Spawn e)), s)
      | (Inr c2, s) \<Rightarrow>
     (case spawn env (ascii ''merger'') of
        Inl e \<Rightarrow> (Exit (Inl (Spawn e)), s)
      | Inr _ \<Rightarrow>
     (let s = act (ThreadSpawned (ascii ''merger'') (MergerThread [c1, c2])) s;
          s = serve_http env (metrics_port cfg) (shutdown_task env s)
      in serve_and_join env [ascii ''binance'', ascii ''bitstamp'', ascii ''merger''] s))))))))"

section \<open>The startup sequence\<close>

text \<open>The first of several fallible steps that fails decides.\<close>

fun first_error :: "('e + unit) list \<Rightarrow> 'e + unit" where
  "first_error [] = Inr ()"
| "first_error (Inl e # steps) = Inl e"
| "first_error (Inr _ # steps) = first_error steps"

definition thread_names :: "bytes list" where
  "thread_names = [ascii ''ws-binance'', ascii ''ws-bitstamp'', ascii ''merger'']"

definition startup_steps :: "('io, 'tr) outcomes \<Rightarrow> config \<Rightarrow> (('io, 'tr) error + unit) list" where
  "startup_steps env cfg = map_sum Bind id (bind_grpc env (port cfg)) # map_sum Bind id (local_addr env)
     # map (\<lambda>n. map_sum Spawn id (spawn env n)) thread_names @ [map_sum Transport id (grpc_server env)]"

text \<open>The threads a process has started; all of them are where \<open>Pipeline\<close> starts.\<close>

fun job_of :: "action \<Rightarrow> job option" where
  "job_of (ThreadSpawned _ j) = Some j"
| "job_of _ = None"

definition jobs :: "app \<Rightarrow> job list" where
  "jobs s = List.map_filter job_of (actions s)"

definition all_jobs :: "config \<Rightarrow> job list" where
  "all_jobs cfg = [BinanceThread (symbol cfg) (binance_feed pipeline_start),
     BitstampThread (symbol cfg) (bitstamp_feed pipeline_start), MergerThread [0, 1]]"

lemma act_simps [simp]:
  "app_slots (act a s) = app_slots s" "cancelled (act a s) = cancelled s" "actions (act a s) = actions s @ [a]"
  by (simp_all add: act_def)

lemma jobs_act: "jobs (act a s) = jobs s @ (case job_of a of Some j \<Rightarrow> [j] | None \<Rightarrow> [])"
  by (simp add: jobs_def map_filter_def split: option.splits)

lemma jobs_update [simp]: "jobs (s\<lparr>app_slots := x\<rparr>) = jobs s" "jobs (s\<lparr>cancelled := b\<rparr>) = jobs s"
  by (simp_all add: jobs_def)

lemma registered: "name \<in> set EXCHANGES \<Longrightarrow>
    metrics_exchange (metrics_register EXCHANGES t) name = Inr (exchange_metrics_new name)"
  by (rule registered_exchange)

lemma exchange_names: "ascii ''binance'' \<in> set EXCHANGES" "ascii ''bitstamp'' \<in> set EXCHANGES"
  by (simp_all add: EXCHANGES_def)

lemma wire_exchange_eq:
  "wire_exchange env name job h ticker m s =
     (let s' = s\<lparr>app_slots := app_slots s @ [slot_new]\<rparr> in
      case spawn env (ascii ''ws-'' @ name) of
        Inl e \<Rightarrow> (Inl e, s')
      | Inr _ \<Rightarrow> (Inr (length (app_slots s)),
          act (ThreadSpawned (ascii ''ws-'' @ name) (job ticker (ws_init h slot_new m))) s'))"
  by (simp add: wire_exchange_def spawn_exchange_def Let_def split: sum.splits)

lemma join_threads_keeps:
  "jobs (join_threads env names s) = jobs s \<and> app_slots (join_threads env names s) = app_slots s
    \<and> cancelled (join_threads env names s) = cancelled s"
  by (induction names arbitrary: s) (simp_all add: Let_def jobs_act)

lemma join_threads_all: "set (map ThreadJoined names) \<subseteq> set (actions (join_threads env names s))
    \<and> set (actions s) \<subseteq> set (actions (join_threads env names s))"
proof (induction names arbitrary: s)
  case (Cons name names)
  let ?s = "act (ThreadJoined name) s"
  let ?s' = "if panicked env name then act (PanicLogged name) ?s else ?s"
  have "set (actions ?s) \<subseteq> set (actions ?s')" by auto
  with Cons.IH [of ?s'] show ?case by (auto simp: Let_def)
qed simp

lemma serve_http_simps:
  "jobs (serve_http env p s) = jobs s" "app_slots (serve_http env p s) = app_slots s"
  "cancelled (serve_http env p s) = (cancelled s \<or> isl (bind_metrics env p))"
  by (auto simp: serve_http_def jobs_act split: sum.splits)

lemma shutdown_task_simps:
  "jobs (shutdown_task env s) = jobs s" "app_slots (shutdown_task env s) = app_slots s"
  "cancelled (shutdown_task env s) = (cancelled s \<or> signal env)"
  by (simp_all add: shutdown_task_def)

lemma serve_and_join_simps:
  "fst (serve_and_join env ts s) = Exit (map_sum Transport id (grpc_server env))"
  "jobs (snd (serve_and_join env ts s)) = jobs s" "app_slots (snd (serve_and_join env ts s)) = app_slots s"
  "cancelled (snd (serve_and_join env ts s)) = cancelled s"
  using join_threads_keeps [of env ts "act GrpcServed s"]
  by (auto simp: serve_and_join_def error_from_def Let_def jobs_act split: sum.splits)

lemma started_names: "ascii ''ws-'' @ ascii ''binance'' = ascii ''ws-binance''"
  "ascii ''ws-'' @ ascii ''bitstamp'' = ascii ''ws-bitstamp''"
  by (simp_all add: ascii_def)

lemmas main_eval = main_def wire_exchange_eq registered exchange_names started_names Let_def

lemma first_error_single: "first_error [x] = x"
  by (cases x) simp_all

lemma main_exit: "fst (main env cfg) = Exit (first_error (startup_steps env cfg))"
  unfolding startup_steps_def thread_names_def
  by (simp add: main_eval serve_and_join_simps first_error_single split: sum.splits)


lemma main_jobs:
  "jobs (snd (main env cfg))
    = (if isl (bind_grpc env (port cfg)) \<or> isl (local_addr env) then []
       else map snd (takeWhile (\<lambda>(n, _). \<not> isl (spawn env n)) (zip thread_names (all_jobs cfg))))"
proof -
  have new: "jobs app_new = []" "app_slots app_new = []" by (simp_all add: jobs_def app_new_def map_filter_def)
  show ?thesis
    unfolding thread_names_def all_jobs_def pipeline_start_def binance_start_def bitstamp_start_def
    by (simp add: main_eval new jobs_act serve_and_join_simps serve_http_simps shutdown_task_simps split: sum.splits)
qed

section \<open>Properties\<close>


lemma main_app_slots:
  assumes "\<not> isl (bind_grpc env (port cfg))" and "\<not> isl (local_addr env)"
    and "list_all (\<lambda>n. \<not> isl (spawn env n)) thread_names"
  shows "app_slots (snd (main env cfg)) = [slot_new, slot_new]"
    and "cancelled (snd (main env cfg)) = (isl (bind_metrics env (metrics_port cfg)) \<or> signal env)"
  using assms unfolding thread_names_def
  by (auto simp: main_eval app_new_def serve_and_join_simps serve_http_simps shutdown_task_simps split: sum.splits)

lemma started_slots:
  assumes "\<not> isl (bind_grpc env (port cfg))" and "\<not> isl (local_addr env)"
    and "list_all (\<lambda>n. \<not> isl (spawn env n)) thread_names"
  shows "map ((!) (app_slots (snd (main env cfg)))) [0, 1] = shared pipeline_start"
    and "merger_start (map ((!) (app_slots (snd (main env cfg)))) [0, 1]) = merger_side pipeline_start"
  by (simp_all add: main_app_slots [OF assms] pipeline_start_def shared_def binance_start_def bitstamp_start_def ws_init_def)

text \<open>
  A started process has two fresh slots, one per exchange, and its merger thread never panics on
  them, whatever the adapters publish: the assertion of \<open>run_spsc\<close> on the number of receivers holds.
\<close>

theorem started_merger_safe:
  assumes "\<not> isl (bind_grpc env (port cfg))" and "\<not> isl (local_addr env)"
    and "list_all (\<lambda>n. \<not> isl (spawn env n)) thread_names"
    and "external_crates X" and "list_all (turn_ok 2) turns"
  shows "MergerThread [0, 1] \<in> set (jobs (snd (main env cfg)))
    \<and> (\<exists>b c. run_spsc X (map ((!) (app_slots (snd (main env cfg)))) [0, 1]) turns = Inr (b, c))"
proof -
  have "slot_inv (slot_new :: order_book slot)" by (simp add: slot_inv_def slot_new_simps)
  then have "list_all slot_inv [slot_new, slot_new :: order_book slot]" by simp
  from run_spsc_ok [OF assms(4) this, of turns] assms(5)
  have "\<exists>b c. run_spsc X [slot_new, slot_new] turns = Inr (b, c)"
    by (auto simp: MAX_EXCHANGES_def EXCHANGES_def numeral_2_eq_2)
  moreover have "MergerThread [0, 1] \<in> set (jobs (snd (main env cfg)))"
    using assms(1-3) main_jobs [of env cfg]
    by (simp add: thread_names_def all_jobs_def)
  ultimately show ?thesis using main_app_slots(1) [OF assms(1-3)] by simp
qed

text \<open>Outcomes for the witnesses: everything succeeds, or all but the metrics port.\<close>

definition good_outcomes :: "(nat, nat) outcomes" where
  "good_outcomes = \<lparr>bind_grpc = (\<lambda>_. Inr ()), local_addr = Inr (), start_time = 0, spawn = (\<lambda>_. Inr ()),
     signal = False, bind_metrics = (\<lambda>_. Inr ()), grpc_server = Inr (), panicked = (\<lambda>_. False)\<rparr>"

definition eth_config :: config where
  "eth_config = \<lparr>symbol = ascii ''ethbtc'', port = 50051, metrics_port = 9090\<rparr>"

theorem started_merger_safe_witness:
  "\<exists>b c. run_spsc reference_crates (map ((!) (app_slots (snd (main good_outcomes eth_config)))) [0, 1])
    [(id, False, [(0, 0), (0, 0)])] = Inr (b, c)"
  using started_merger_safe [OF _ _ _ reference.external_crates_axioms, of good_outcomes eth_config
      "[(id, False, [(0, 0), (0, 0)])]"]
  by (simp add: good_outcomes_def thread_names_def turn_ok_def)

text \<open>
  C38. A metrics port that does not bind never reaches \<open>main\<close> as an error: the process is cancelled at
  once, and \<open>main\<close> ends as it would have, with success once the cancelled gRPC server has stopped.
\<close>

theorem metrics_port_failure_is_silent:
  assumes "\<not> isl (bind_grpc env (port cfg))" and "\<not> isl (local_addr env)"
    and "list_all (\<lambda>n. \<not> isl (spawn env n)) thread_names"
    and "bind_metrics env (metrics_port cfg) = Inl e" and "grpc_server env = Inr ()"
  shows "fst (main env cfg) = Exit (Inr ()) \<and> cancelled (snd (main env cfg))"
  using main_exit [of env cfg] main_app_slots(2) [OF assms(1-3)] assms
  by (auto simp: startup_steps_def thread_names_def sum.disc_eq_case split: sum.splits)

theorem metrics_port_failure_is_silent_witness:
  "fst (main (good_outcomes\<lparr>bind_metrics := \<lambda>_. Inl 98\<rparr>) eth_config) = Exit (Inr ())
    \<and> cancelled (snd (main (good_outcomes\<lparr>bind_metrics := \<lambda>_. Inl 98\<rparr>) eth_config))"
  by (rule metrics_port_failure_is_silent [where e = 98]) (simp_all add: good_outcomes_def thread_names_def)

lemma symbol_bytes:
  assumes "validate_symbol s = Inr v"
  shows "list_all is_ascii_alphanumeric v"
  using assms by (auto simp: validate_symbol_def list_all_iff ascii_cases split: if_splits)

lemma alphanumeric_plain:
  assumes "is_ascii_alphanumeric b"
  shows "b < 128" "b \<noteq> b_quote" "b \<noteq> b_backslash"
proof -
  show "b < 128" using assms order.strict_trans1 [of b _ 128]
    by (auto simp: is_ascii_alphanumeric_def word_le_nat_alt word_less_nat_alt)
  show "b \<noteq> b_quote" "b \<noteq> b_backslash" using assms by (auto simp: is_ascii_alphanumeric_def)
qed

text \<open>
  C34. Whatever the command line and the environment say, an accepted configuration names its channel
  properly: read back with the program's own scanner, the subscription sent to Bitstamp asks for
  \<open>order_book_\<close> and the symbol, with nothing of the symbol outside that string.
\<close>

theorem subscription_names_symbol:
  assumes "external_crates X" and "config_parse parse_u16 a p mp = Some cfg"
  shows "extract_string X (the (bitstamp_subscribe_message h (symbol cfg))) (ascii ''\"channel\":'')
    = Inr (Some (ascii ''order_book_'' @ symbol cfg))"
proof -
  let ?pre = "ascii ''{\"event\":\"bts:subscribe\",\"data\":{''" and ?name = "ascii ''order_book_'' @ symbol cfg"
  let ?json = "?pre @ (b_quote # 99 # ascii ''hannel\":'') @ b_quote # ?name @ b_quote # ascii ''}}''"
  have msg: "the (bitstamp_subscribe_message h (symbol cfg)) = ?json"
    by (simp add: bitstamp_subscribe_message_def ascii_def)
  have "list_all is_ascii_alphanumeric (symbol cfg)"
    using assms(2) by (auto simp: config_parse_def bind_eq_Some_conv dest: symbol_bytes split: sum.splits)
  then have sym: "list_all (\<lambda>b. b < 128) (symbol cfg)" "list_all (\<lambda>b. b \<noteq> b_quote \<and> b \<noteq> b_backslash) (symbol cfg)"
    by (auto simp: list_all_iff dest: alphanumeric_plain)
  define s where "s = advance (length ?pre + 10) (scanner_new ?json)"
  have seek: "seek X (scanner_new ?json) (ascii ''\"channel\":'') = Inr (Some (), s)"
    using external_crates.seek_at [OF assms(1), of "scanner_new ?json" ?pre b_quote 99 "ascii ''hannel\":''"]
    by (simp add: s_def scanner_new_def rest_def ascii_def)
  have "rest s = [] @ b_quote # ?name @ b_quote # ascii ''}}''"
    by (simp add: s_def scanner_new_def rest_def advance_def ascii_def)
  moreover have "valid_utf8 (buf s)" using sym(1)
    by (intro valid_utf8_ascii) (simp add: s_def scanner_new_def advance_def ascii_def)
  ultimately have "fst (read_string s) = raw_string (?name @ b_quote # ascii ''}}'')"
    using read_string_fst(1) [of s "[]"] by simp
  also have "\<dots> = Some ?name" using sym(2) by (intro raw_string_plain) (simp add: ascii_def)
  finally show ?thesis unfolding msg extract_string_def seek by simp
qed

definition port_table :: "bytes \<Rightarrow> u16 option" where
  "port_table text = (if text = ascii ''50051'' then Some 50051 else if text = ascii ''9090'' then Some 9090 else None)"

theorem subscription_names_symbol_witness:
  "extract_string reference_crates (the (bitstamp_subscribe_message bitstamp_new (ascii ''btcusdt'')))
      (ascii ''\"channel\":'') = Inr (Some (ascii ''order_book_btcusdt''))"
proof -
  have "config_parse port_table (Some (ascii ''BtcUsdt''), None) (None, None) (None, None)
      = Some \<lparr>symbol = ascii ''btcusdt'', port = 50051, metrics_port = 9090\<rparr>"
    by (simp add: config_parse_def arg_def port_table_def validate_symbol_def is_ascii_alphanumeric_def
        to_ascii_lowercase_def ascii_def)
  from subscription_names_symbol [OF reference.external_crates_axioms this, of bitstamp_new] show ?thesis
    by (simp add: ascii_def)
qed

end
