(* ===== verification/SlotHB.thy ===== *)
theory SlotHB
  imports AtomicSlot
begin

text \<open>
  The memory orderings of \<open>src/atomic_slot.rs\<close>. \<open>AtomicSlot\<close> interleaves the atomic accesses in their
  modification order; whether a plain access to a buffer is ordered against the other thread's earlier
  access to it depends on the orderings of the swaps. Here every run of the slot carries vector
  clocks: a clock per thread, the view a later acquire of \<open>state\<close> (of \<open>refcount\<close>) obtains, and for each
  buffer the time of each thread's last access. An access that the other thread's last access does
  not happen before is a data race of the Rust (C++) memory model, and is logged.

  The orderings of the two swaps are arguments; \<open>source_run\<close> has the code's.
\<close>

section \<open>Vector clocks\<close>

datatype ordering = Relaxed | Acquire | Release | AcqRel

definition acquires :: "ordering \<Rightarrow> bool" where
  "acquires ord \<longleftrightarrow> ord = Acquire \<or> ord = AcqRel"

definition releases :: "ordering \<Rightarrow> bool" where
  "releases ord \<longleftrightarrow> ord = Release \<or> ord = AcqRel"

fun other :: "thread \<Rightarrow> thread" where
  "other Producer = Consumer"
| "other Consumer = Producer"

type_synonym clock = "thread \<Rightarrow> nat"

definition join_clock :: "clock \<Rightarrow> clock \<Rightarrow> clock" where
  "join_clock v w = (\<lambda>t. max (v t) (w t))"

record 'a traced =
  sys :: "'a system"
  clk :: "thread \<Rightarrow> clock"
  view :: clock
  count_view :: clock
  epoch :: "thread \<Rightarrow> nat \<Rightarrow> nat"
  races :: "(thread \<times> nat) list"

text \<open>\<open>slot()\<close> happens before both threads: its accesses count as time 0, which every clock has seen.\<close>

definition traced_new :: "'a traced" where
  "traced_new = \<lparr>sys = system_new, clk = (\<lambda>t u. if t = u then 1 else 0), view = (\<lambda>_. 0), count_view = (\<lambda>_. 0),
     epoch = (\<lambda>_ _. 0), races = []\<rparr>"

text \<open>An access of thread \<open>t\<close> to buffer \<open>i\<close>.\<close>

definition touch :: "thread \<Rightarrow> nat \<Rightarrow> 'a traced \<Rightarrow> 'a traced" where
  "touch t i h = h\<lparr>epoch := (epoch h)(t := (epoch h t)(i := clk h t t)),
     races := (if epoch h (other t) i \<le> clk h t (other t) then races h else races h @ [(t, i)])\<rparr>"

text \<open>
  What an atomic read-modify-write does to the thread's clock \<open>v\<close> and to the view \<open>m\<close> of the location:
  acquiring joins the view into the clock, releasing the clock into the view. Without a release the
  view passes through, since a read-modify-write continues the release sequence it reads from.
\<close>

definition rmw_clock :: "ordering \<Rightarrow> thread \<Rightarrow> clock \<Rightarrow> clock \<Rightarrow> clock" where
  "rmw_clock ord t v m =
     (let v = (if acquires ord then join_clock v m else v)
      in if releases ord then v(t := v t + 1) else v)"

definition rmw_view :: "ordering \<Rightarrow> clock \<Rightarrow> clock \<Rightarrow> clock" where
  "rmw_view ord v m = (if releases ord then join_clock m v else m)"

definition swap_state :: "ordering \<Rightarrow> thread \<Rightarrow> 'a traced \<Rightarrow> 'a traced" where
  "swap_state ord t h = h\<lparr>clk := (clk h)(t := rmw_clock ord t (clk h t) (view h)),
     view := rmw_view ord (clk h t) (view h)\<rparr>"

text \<open>The orderings in the code: of the swaps in \<open>send\<close> and \<open>recv\<close> and of the decrement in \<open>drop_half\<close>.\<close>

definition send_order :: ordering where
  "send_order = Release"

definition recv_order :: ordering where
  "recv_order = Acquire"

definition count_order :: ordering where
  "count_order = AcqRel"

text \<open>\<open>refcount.fetch_sub(1, ..)\<close>; the last half drops the three buffers.\<close>

definition drop_count :: "thread \<Rightarrow> bool \<Rightarrow> 'a traced \<Rightarrow> 'a traced" where
  "drop_count t free h =
     (let h = h\<lparr>clk := (clk h)(t := rmw_clock count_order t (clk h t) (count_view h)),
            count_view := rmw_view count_order (clk h t) (count_view h)\<rparr>
      in if free then touch t 2 (touch t 1 (touch t 0 h)) else h)"

definition swap_order :: "ordering \<Rightarrow> ordering \<Rightarrow> thread \<Rightarrow> ordering" where
  "swap_order tx rx t = (case t of Producer \<Rightarrow> tx | Consumer \<Rightarrow> rx)"

fun observe :: "ordering \<Rightarrow> ordering \<Rightarrow> access \<Rightarrow> 'a traced \<Rightarrow> 'a traced" where
  "observe tx rx Silent h = h"
| "observe tx rx (Touch t i) h = touch t i h"
| "observe tx rx (Swap t) h = swap_state (swap_order tx rx t) t h"
| "observe tx rx (Count t free) h = drop_count t free h"

inductive traced_run :: "ordering \<Rightarrow> ordering \<Rightarrow> 'a traced \<Rightarrow> bool" for tx rx where
  traced_start: "traced_run tx rx traced_new"
| traced_step: "traced_run tx rx h \<Longrightarrow> step (sys h) a c \<Longrightarrow> traced_run tx rx (observe tx rx a h\<lparr>sys := c\<rparr>)"

section \<open>What a step does to the roles\<close>

text \<open>The buffer a thread holds, and whether its half is alive.\<close>

fun held :: "thread \<Rightarrow> 'a system \<Rightarrow> nat" where
  "held Producer c = unat (tx_back (slot c))"
| "held Consumer c = unat (rx_front (slot c))"

fun alive :: "thread \<Rightarrow> 'a system \<Rightarrow> bool" where
  "alive Producer c = tx_alive c"
| "alive Consumer c = rx_alive c"

lemma other_simps [simp]: "other (other t) = t" "other t \<noteq> t" "t \<noteq> other t"
  by (cases t; simp)+

lemma thread_cases: "u = t \<or> u = other t"
  by (cases u; cases t) simp_all

definition role_effect :: "access \<Rightarrow> 'a system \<Rightarrow> 'a system \<Rightarrow> bool" where
  "role_effect a c c' =
     (case a of
        Swap t \<Rightarrow> held t c' = mid (slot c) \<and> mid (slot c') = held t c \<and> held (other t) c' = held (other t) c
          \<and> alive t c \<and> (\<forall>u. alive u c' = alive u c)
      | Count t free \<Rightarrow> mid (slot c') = mid (slot c) \<and> (\<forall>u. held u c' = held u c) \<and> alive t c
          \<and> (\<forall>u. alive u c' = (u \<noteq> t \<and> alive u c)) \<and> free = (\<not> alive (other t) c)
      | Touch t i \<Rightarrow> i = held t c \<and> alive t c \<and> mid (slot c') = mid (slot c)
          \<and> (\<forall>u. held u c' = held u c \<and> alive u c' = alive u c)
      | Silent \<Rightarrow> mid (slot c') = mid (slot c) \<and> (\<forall>u. held u c' = held u c \<and> alive u c' = alive u c))"

lemma all_threads: "(\<forall>u. P u) \<longleftrightarrow> P Producer \<and> P Consumer"
  by (metis (full_types) thread.exhaust)

lemma step_role_effect:
  assumes "step c a c'" and "data_inv c" and "life_inv c"
  shows "role_effect a c c'"
  using assms
proof (induction rule: step.induct)
  case (send_write c v s')
  then have "roles_ok (slot c)" by (simp add: data_inv_def buffers_ok_def)
  from write_effect [OF this send_write.hyps(2)] send_write show ?case
    by (auto simp: role_effect_def all_threads life_inv_def)
next
  case (send_swap c v)
  then have "roles_ok (slot c)" by (simp add: data_inv_def buffers_ok_def)
  from publish_swap_simps [OF this] send_swap show ?case
    by (auto simp: role_effect_def all_threads life_inv_def)
next
  case (recv_swap c)
  then have "roles_ok (slot c)" by (simp add: data_inv_def buffers_ok_def)
  from take_swap_simps [OF this] recv_swap show ?case
    by (auto simp: role_effect_def all_threads life_inv_def)
next
  case (recv_take c r s')
  then have "roles_ok (slot c)" by (simp add: data_inv_def buffers_ok_def)
  from take_effect [OF this recv_take.hyps(2)] recv_take show ?case
    by (auto simp: role_effect_def all_threads life_inv_def)
next
  case (drop_sender c free s')
  from drop_effect [OF drop_sender.hyps(3)] drop_sender show ?case
    by (auto simp: role_effect_def all_threads life_inv_def drop_half_def Let_def)
next
  case (drop_receiver c free s')
  from drop_effect [OF drop_receiver.hyps(3)] drop_receiver show ?case
    by (auto simp: role_effect_def all_threads life_inv_def drop_half_def Let_def)
qed (simp_all add: role_effect_def all_threads)

section \<open>Ordered accesses\<close>

text \<open>
  The accesses of \<open>t\<close> stay ordered after those of the other thread: what the other thread did to the
  buffer \<open>t\<close> holds is in the clock of \<open>t\<close>, what it did to the exchange buffer is in the view of
  \<open>state\<close>, and once it is gone everything it did is in the view of \<open>refcount\<close>.
\<close>

definition ordered_inv :: "thread \<Rightarrow> 'a traced \<Rightarrow> bool" where
  "ordered_inv t h \<longleftrightarrow>
     (\<forall>i. epoch h (other t) i \<le> clk h (other t) (other t))
   \<and> (alive t (sys h) \<longrightarrow> epoch h (other t) (held t (sys h)) \<le> clk h t (other t)
       \<and> epoch h (other t) (mid (slot (sys h))) \<le> view h (other t)
       \<and> clk h t (other t) \<le> view h (other t))
   \<and> (alive t (sys h) \<and> \<not> alive (other t) (sys h) \<longrightarrow>
       (\<forall>i. epoch h (other t) i \<le> count_view h (other t)))
   \<and> t \<notin> fst ` set (races h)"

lemma ordered_new: "ordered_inv t traced_new"
  by (simp add: ordered_inv_def traced_new_def)

lemma touch_simps [simp]:
  "sys (touch t i h) = sys h" "clk (touch t i h) = clk h" "view (touch t i h) = view h"
  "count_view (touch t i h) = count_view h"
  "epoch (touch t i h) t = (epoch h t)(i := clk h t t)" "u \<noteq> t \<Longrightarrow> epoch (touch t i h) u = epoch h u"
  by (simp_all add: touch_def)

lemma races_touch:
  "fst ` set (races (touch t i h))
    = fst ` set (races h) \<union> (if epoch h (other t) i \<le> clk h t (other t) then {} else {t})"
  by (auto simp: touch_def)

lemma swap_simps [simp]:
  "epoch (swap_state ord t h) = epoch h" "races (swap_state ord t h) = races h"
  "count_view (swap_state ord t h) = count_view h"
  "view (swap_state ord t h) = rmw_view ord (clk h t) (view h)"
  "clk (swap_state ord t h) t = rmw_clock ord t (clk h t) (view h)"
  "u \<noteq> t \<Longrightarrow> clk (swap_state ord t h) u = clk h u"
  by (simp_all add: swap_state_def)

lemma rmw_clock_le: "v u \<le> rmw_clock ord t v m u"
  by (auto simp: rmw_clock_def join_clock_def Let_def)

lemma rmw_clock_acquires: "acquires ord \<Longrightarrow> u \<noteq> t \<Longrightarrow> rmw_clock ord t v m u = max (v u) (m u)"
  by (simp add: rmw_clock_def join_clock_def Let_def)

lemma rmw_view_le: "m u \<le> rmw_view ord v m u"
  by (simp add: rmw_view_def join_clock_def)

lemma rmw_view_releases: "releases ord \<Longrightarrow> v u \<le> rmw_view ord v m u"
  by (simp add: rmw_view_def join_clock_def)

lemma acq_rel [simp]: "acquires AcqRel" "releases AcqRel"
  by (simp_all add: acquires_def releases_def)

lemma distinct_roles:
  assumes "data_inv c"
  shows "held (other t) c \<noteq> held t c" "mid (slot c) \<noteq> held t c"
  using assms by (cases t; auto simp: data_inv_def buffers_ok_def roles_ok_def)+

lemma observe_ordered:
  assumes ords: "acquires (swap_order tx rx t)" "releases (swap_order tx rx (other t))"
    and inv: "ordered_inv t h" "data_inv (sys h)" and eff: "role_effect a (sys h) c"
  shows "ordered_inv t (observe tx rx a h\<lparr>sys := c\<rparr>)"
proof (cases a)
  case Silent
  then show ?thesis using inv(1) eff by (simp add: ordered_inv_def role_effect_def)
next
  case (Touch w i)
  show ?thesis
  proof (cases "w = t")
    case True
    then show ?thesis using Touch inv(1) eff by (auto simp: ordered_inv_def role_effect_def races_touch)
  next
    case False
    then have w: "w = other t" using thread_cases by metis
    then show ?thesis using Touch inv(1) eff distinct_roles [OF inv(2), of t]
      distinct_roles [OF inv(2), of "other t"]
      by (auto simp: ordered_inv_def role_effect_def races_touch)
  qed
next
  case (Swap w)
  let ?v = "view h (other t)"
  show ?thesis
  proof (cases "w = t")
    case True
    have "?v \<le> rmw_view (swap_order tx rx t) (clk h t) (view h) (other t)" by (rule rmw_view_le)
    then show ?thesis using Swap True inv(1) eff ords(1)
      by (auto simp: ordered_inv_def role_effect_def rmw_clock_acquires)
  next
    case False
    then have w: "w = other t" using thread_cases by metis
    have "clk h w w \<le> rmw_clock (swap_order tx rx w) w (clk h w) (view h) w"
      and "?v \<le> rmw_view (swap_order tx rx w) (clk h w) (view h) (other t)"
      and "clk h w w \<le> rmw_view (swap_order tx rx w) (clk h w) (view h) w"
      using ords(2) w by (simp_all add: rmw_clock_le rmw_view_le rmw_view_releases)
    then show ?thesis using Swap w inv(1) eff
      by (fastforce simp: ordered_inv_def role_effect_def intro: order_trans)
  qed
next
  case (Count w free)
  let ?c = "rmw_clock AcqRel w (clk h w) (count_view h)" and ?m = "rmw_view AcqRel (clk h w) (count_view h)"
  have grow: "clk h w w \<le> ?c w" "clk h w w \<le> ?m w" by (simp_all add: rmw_clock_le rmw_view_releases)
  show ?thesis
  proof (cases "w = t")
    case True
    then have "?c (other t) = max (clk h t (other t)) (count_view h (other t))"
      by (simp add: rmw_clock_acquires)
    then show ?thesis using Count True inv(1) eff
      by (auto simp: ordered_inv_def role_effect_def drop_count_def count_order_def Let_def races_touch le_max_iff_disj)
  next
    case False
    then have "w = other t" using thread_cases by metis
    then show ?thesis using Count inv(1) eff grow
      by (auto simp: ordered_inv_def role_effect_def drop_count_def count_order_def Let_def races_touch intro: order_trans)
  qed
qed

lemma traced_run_inv:
  "traced_run tx rx h \<Longrightarrow> data_inv (sys h) \<and> life_inv (sys h)"
proof (induction rule: traced_run.induct)
  case traced_start
  then show ?case by (simp add: traced_new_def data_inv_new life_inv_new)
next
  case (traced_step h a c)
  then show ?case by (auto intro: data_inv_step life_inv_step)
qed

lemma traced_run_ordered:
  assumes "traced_run tx rx h" and "acquires (swap_order tx rx t)" and "releases (swap_order tx rx (other t))"
  shows "ordered_inv t h"
  using assms(1)
proof (induction rule: traced_run.induct)
  case traced_start
  then show ?case by (rule ordered_new)
next
  case (traced_step h a c)
  then show ?case
    using observe_ordered [OF assms(2,3)] step_role_effect [OF traced_step.hyps(2)] traced_run_inv by blast
qed

text \<open>The clocks only watch: the runs are those of the slot.\<close>

lemma observe_sys [simp]: "sys (observe tx rx a h) = sys h"
  by (cases a) (simp_all add: swap_state_def drop_count_def count_order_def Let_def)

lemma traced_run_reachable: "traced_run tx rx h \<Longrightarrow> reachable (sys h)"
  by (induction rule: traced_run.induct) (auto simp: traced_new_def intro: reachable.intros)

lemma reachable_traced: "reachable c \<Longrightarrow> \<exists>h. traced_run tx rx h \<and> sys h = c"
proof (induction rule: reachable.induct)
  case start
  show ?case by (rule exI [of _ traced_new]) (simp add: traced_run.traced_start, simp add: traced_new_def)
next
  case (next_step c a c')
  then obtain h where "traced_run tx rx h" "sys h = c" by blast
  with next_step.hyps(2) have "traced_run tx rx (observe tx rx a h\<lparr>sys := c'\<rparr>)"
    by (intro traced_run.traced_step) simp_all
  then show ?case by (intro exI [of _ "observe tx rx a h\<lparr>sys := c'\<rparr>"]) simp
qed

section \<open>Undisturbed operations\<close>

text \<open>A \<open>send\<close> and a \<open>recv\<close> that run from begin to end, to build runs from.\<close>

definition do_send :: "ordering \<Rightarrow> 'a \<Rightarrow> 'a traced \<Rightarrow> 'a traced" where
  "do_send tx v h =
     (let s = slot (sys h); c = sys h in
      swap_state tx Producer (touch Producer (unat (tx_back s)) h)\<lparr>sys :=
        c\<lparr>slot := publish_swap (s\<lparr>buffers := (buffers s)[unat (tx_back s) := Some v]\<rparr>), sent := sent c @ [v]\<rparr>\<rparr>)"

definition do_recv :: "ordering \<Rightarrow> 'a traced \<Rightarrow> 'a traced" where
  "do_recv rx h =
     (let s = take_swap (slot (sys h)); c = sys h; i = unat (rx_front s) in
      touch Consumer i (swap_state rx Consumer h)\<lparr>sys :=
        c\<lparr>slot := s\<lparr>buffers := (buffers s)[i := None]\<rparr>,
          received := received c @ (case buffers s ! i of None \<Rightarrow> [] | Some v \<Rightarrow> [v])\<rparr>\<rparr>)"

abbreviation idle :: "'a traced \<Rightarrow> bool" where
  "idle h \<equiv> producer_at (sys h) = PIdle \<and> consumer_at (sys h) = CIdle \<and> tx_alive (sys h) \<and> rx_alive (sys h)"

lemma run_send:
  assumes "traced_run tx rx h" and "idle h"
  shows "traced_run tx rx (do_send tx v h) \<and> idle (do_send tx v h) \<and> load_dirty (slot (sys (do_send tx v h)))"
proof -
  let ?s = "slot (sys h)"
  let ?b = "(buffers ?s)[unat (tx_back ?s) := Some v]"
  have r: "roles_ok ?s" using traced_run_inv [OF assms(1)] by (simp add: data_inv_def buffers_ok_def)
  note go = traced_run.traced_step [of tx rx]
  have "traced_run tx rx (h\<lparr>sys := sys h\<lparr>producer_at := PWriting v\<rparr>\<rparr>)" (is "traced_run tx rx ?h1")
    using go [OF assms(1) send_begin [of "sys h" v]] assms(2) by simp
  moreover have "step (sys ?h1) (Touch Producer (unat (tx_back ?s)))
      (sys ?h1\<lparr>slot := ?s\<lparr>buffers := ?b\<rparr>, producer_at := PWritten v\<rparr>)" (is "step _ _ ?c2")
    using send_write [of "sys ?h1" v] write_back_ok [OF r, of v] by simp
  ultimately have "traced_run tx rx (touch Producer (unat (tx_back ?s)) ?h1\<lparr>sys := ?c2\<rparr>)" (is "traced_run tx rx ?h2")
    using go by fastforce
  from go [OF this send_swap [of "sys ?h2" v]]
  have "traced_run tx rx (swap_state tx Producer ?h2\<lparr>sys :=
      sys ?h2\<lparr>slot := publish_swap (slot (sys ?h2)), producer_at := PIdle, sent := sent (sys ?h2) @ [v]\<rparr>\<rparr>)"
    by (simp add: swap_order_def)
  also have "\<dots> = do_send tx v h"
    using assms(2) by (simp add: do_send_def swap_state_def touch_def Let_def)
  finally show ?thesis
    using assms(2) publish_swap_simps(5) [OF roles_ok_write [OF r]] by (simp add: do_send_def Let_def)
qed

lemma run_recv:
  assumes "traced_run tx rx h" and "idle h" and "load_dirty (slot (sys h))"
  shows "traced_run tx rx (do_recv rx h) \<and> idle (do_recv rx h)"
proof -
  let ?s = "take_swap (slot (sys h))"
  let ?i = "unat (rx_front ?s)"
  have "roles_ok (slot (sys h))" using traced_run_inv [OF assms(1)] by (simp add: data_inv_def buffers_ok_def)
  then have r: "roles_ok ?s" by (rule roles_ok_take)
  note go = traced_run.traced_step [of tx rx]
  have "traced_run tx rx (h\<lparr>sys := sys h\<lparr>consumer_at := CChecked\<rparr>\<rparr>)" (is "traced_run tx rx ?h1")
    using go [OF assms(1) recv_check [of "sys h"]] assms(2,3) by simp
  from go [OF this recv_swap [of "sys ?h1"]]
  have "traced_run tx rx (swap_state rx Consumer h\<lparr>sys := sys h\<lparr>slot := ?s, consumer_at := CSwapped\<rparr>\<rparr>)"
      (is "traced_run tx rx ?h2")
    by (simp add: swap_order_def swap_state_def)
  from go [OF this recv_begin [of "sys ?h2"]]
  have "traced_run tx rx (swap_state rx Consumer h\<lparr>sys := sys h\<lparr>slot := ?s, consumer_at := CTaking\<rparr>\<rparr>)"
      (is "traced_run tx rx ?h3") by simp
  from go [OF this recv_take [of "sys ?h3"]]
  have "traced_run tx rx (touch Consumer ?i ?h3\<lparr>sys := sys ?h3\<lparr>slot := ?s\<lparr>buffers := (buffers ?s)[?i := None]\<rparr>,
      consumer_at := CIdle,
      received := received (sys h) @ (case buffers ?s ! ?i of None \<Rightarrow> [] | Some v \<Rightarrow> [v])\<rparr>\<rparr>)"
    using take_front_ok [OF r] by simp
  also have "\<dots> = do_recv rx h"
    using assms(2) by (simp add: do_recv_def touch_def Let_def)
  finally show ?thesis using assms(2) by (simp add: do_recv_def Let_def)
qed

text \<open>
  Five operations bring a buffer back to the producer that the consumer has taken from: two values
  each sent and received, then two sends.
\<close>

definition reuse_run :: "ordering \<Rightarrow> ordering \<Rightarrow> nat traced" where
  "reuse_run tx rx = do_send tx 10 (do_send tx 9 (do_recv rx (do_send tx 8 (do_recv rx (do_send tx 7 traced_new)))))"

definition idle_run :: "ordering \<Rightarrow> ordering \<Rightarrow> 'a traced \<Rightarrow> bool" where
  "idle_run tx rx h \<longleftrightarrow> traced_run tx rx h \<and> idle h"

lemma idle_run_new: "idle_run tx rx traced_new"
  by (simp add: idle_run_def traced_run.traced_start) (simp add: traced_new_def system_new_def)

lemma idle_run_send: "idle_run tx rx h \<Longrightarrow> idle_run tx rx (do_send tx v h)"
  using run_send [of tx rx h v] by (simp add: idle_run_def)

lemma idle_run_exchange: "idle_run tx rx h \<Longrightarrow> idle_run tx rx (do_recv rx (do_send tx v h))"
  using run_send [of tx rx h v] run_recv [of tx rx "do_send tx v h"] by (simp add: idle_run_def)

lemma reuse_run_traced: "traced_run tx rx (reuse_run tx rx)"
proof -
  have "idle_run tx rx (reuse_run tx rx)"
    unfolding reuse_run_def by (intro idle_run_send idle_run_exchange idle_run_new)
  then show ?thesis by (simp add: idle_run_def)
qed

lemma do_send_simps:
  "slot (sys (do_send tx v h))
    = publish_swap (slot (sys h)\<lparr>buffers := (buffers (slot (sys h)))[unat (tx_back (slot (sys h))) := Some v]\<rparr>)"
  "received (sys (do_send tx v h)) = received (sys h)"
  "epoch (do_send tx v h) Consumer = epoch h Consumer"
  "clk (do_send tx v h) Consumer = clk h Consumer"
  "clk (do_send Release v h) Producer Consumer = clk h Producer Consumer"
  by (simp_all add: do_send_def Let_def rmw_clock_def acquires_def)

lemma do_send_race:
  assumes "clk h Producer Consumer < epoch h Consumer (unat (tx_back (slot (sys h))))"
  shows "(Producer, unat (tx_back (slot (sys h)))) \<in> set (races (do_send tx v h))"
  using assms by (simp add: do_send_def Let_def touch_def)

lemma do_recv_simps:
  assumes "i = unat (rx_front (take_swap (slot (sys h))))"
  shows "slot (sys (do_recv rx h)) = (take_swap (slot (sys h)))\<lparr>buffers := (buffers (take_swap (slot (sys h))))[i := None]\<rparr>"
    and "received (sys (do_recv rx h)) = received (sys h)
      @ (case buffers (take_swap (slot (sys h))) ! i of None \<Rightarrow> [] | Some v \<Rightarrow> [v])"
    and "epoch (do_recv rx h) Consumer = (epoch h Consumer)(i := clk (do_recv rx h) Consumer Consumer)"
    and "clk (do_recv rx h) Producer = clk h Producer"
    and "clk h Consumer Consumer \<le> clk (do_recv rx h) Consumer Consumer"
  using assms by (simp_all add: do_recv_def Let_def rmw_clock_le)

lemma reuse_run_races:
  "(Producer, 0) \<in> set (races (reuse_run Release Acquire))" (is ?race)
  "received (sys (reuse_run Release Acquire)) = [7, 8]" (is ?received)
proof -
  let ?h0 = "traced_new :: nat traced"
  define h1 where "h1 = do_send Release 7 ?h0"
  define h2 where "h2 = do_recv Acquire h1"
  define h3 where "h3 = do_send Release 8 h2"
  define h4 where "h4 = do_recv Acquire h3"
  define h5 where "h5 = do_send Release 9 h4"
  note eval = publish_swap_def take_swap_def DIRTY_def Let_def
  have 1: "slot (sys h1) = \<lparr>buffers = [Some 7, None, None], state = 1, refcount = 2, tx_back = 1, rx_front = 2\<rparr>"
    "clk h1 Producer Consumer = 0" "clk h1 Consumer Consumer = 1" "received (sys h1) = []"
    unfolding h1_def do_send_simps by (simp_all add: traced_new_def system_new_def slot_new_def eval)
  note r2 = do_recv_simps [OF refl, where h = h1 and rx = Acquire, folded h2_def]
  have 2: "slot (sys h2) = \<lparr>buffers = [None, None, None], state = 4, refcount = 2, tx_back = 1, rx_front = 0\<rparr>"
    "clk h2 Producer Consumer = 0" "1 \<le> clk h2 Consumer Consumer" "1 \<le> epoch h2 Consumer 0" "received (sys h2) = [7]"
    using r2 by (simp_all add: 1 eval)
  have 3: "slot (sys h3) = \<lparr>buffers = [None, Some 8, None], state = 3, refcount = 2, tx_back = 2, rx_front = 0\<rparr>"
    "clk h3 Producer Consumer = 0" "1 \<le> epoch h3 Consumer 0" "received (sys h3) = [7]"
    unfolding h3_def do_send_simps using 2 by (simp_all add: eval)
  note r4 = do_recv_simps [OF refl, where h = h3 and rx = Acquire, folded h4_def]
  have 4: "slot (sys h4) = \<lparr>buffers = [None, None, None], state = 0, refcount = 2, tx_back = 2, rx_front = 1\<rparr>"
    "clk h4 Producer Consumer = 0" "1 \<le> epoch h4 Consumer 0" "received (sys h4) = [7, 8]"
    using r4 3(3) by (simp_all add: 3 eval)
  have 5: "slot (sys h5) = \<lparr>buffers = [None, None, Some 9], state = 5, refcount = 2, tx_back = 0, rx_front = 1\<rparr>"
    "clk h5 Producer Consumer = 0" "1 \<le> epoch h5 Consumer 0" "received (sys h5) = [7, 8]"
    unfolding h5_def do_send_simps using 4 by (simp_all add: eval)
  have run: "reuse_run Release Acquire = do_send Release 10 h5"
    by (simp add: reuse_run_def h5_def h4_def h3_def h2_def h1_def)
  show ?race using do_send_race [of h5 Release 10] 5 by (simp add: run)
  show ?received by (simp add: run do_send_simps 5)
qed

section \<open>Properties\<close>

definition source_run :: "'a traced \<Rightarrow> bool" where
  "source_run = traced_run send_order recv_order"

text \<open>
  C11. With the code's orderings the consumer never reads a stale or half-written value: every access of
  \<open>recv\<close>, and the release of the buffers by the half that is dropped last, happens after the
  producer's last access to the same buffer.
\<close>

theorem slot_recv_ordered:
  assumes "source_run h"
  shows "Consumer \<notin> fst ` set (races h)"
  using traced_run_ordered [of Release Acquire h Consumer] assms
  by (simp add: source_run_def send_order_def recv_order_def ordered_inv_def swap_order_def acquires_def releases_def)

theorem slot_recv_ordered_witness: "Consumer \<notin> fst ` set (races (reuse_run Release Acquire))"
  by (rule slot_recv_ordered) (simp add: source_run_def send_order_def recv_order_def reuse_run_traced)

text \<open>
  C12. The other direction is not ordered. The swap of \<open>recv\<close> does not release and that of \<open>send\<close> does not
  acquire, so nothing orders the consumer's \<open>take()\<close> before the producer's next write to that buffer:
  there is a run of the code, two values received and a fourth one sent, with a data race on a buffer.
\<close>

theorem slot_reuse_races:
  "\<exists>h :: nat traced. source_run h \<and> received (sys h) = [7, 8] \<and> (Producer, 0) \<in> set (races h)"
proof (intro exI conjI)
  show "source_run (reuse_run Release Acquire)" by (simp add: source_run_def send_order_def recv_order_def reuse_run_traced)
qed (simp_all add: reuse_run_races)

end
