(* ===== verification/SlotOrder.thy ===== *)
theory SlotOrder
  imports AtomicSlot
begin

text \<open>
  \<open>src/atomic_slot.rs\<close> as its two threads see it: however their accesses interleave, and although the fast
  path of \<open>recv\<close> may read an old state byte, the sends of the one and the receives of the other are
  those of some sequence of whole operations, each run without interruption (\<open>slot_send\<close>, \<open>slot_recv\<close>).
  This is why the theories that use a slot treat them as single steps.
\<close>

section \<open>Runs with what the receives return\<close>

text \<open>What a step returns to the consumer: the fast path \<open>None\<close>, the end of a take its value.\<close>

definition returned :: "'a system \<Rightarrow> 'a system \<Rightarrow> 'a option list" where
  "returned c c' =
     (if c' = c then [None]
      else if consumer_at c = CTaking \<and> consumer_at c' = CIdle
      then (case take_front (slot c) of Inl _ \<Rightarrow> [] | Inr (r, _) \<Rightarrow> [r])
      else [])"

inductive observed :: "'a system \<Rightarrow> 'a option list \<Rightarrow> bool" where
  start: "observed system_new []"
| next_step: "observed c rs \<Longrightarrow> step c a c' \<Longrightarrow> observed c' (rs @ returned c c')"

lemma observed_reachable: "observed c rs \<Longrightarrow> reachable c"
  by (induction rule: observed.induct) (auto intro: reachable.intros)

lemma reachable_observed: "reachable c \<Longrightarrow> \<exists>rs. observed c rs"
  by (induction rule: reachable.induct) (auto intro: observed.intros)

text \<open>Only the fast path leaves the system as it is.\<close>

lemma changed [simp]:
  "c\<lparr>producer_at := p\<rparr> = c \<longleftrightarrow> producer_at c = p" "c\<lparr>consumer_at := q\<rparr> = c \<longleftrightarrow> consumer_at c = q"
  "c\<lparr>slot := s, producer_at := p\<rparr> = c \<longleftrightarrow> slot c = s \<and> producer_at c = p"
  "c\<lparr>slot := s, consumer_at := q\<rparr> = c \<longleftrightarrow> slot c = s \<and> consumer_at c = q"
  "c\<lparr>slot := s, producer_at := p, sent := l\<rparr> = c \<longleftrightarrow> slot c = s \<and> producer_at c = p \<and> sent c = l"
  "c\<lparr>slot := s, consumer_at := q, received := l\<rparr> = c \<longleftrightarrow> slot c = s \<and> consumer_at c = q \<and> received c = l"
  "c\<lparr>slot := s, tx_alive := b, frees := n\<rparr> = c \<longleftrightarrow> slot c = s \<and> tx_alive c = b \<and> frees c = n"
  "c\<lparr>slot := s, rx_alive := b, frees := n\<rparr> = c \<longleftrightarrow> slot c = s \<and> rx_alive c = b \<and> frees c = n"
  by (cases c; auto)+

lemma returned_other: "c' \<noteq> c \<Longrightarrow> consumer_at c' = consumer_at c \<Longrightarrow> returned c c' = []"
  by (auto simp: returned_def)

section \<open>Sequences of whole operations\<close>

abbreviation sends :: "'a option list \<Rightarrow> 'a list" where
  "sends \<equiv> List.map_filter (\<lambda>op. op)"

lemma sends_snoc [simp]: "sends (ops @ [None]) = sends ops" "sends (ops @ [Some v]) = sends ops @ [v]"
  by (simp_all add: map_filter_def)

lemma register_snoc [simp]:
  "register u (ops @ [Some v]) = register u ops" "register u (ops @ [None]) = register u ops @ [last (u # ops)]"
  by (induction u ops rule: register.induct) auto

text \<open>One more receive that finds nothing fits in right after the last one, before the sends since.\<close>

lemma late_load:
  "\<exists>ops'. register None ops' = register None ops @ [None] \<and> sends ops' = sends ops \<and> last (None # ops') = last (None # ops)"
proof (induction ops rule: rev_induct)
  case Nil
  show ?case by (rule exI [of _ "[None]"]) simp
next
  case (snoc op ops)
  then obtain ops' where ops': "register None ops' = register None ops @ [None]" "sends ops' = sends ops" by blast
  show ?case
  proof (cases op)
    case None
    then show ?thesis by (intro exI [of _ "(ops @ [None]) @ [None]"]) (simp only: register_snoc sends_snoc last.simps, simp)
  next
    case (Some v)
    with ops' show ?thesis by (intro exI [of _ "ops' @ [Some v]"]) simp
  qed
qed

text \<open>
  The operations that explain what both threads have seen so far; a receive past its swap has its
  value in hand.
\<close>

definition explains :: "'a option list \<Rightarrow> 'a system \<Rightarrow> 'a option list \<Rightarrow> bool" where
  "explains ops c rs \<longleftrightarrow> register None ops = rs @ map Some (in_hand (consumer_at c) (slot c))
     \<and> sends ops = sent c \<and> last (None # ops) = slot_unread (slot c)"

lemma step_explained:
  assumes "step c a c'" and "data_inv c" and "explains ops c rs"
  shows "\<exists>ops'. explains ops' c' (rs @ returned c c')"
  using assms
proof (induction rule: step.induct)
  case (send_write c v s')
  then have "roles_ok (slot c)" by (simp add: data_inv_def buffers_ok_def)
  note w = write_effect [OF this send_write.hyps(2)]
  have "slot_unread s' = slot_unread (slot c)" using w(7) by (simp add: slot_unread_def w(3,4))
  with send_write.hyps(1) send_write.prems(2) show ?case
    by (intro exI [of _ ops]) (simp add: explains_def returned_other w(2))
next
  case (send_swap c v)
  then have r: "roles_ok (slot c)" by (simp add: data_inv_def buffers_ok_def)
  note p = publish_swap_simps [OF r]
  have "slot_unread (publish_swap (slot c)) = Some v"
    using send_swap p by (simp add: slot_unread_def data_inv_def buffers_ok_def)
  with send_swap.hyps(1) send_swap.prems(2) show ?case
    by (intro exI [of _ "ops @ [Some v]"]) (simp add: explains_def returned_other in_hand_def p)
next
  case (recv_empty c)
  from late_load [of ops] obtain ops' where "register None ops' = register None ops @ [None]"
    "sends ops' = sends ops" "last (None # ops') = last (None # ops)" by blast
  with recv_empty.hyps(1) recv_empty.prems(2) show ?case
    by (intro exI [of _ ops']) (simp add: explains_def returned_def in_hand_def)
next
  case (recv_swap c)
  then have r: "roles_ok (slot c)" by (simp add: data_inv_def buffers_ok_def)
  note t = take_swap_simps [OF r]
  obtain v where v: "slot_unread (slot c) = Some v" "buffers (slot c) ! mid (slot c) = Some v"
    using recv_swap by (auto simp: slot_unread_def data_inv_def buffers_ok_def)
  with recv_swap.hyps(1) recv_swap.prems(2) show ?case
    by (intro exI [of _ "ops @ [None]"]) (simp add: explains_def returned_def in_hand_def t slot_unread_def [of "take_swap s" for s])
next
  case (recv_take c r s')
  then have "roles_ok (slot c)" by (simp add: data_inv_def buffers_ok_def)
  note t = take_effect(1,3,4,6) [OF this recv_take.hyps(2)]
  obtain v where "r = Some v" using t(1) recv_take by (auto simp: data_inv_def buffers_ok_def)
  moreover have "slot_unread s' = slot_unread (slot c)" using t(4) by (simp add: slot_unread_def t(2,3))
  ultimately show ?case using recv_take.hyps recv_take.prems(2) t(1)
    by (intro exI [of _ ops]) (simp add: explains_def returned_def in_hand_def)
next
  case (drop_sender c free s')
  note d = drop_effect(1,5,6,8) [OF drop_sender.hyps(3)]
  from drop_sender.hyps(1,2) drop_sender.prems(2) show ?case
    by (intro exI [of _ ops]) (simp add: explains_def returned_other slot_unread_def d)
next
  case (drop_receiver c free s')
  note d = drop_effect(1,5,6,8) [OF drop_receiver.hyps(3)]
  from drop_receiver.hyps(1,2) drop_receiver.prems(2) show ?case
    by (intro exI [of _ ops]) (simp add: explains_def returned_other slot_unread_def d)
qed (auto intro!: exI [of _ ops] simp: explains_def returned_def in_hand_def)

lemma observed_explained: "observed c rs \<Longrightarrow> \<exists>ops. explains ops c rs"
proof (induction rule: observed.induct)
  case start
  show ?case
    by (rule exI [of _ "[]"])
      (simp add: explains_def system_new_def in_hand_def slot_unread_def slot_new_simps map_filter_def)
next
  case (next_step c rs a c')
  with step_explained reachable_inv [OF observed_reachable [OF next_step.hyps(1)]] show ?case by blast
qed

section \<open>Properties\<close>

text \<open>
  C9. Sends and receives are atomic in effect. For every interleaving of the accesses of both threads,
  with every load of the fast path as stale as its ordering allows, there is a sequence of whole
  operations on a new slot that makes the same sends in the same order, whose receives return the
  same answers in the same order (of a receive past its swap, the answer it is about to give), and
  that leaves the same value unread.
\<close>

theorem slot_operations_atomic:
  assumes "observed c rs"
  shows "\<exists>ops. run_ops slot_send slot_recv slot_new ops = Inr (rs @ map Some (in_hand (consumer_at c) (slot c)))
    \<and> sends ops = sent c \<and> last (None # ops) = slot_unread (slot c)"
  using observed_explained [OF assms] slot_is_register by (metis explains_def)

theorem slot_operations_atomic_witness:
  "\<exists>rs ops. run_ops slot_send slot_recv slot_new ops = Inr (rs @ [Some 7]) \<and> sends ops = sent busy"
proof -
  obtain rs where "observed busy rs" using reachable_observed [OF busy_reachable] by blast
  from slot_operations_atomic [OF this] show ?thesis by (auto simp: busy_def in_hand_def)
qed

end
