(* ===== verification/Http.thy ===== *)
theory Http
  imports Pipeline
begin

text \<open>
  The metrics server of \<open>src/metrics.rs\<close>: its routes with the answers of \<open>/health\<close> and \<open>/metrics\<close>, and
  what they say of a running process. The router is axum's: a parameter under the locale
  \<open>http_router\<close>, which states what its documentation says of a table of \<open>get\<close> routes.
\<close>

section \<open>The routes\<close>

record http_response =
  http_status :: nat
  http_content :: bytes

datatype http_method = GET | HEAD | OtherMethod

text \<open>\<open>health\<close> and \<open>prom_metrics\<close> as answers; a string is sent with status 200.\<close>

definition health_content :: "health_status \<Rightarrow> bytes" where
  "health_content s = (case s of HealthOk \<Rightarrow> ascii ''OK'' | HealthDegraded \<Rightarrow> ascii ''DEGRADED'' | HealthDown \<Rightarrow> ascii ''DOWN'') @ [10]"

definition health_response :: "metrics \<Rightarrow> http_response" where
  "health_response m = \<lparr>http_status = status_code (health m), http_content = health_content (health m)\<rparr>"

definition prom_metrics :: "(u64 \<Rightarrow> bytes) \<Rightarrow> instant \<Rightarrow> metrics \<Rightarrow> http_response" where
  "prom_metrics show_secs now m = \<lparr>http_status = 200, http_content = to_prometheus show_secs now m\<rparr>"

definition routes :: "(u64 \<Rightarrow> bytes) \<Rightarrow> instant \<Rightarrow> metrics \<Rightarrow> (bytes \<times> http_response) list" where
  "routes show_secs now m = [(ascii ''/health'', health_response m), (ascii ''/metrics'', prom_metrics show_secs now m)]"

text \<open>A path not in the table is not found; another method than \<open>GET\<close> or \<open>HEAD\<close> is not allowed.\<close>

locale http_router =
  fixes respond :: "(bytes \<times> http_response) list \<Rightarrow> http_method \<Rightarrow> bytes \<Rightarrow> http_response"
  assumes found: "map_of table path = Some r \<Longrightarrow> respond table GET path = r"
    and head: "map_of table path = Some r \<Longrightarrow> http_status (respond table HEAD path) = http_status r"
    and not_allowed: "map_of table path \<noteq> None \<Longrightarrow> http_status (respond table OtherMethod path) = 405"
    and not_found: "map_of table path = None \<Longrightarrow> http_status (respond table method path) = 404"

definition reference_router :: "(bytes \<times> http_response) list \<Rightarrow> http_method \<Rightarrow> bytes \<Rightarrow> http_response" where
  "reference_router table method path =
     (case (map_of table path, method) of
        (None, _) \<Rightarrow> \<lparr>http_status = 404, http_content = []\<rparr>
      | (Some r, GET) \<Rightarrow> r
      | (Some r, HEAD) \<Rightarrow> r\<lparr>http_content := []\<rparr>
      | (Some r, OtherMethod) \<Rightarrow> \<lparr>http_status = 405, http_content = []\<rparr>)"

interpretation ref_router: http_router reference_router
  by unfold_locales (auto simp: reference_router_def split: http_method.splits)

section \<open>The connection gauges of a running process\<close>

definition link_up :: "ws_pc \<Rightarrow> bool" where
  "link_up at \<longleftrightarrow> at = Subscribing \<or> at = Reading \<or> (\<exists>p. at = Panicked p)"

text \<open>The gauge tells whether the adapter is connected, unless it stopped because the merger is gone.\<close>

definition gauge_exact :: "bool \<Rightarrow> 'h ws_state \<Rightarrow> bool" where
  "gauge_exact gone c \<longleftrightarrow> (em_connected (em c) \<longleftrightarrow> link_up (pc c)) \<or> gone \<and> pc c = Returned"

lemma ws_step_gauge:
  assumes "own_input i" and "gauge_exact gone c"
    and "\<And>t0 d t h s m r. process_text H t0 d t (handler c) (sender c) (em c) = Inr (h, s, m, r) \<Longrightarrow>
      em_connected m = em_connected (em c) \<and> (r = Shutdown \<longrightarrow> gone)"
  shows "gauge_exact gone (ws_step H rand symbol c i)"
proof (cases "\<exists>t0 d t. i = TextFrame t0 d t \<and> pc c = Reading")
  case True
  then obtain t0 d t where t: "i = TextFrame t0 d t" "pc c = Reading" by blast
  show ?thesis
  proof (cases "process_text H t0 d t (handler c) (sender c) (em c)")
    case (Inl p)
    with t assms(2) show ?thesis by (simp add: ws_step.simps on_text_def gauge_exact_def link_up_def)
  next
    case (Inr out)
    obtain h s m r where out: "out = (h, s, m, r)" by (cases out)
    with assms(3) Inr have "em_connected m = em_connected (em c)" "r = Shutdown \<longrightarrow> gone" by blast+
    with t assms(2) Inr out show ?thesis
      by (cases r) (auto simp: ws_step.simps on_text_def gauge_exact_def link_up_def)
  qed
next
  case False
  with assms(1,2) show ?thesis
    by (cases i; cases "pc c")
      (auto simp: ws_step.simps gauge_exact_def link_up_def own_input_def on_connect_def Let_def split: option.splits)
qed

definition gauges_exact :: "pipeline \<Rightarrow> bool" where
  "gauges_exact p \<longleftrightarrow> gauge_exact (merger_gone p) (binance_feed p) \<and> gauge_exact (merger_gone p) (bitstamp_feed p)
     \<and> (binance_gone p \<longrightarrow> pc (binance_feed p) = Returned) \<and> (bitstamp_gone p \<longrightarrow> pc (bitstamp_feed p) = Returned)"

lemma binance_gauge:
  assumes X: "external_crates X" and "own_input i" and "side_inv X es c" and "gauge_exact gone c"
    and "is_abandoned (sender c) \<Longrightarrow> gone"
  shows "gauge_exact gone (ws_step (binance_ws X) rand symbol c i)"
  using assms(2,4)
proof (rule ws_step_gauge)
  fix t0 d t h s m r
  assume "process_text (binance_ws X) t0 d t (handler c) (sender c) (em c) = Inr (h, s, m, r)"
  with binance_text_slot [OF X] assms(3,5) show "em_connected m = em_connected (em c) \<and> (r = Shutdown \<longrightarrow> gone)"
    by (auto simp: binance_ws_def side_inv_def)
qed

lemma bitstamp_gauge:
  assumes "own_input i" and "side_inv X es c" and "gauge_exact gone c" and "is_abandoned (sender c) \<Longrightarrow> gone"
  shows "gauge_exact gone (ws_step (bitstamp_ws X) rand symbol c i)"
  using assms(1,3)
proof (rule ws_step_gauge)
  fix t0 d t h s m r
  assume "process_text (bitstamp_ws X) t0 d t (handler c) (sender c) (em c) = Inr (h, s, m, r)"
  with bitstamp_text_slot assms(2,4) show "em_connected m = em_connected (em c) \<and> (r = Shutdown \<longrightarrow> gone)"
    by (auto simp: bitstamp_ws_def side_inv_def)
qed

lemma gauge_exact_more: "gauge_exact gone c \<Longrightarrow> gauge_exact True c"
  by (auto simp: gauge_exact_def)

lemma gauge_exact_slot [simp]: "gauge_exact gone (c\<lparr>sender := s\<rparr>) = gauge_exact gone c"
  "gauge_exact gone (drop_sender c) = gauge_exact gone c"
  by (simp_all add: gauge_exact_def drop_sender_def)

lemma ws_step_returned: "pc c = Returned \<Longrightarrow> own_input i \<Longrightarrow> ws_step H rand symbol c i = c"
  by (cases i) (simp_all add: ws_step.simps own_input_def)

lemma gauges_exact_step:
  assumes X: "external_crates X" and inv: "pipeline_inv X es p" and counts: "counts_ok p" and gauges: "gauges_exact p"
  shows "gauges_exact (pipeline_step X rand symbol p e)"
proof -
  have sides: "side_inv X es (binance_feed p)" "side_inv X es (bitstamp_feed p)"
    using inv by (simp_all add: pipeline_inv_def)
  have abandoned: "is_abandoned (sender (binance_feed p)) \<Longrightarrow> \<not> binance_gone p \<Longrightarrow> merger_gone p"
    "is_abandoned (sender (bitstamp_feed p)) \<Longrightarrow> \<not> bitstamp_gone p \<Longrightarrow> merger_gone p"
    using counts by (auto simp: counts_ok_def is_abandoned_def split: if_splits)
  show ?thesis
  proof (cases e)
    case (BinanceInput i)
    with binance_gauge [OF X _ sides(1)] abandoned(1) gauges show ?thesis
      by (cases "binance_gone p") (auto simp: gauges_exact_def ws_step_returned)
  next
    case (BitstampInput i)
    with bitstamp_gauge [OF _ sides(2)] abandoned(2) gauges show ?thesis
      by (cases "bitstamp_gone p") (auto simp: gauges_exact_def ws_step_returned)
  next
    case (MergerPoll t0 d)
    then show ?thesis
      using gauges by (auto simp: gauges_exact_def split: merger_pc.split sum.split)
  next
    case MergerExits
    with gauges show ?thesis by (auto simp: gauges_exact_def drop_sender_def intro: gauge_exact_more)
  qed (use gauges in \<open>auto simp: gauges_exact_def drop_sender_def\<close>)
qed

lemma gauges_exact_run: "external_crates X \<Longrightarrow> gauges_exact (pipeline_run X rand symbol es)"
proof (induction es rule: rev_induct)
  case Nil
  show ?case
    by (simp add: pipeline_run_def pipeline_start_def gauges_exact_def gauge_exact_def binance_start_def bitstamp_start_def
        ws_init_def link_up_def exchange_metrics_new_def)
next
  case (snoc e es)
  then show ?case
    using gauges_exact_step [OF snoc.prems pipeline_inv_run counts_ok_run] by (simp add: pipeline_run_def)
qed

section \<open>Properties\<close>

text \<open>The registry a running process serves: the metrics the threads share with the server.\<close>

definition registry :: "instant \<Rightarrow> pipeline \<Rightarrow> metrics" where
  "registry start p = \<lparr>mt_exchanges = [em (binance_feed p), em (bitstamp_feed p)], mt_merges = merges (merger_side p),
     mt_e2e_latency = e2e_latency (merger_side p), mt_start_time = start\<rparr>"

definition reads :: "'h ws_state \<Rightarrow> bool" where
  "reads c \<longleftrightarrow> pc c = Subscribing \<or> pc c = Reading"

text \<open>
  C20. \<open>GET /health\<close> tells the truth. While the merger runs and nothing has panicked, in every interleaving, it
  answers \<open>OK\<close> when both adapters hold a connection, \<open>DEGRADED\<close> when exactly one does, and \<open>DOWN\<close> with
  status 503 when none does.
\<close>

theorem health_exact:
  fixes X rand symbol es
  assumes "http_router respond" and "external_crates X"
  defines "p \<equiv> pipeline_run X rand symbol es"
  assumes "\<not> aborted p" and "\<not> merger_gone p"
  shows "respond (routes show_secs now (registry start p)) GET (ascii ''/health'')
      = (if reads (binance_feed p) \<and> reads (bitstamp_feed p) then \<lparr>http_status = 200, http_content = ascii ''OK'' @ [10]\<rparr>
         else if reads (binance_feed p) \<or> reads (bitstamp_feed p)
         then \<lparr>http_status = 200, http_content = ascii ''DEGRADED'' @ [10]\<rparr>
         else \<lparr>http_status = 503, http_content = ascii ''DOWN'' @ [10]\<rparr>)"
proof -
  have "map_of (routes show_secs now (registry start p)) (ascii ''/health'') = Some (health_response (registry start p))"
    by (simp add: routes_def)
  note answer = http_router.found [OF assms(1) this]
  have "em_connected (em (binance_feed p)) \<longleftrightarrow> reads (binance_feed p)"
    "em_connected (em (bitstamp_feed p)) \<longleftrightarrow> reads (bitstamp_feed p)"
    using gauges_exact_run [OF assms(2), of rand symbol es] assms(4,5)
    by (auto simp: p_def [symmetric] gauges_exact_def gauge_exact_def link_up_def reads_def aborted_def)
  then show ?thesis
    unfolding answer by (auto simp: health_response_def health_def registry_def status_code_def health_content_def)
qed

theorem health_exact_witness:
  "reference_router (routes (\<lambda>n. []) 9 (registry 0 (pipeline_run reference_crates (\<lambda>n g. 0) []
      [BinanceInput (Check False), BinanceInput ConnectOk]))) GET (ascii ''/health'')
    = \<lparr>http_status = 200, http_content = ascii ''DEGRADED'' @ [10]\<rparr>"
proof -
  let ?es = "[BinanceInput (Check False), BinanceInput ConnectOk]"
  let ?p = "pipeline_run reference_crates (\<lambda>n g. 0) [] ?es"
  have "\<not> aborted ?p" "\<not> merger_gone ?p" "reads (binance_feed ?p)" "\<not> reads (bitstamp_feed ?p)"
    by (simp_all add: pipeline_run_def pipeline_start_def aborted_def binance_start_def bitstamp_start_def ws_init_def
        ws_step.simps own_input_def on_connect_def binance_ws_def Let_def reads_def)
  with health_exact [OF ref_router.http_router_axioms reference.external_crates_axioms, of "\<lambda>n g. 0" "[]" ?es "\<lambda>n. []" 9 0]
  show ?thesis by simp
qed

end
