(* ===== verification/Freshness.thy ===== *)
theory Freshness
  imports Pipeline
begin

text \<open>
  Nothing is lost between the adapters and the merger: over any interleaving of \<open>Pipeline\<close>, the store of
  the merger (\<open>BookStore\<close> of \<open>src/merger.rs\<close>) and the summary published last, against the book each
  adapter put into its slot last.
\<close>

section \<open>The newest books\<close>

text \<open>The book that stood in a slot last: what is unread there now, or else what was known before.\<close>

definition last_seen :: "order_book slot \<Rightarrow> order_book option \<Rightarrow> order_book option" where
  "last_seen s n = (case slot_unread s of Some b \<Rightarrow> Some b | None \<Rightarrow> n)"

definition newest_step ::
    "crates \<Rightarrow> (u64 \<Rightarrow> nat \<Rightarrow> u64) \<Rightarrow> bytes \<Rightarrow> pipeline \<times> order_book option list \<Rightarrow> pipeline_event
      \<Rightarrow> pipeline \<times> order_book option list" where
  "newest_step X rand symbol = (\<lambda>(p, ns) e.
     let p' = pipeline_step X rand symbol p e in (p', map2 last_seen (shared p') ns))"

definition newest_books ::
    "crates \<Rightarrow> (u64 \<Rightarrow> nat \<Rightarrow> u64) \<Rightarrow> bytes \<Rightarrow> pipeline_event list \<Rightarrow> order_book option list" where
  "newest_books X rand symbol es = snd (foldl (newest_step X rand symbol) (pipeline_start, [None, None]) es)"

text \<open>The merger read its clock when the book had been there for longer than the threshold.\<close>

definition went_stale :: "pipeline_event list \<Rightarrow> order_book \<Rightarrow> bool" where
  "went_stale es b \<longleftrightarrow> (\<exists>t0 d. MergerPoll t0 d \<in> set es \<and> ob_decode_start b + STALE_THRESHOLD < t0)"

definition up_to_date :: "pipeline_event list \<Rightarrow> order_book slot \<Rightarrow> order_book option \<Rightarrow> order_book option \<Rightarrow> bool" where
  "up_to_date es s stored n \<longleftrightarrow> (case slot_unread s of
      Some b \<Rightarrow> n = Some b
    | None \<Rightarrow> stored = n \<or> stored = None \<and> (\<exists>b. n = Some b \<and> went_stale es b))"

lemma newest_run: "fst (foldl (newest_step X rand symbol) (pipeline_start, ns) es) = pipeline_run X rand symbol es"
  by (induction es rule: rev_induct)
    (simp_all add: pipeline_run_def newest_step_def Let_def case_prod_unfold)

lemma newest_snoc:
  "newest_books X rand symbol (es @ [e])
    = map2 last_seen (shared (pipeline_run X rand symbol (es @ [e]))) (newest_books X rand symbol es)"
proof -
  have "fst (foldl (newest_step X rand symbol) (pipeline_start, [None, None]) es) = pipeline_run X rand symbol es"
    by (rule newest_run)
  then show ?thesis
    by (simp add: newest_books_def newest_step_def Let_def case_prod_unfold) (simp add: pipeline_run_def)
qed

section \<open>Steps\<close>

lemma up_to_date_put:
  assumes "up_to_date es s stored n" and "slot_unread s' = slot_unread s \<or> slot_unread s' \<noteq> None"
  shows "up_to_date es s' stored (last_seen s' n)"
  using assms by (auto simp: up_to_date_def last_seen_def split: option.splits)

lemma up_to_date_mono: "up_to_date es s stored n \<Longrightarrow> set es \<subseteq> set es' \<Longrightarrow> up_to_date es' s stored n"
  unfolding up_to_date_def went_stale_def by (auto split: option.splits)

text \<open>A look at the clock evicts a book or keeps it.\<close>

lemma evicted:
  "MergerPoll t0 d \<in> set es \<Longrightarrow> evict_slot t0 STALE_THRESHOLD (Some b) = Some b
    \<or> evict_slot t0 STALE_THRESHOLD (Some b) = None \<and> went_stale es b"
  by (force simp: evict_slot_def went_stale_def Let_def)

lemma up_to_date_evict:
  assumes "up_to_date es s stored n" and "MergerPoll t0 d \<in> set es"
  shows "up_to_date es s (evict_slot t0 STALE_THRESHOLD stored) n"
proof (cases stored)
  case None
  with assms(1) show ?thesis by (simp add: evict_slot_def)
next
  case (Some b)
  with assms(1) evicted [OF assms(2), of b] show ?thesis by (auto simp: up_to_date_def split: option.splits)
qed

lemma up_to_date_taken:
  assumes "slot_unread s = Some b" and "up_to_date es s stored n" and "MergerPoll t0 d \<in> set es" and "slot_unread s' = None"
  shows "up_to_date es s' (evict_slot t0 STALE_THRESHOLD (Some b)) n"
  using assms evicted [OF assms(3), of b] by (auto simp: up_to_date_def)

lemma binance_unread:
  assumes "external_crates X" and "own_input i" and "side_inv X es c"
  shows "slot_unread (sender (ws_step (binance_ws X) rand symbol c i)) = slot_unread (sender c)
    \<or> (\<exists>b. slot_unread (sender (ws_step (binance_ws X) rand symbol c i)) = Some b \<and> ob_exchange_id b = BINANCE_ID)"
proof (cases rule: ws_step_slot [OF assms(2), of "binance_ws X" rand symbol c, case_names same frame])
  case (frame t0 d t h s m r)
  with binance_text_slot [OF assms(1)] assms(3) show ?thesis by (fastforce simp: binance_ws_def side_inv_def)
qed simp

lemma bitstamp_unread:
  assumes "own_input i" and "side_inv X es c"
  shows "slot_unread (sender (ws_step (bitstamp_ws X) rand symbol c i)) = slot_unread (sender c)
    \<or> (\<exists>b. slot_unread (sender (ws_step (bitstamp_ws X) rand symbol c i)) = Some b \<and> ob_exchange_id b = BITSTAMP_ID)"
proof (cases rule: ws_step_slot [OF assms(1), of "bitstamp_ws X" rand symbol c, case_names same frame])
  case (frame t0 d t h s m r)
  with bitstamp_text_slot assms(2) show ?thesis by (fastforce simp: bitstamp_ws_def side_inv_def)
qed simp

section \<open>Invariant\<close>

definition tracked :: "crates \<Rightarrow> pipeline_event list \<Rightarrow> pipeline \<Rightarrow> order_book option list \<Rightarrow> bool" where
  "tracked X es p ns \<longleftrightarrow> length ns = 2
     \<and> (\<forall>i<2. up_to_date es (shared p ! i) (books (store (merger_side p)) ! i) (ns ! i)
         \<and> (\<forall>b. slot_unread (shared p ! i) = Some b \<longrightarrow> unat (ob_exchange_id b) = i))
     \<and> (summaries (merger_side p) \<noteq> [] \<longrightarrow> merge X (store (merger_side p)) = Inr (last (summaries (merger_side p))))"

lemma length_shared [simp]: "length (shared p) = 2"
  by (simp add: shared_def)

lemma tracked_put:
  assumes "tracked X es p ns"
    and "store (merger_side p') = store (merger_side p)" and "summaries (merger_side p') = summaries (merger_side p)"
    and "\<And>i. i < 2 \<Longrightarrow> slot_unread (shared p' ! i) = slot_unread (shared p ! i)
      \<or> (\<exists>b. slot_unread (shared p' ! i) = Some b \<and> unat (ob_exchange_id b) = i)"
  shows "tracked X es p' (map2 last_seen (shared p') ns)"
proof -
  have "up_to_date es (shared p' ! i) (books (store (merger_side p)) ! i) (last_seen (shared p' ! i) (ns ! i))
      \<and> (\<forall>b. slot_unread (shared p' ! i) = Some b \<longrightarrow> unat (ob_exchange_id b) = i)" if "i < 2" for i
    using assms(1) assms(4) [OF that] that unfolding tracked_def by (auto intro!: up_to_date_put)
  with assms(1-3) show ?thesis by (simp add: tracked_def)
qed

text \<open>A turn of the merger over one receiver empties that slot and leaves the other as it is.\<close>

lemma poll_step:
  fixes rand symbol t0 d
  assumes X: "external_crates X" and inv: "pipeline_inv X es p" and calm: "\<not> aborted p" and at: "merger_at p = AtReceiver i"
  defines "p' \<equiv> pipeline_step X rand symbol p (MergerPoll t0 d)"
  obtains c s where "poll_one X t0 d i ((merger_side p)\<lparr>slots := shared p\<rparr>) = Inr c" and "merger_side p' = c"
    and "slots c = (shared p)[i := s]" and "shared p' = (shared p)[i := s]" and "slot_unread s = None" and "i < 2"
    and "merger_at p' = (if i = 0 then AtReceiver 1 else AtCheck)" and "\<not> aborted p'"
proof -
  let ?c = "(merger_side p)\<lparr>slots := shared p\<rparr>"
  have i: "i < 2" and m: "merger_inv ?c" using inv at by (simp_all add: pipeline_inv_def)
  have slot: "slot_inv (slots ?c ! i)" using m i by (simp add: merger_inv_def list_all_length)
  obtain c where c: "poll_one X t0 d i ?c = Inr c" by (rule poll_event [OF X inv at])
  obtain s where s: "slots c = (shared p)[i := s]" "slot_unread s = None"
    using poll_one_slots [OF c slot] by auto
  have side: "merger_side p' = c" "merger_at p' = (if i + 1 < 2 then AtReceiver (i + 1) else AtCheck)"
    by (simp_all add: p'_def at calm c)
  moreover have "\<not> aborted p'" using calm by (simp add: p'_def at c) (simp add: aborted_def)
  moreover have "shared p' = [slots c ! 0, slots c ! 1]" by (simp add: p'_def at calm c) (simp add: shared_def)
  moreover have "i = 0 \<or> i = 1" using i by (auto simp: less_2_cases_iff)
  ultimately show thesis using c s i by (intro that [of c s]) (auto simp: s(1) shared_def)
qed

lemma tracked_poll:
  fixes rand symbol
  assumes X: "external_crates X" and inv: "pipeline_inv X es p" and tr: "tracked X es p ns"
    and e: "MergerPoll t0 d \<in> set es" and at: "merger_at p = AtReceiver i"
  defines "p' \<equiv> pipeline_step X rand symbol p (MergerPoll t0 d)"
  shows "tracked X es p' (map2 last_seen (shared p') ns)"
proof (cases "aborted p")
  case True
  then show ?thesis using tr by (intro tracked_put [OF tr]) (simp_all add: p'_def)
next
  case False
  let ?c = "(merger_side p)\<lparr>slots := shared p\<rparr>"
  obtain c s where c: "poll_one X t0 d i ?c = Inr c" and p': "merger_side p' = c" "shared p' = (shared p)[i := s]"
    and s: "slots c = (shared p)[i := s]" "slot_unread s = None"
    unfolding p'_def by (rule poll_step [OF X inv False at])
  have i: "i < length (slots ?c)" and m: "merger_inv ?c"
    using inv at by (simp_all add: pipeline_inv_def)
  show ?thesis
  proof (cases rule: poll_one_cases [OF X m i, of t0 d, case_names idle book])
    case (idle r)
    with c s p' i show ?thesis by (intro tracked_put [OF tr]) (auto simp: nth_list_update)
  next
    case (book b sm c')
    with c have c': "c' = c" by simp
    have b: "unat (ob_exchange_id b) = i" using tr i book(1) by (simp add: tracked_def)
    have len: "length (books (store (merger_side p))) = 2"
      using m by (simp add: merger_inv_def wf_store_def MAX_EXCHANGES_def EXCHANGES_def)
    with i b have st: "books (store c) = map (evict_slot t0 STALE_THRESHOLD) ((books (store (merger_side p)))[i := Some b])"
      using book(4) by (simp add: c' evict_stale_def store_insert_def)
    have "up_to_date es (shared p' ! j) (books (store c) ! j) (last_seen (shared p' ! j) (ns ! j))
        \<and> (\<forall>b. slot_unread (shared p' ! j) = Some b \<longrightarrow> unat (ob_exchange_id b) = j)" if j: "j < 2" for j
    proof (cases "j = i")
      case True
      have "up_to_date es (shared p ! i) (books (store (merger_side p)) ! i) (ns ! i)"
        using tr i by (simp add: tracked_def)
      with book(1) s(2) e True i len show ?thesis
        by (simp add: p'(2) st last_seen_def up_to_date_taken [where d = d])
    next
      case False
      have "up_to_date es (shared p ! j) (books (store (merger_side p)) ! j) (ns ! j)"
        "\<forall>b. slot_unread (shared p ! j) = Some b \<longrightarrow> unat (ob_exchange_id b) = j"
        using tr j by (simp_all add: tracked_def)
      with False j len show ?thesis
        by (simp add: p'(2) st up_to_date_put up_to_date_evict [OF _ e])
    qed
    with tr book(5,6) show ?thesis by (simp add: tracked_def p'(1) c')
  qed
qed

lemma tracked_step:
  fixes rand symbol
  assumes X: "external_crates X" and inv: "pipeline_inv X es p" and tr: "tracked X es p ns" and e: "e \<in> set es"
  defines "p' \<equiv> pipeline_step X rand symbol p e"
  shows "tracked X es p' (map2 last_seen (shared p') ns)"
proof (cases e)
  case (BinanceInput i)
  have "side_inv X es (binance_feed p)" using inv by (simp add: pipeline_inv_def)
  with binance_unread [OF X, of i es "binance_feed p" rand symbol] show ?thesis
    by (intro tracked_put [OF tr]) (auto simp: p'_def BinanceInput shared_def less_2_cases_iff BINANCE_ID_def)
next
  case (BitstampInput i)
  have "side_inv X es (bitstamp_feed p)" using inv by (simp add: pipeline_inv_def)
  with bitstamp_unread [of i X es "bitstamp_feed p" rand symbol] show ?thesis
    by (intro tracked_put [OF tr]) (auto simp: p'_def BitstampInput shared_def less_2_cases_iff BITSTAMP_ID_def)
next
  case (MergerPoll t0 d)
  show ?thesis
  proof (cases "\<exists>i. merger_at p = AtReceiver i")
    case True
    then show ?thesis using tracked_poll [OF X inv tr] e by (auto simp: p'_def MergerPoll)
  next
    case False
    then have "p' = p" by (cases "merger_at p") (simp_all add: p'_def MergerPoll)
    then show ?thesis by (intro tracked_put [OF tr]) simp_all
  qed
qed (intro tracked_put [OF tr]; auto simp: p'_def shared_def less_2_cases_iff)+

lemma tracked_run: "external_crates X \<Longrightarrow> tracked X es (pipeline_run X rand symbol es) (newest_books X rand symbol es)"
proof (induction es rule: rev_induct)
  case Nil
  show ?case
    by (simp add: tracked_def newest_books_def pipeline_run_def pipeline_start_def shared_def binance_start_def
        bitstamp_start_def ws_init_def less_2_cases_iff up_to_date_def slot_unread_def slot_new_simps merger_start_def
        store_new_def MAX_EXCHANGES_def EXCHANGES_def)
next
  case (snoc e es)
  let ?es = "es @ [e]" and ?p = "pipeline_run X rand symbol es"
  have "tracked X ?es ?p (newest_books X rand symbol es)"
    using snoc up_to_date_mono [of es _ _ _ ?es, simplified] by (auto simp: tracked_def)
  moreover have "pipeline_inv X ?es ?p" by (rule pipeline_inv_mono [OF pipeline_inv_run [OF snoc.prems]]) auto
  ultimately have "tracked X ?es (pipeline_step X rand symbol ?p e) (map2 last_seen (shared (pipeline_step X rand symbol ?p e)) (newest_books X rand symbol es))"
    by (intro tracked_step [OF snoc.prems]) simp_all
  then show ?case by (simp add: newest_snoc) (simp add: pipeline_run_def)
qed

lemma unread_frames:
  assumes "external_crates X" and "i < 2" and "slot_unread (shared (pipeline_run X rand symbol es) ! i) = Some b"
  shows "from_frame X es b \<and> unat (ob_exchange_id b) = i"
  using pipeline_inv_run [OF assms(1), of es rand symbol] tracked_run [OF assms(1), of es rand symbol] assms(2,3)
  by (auto simp: pipeline_inv_def side_inv_def unread_from_def tracked_def shared_def less_2_cases_iff)

lemma newest_frames:
  assumes "external_crates X" and "i < 2" and "newest_books X rand symbol es ! i = Some b"
  shows "from_frame X es b \<and> unat (ob_exchange_id b) = i"
  using assms(3)
proof (induction es rule: rev_induct)
  case Nil
  with assms(2) show ?case by (auto simp: newest_books_def less_2_cases_iff)
next
  case (snoc e es)
  have len: "length (newest_books X rand symbol es) = 2"
    using tracked_run [OF assms(1), of es rand symbol] by (simp add: tracked_def)
  show ?case
  proof (cases "slot_unread (shared (pipeline_run X rand symbol (es @ [e])) ! i)")
    case None
    with snoc.prems len assms(2) have "newest_books X rand symbol es ! i = Some b"
      by (simp add: newest_snoc last_seen_def)
    from snoc.IH [OF this] show ?thesis using from_frame_mono [of X es b "es @ [e]"] by auto
  next
    case (Some b')
    with snoc.prems len assms(2) have "b' = b" by (simp add: newest_snoc last_seen_def)
    with unread_frames [OF assms(1,2) Some] show ?thesis by simp
  qed
qed

section \<open>Properties\<close>

text \<open>
  C5. Nothing is lost. In every interleaving the summary published last is the merge of the merger's store,
  and that store is up to date: unless a book of the exchange is still unread in its slot, it holds
  the newest book the adapter of that exchange has put there, whose frame is among those received,
  or nothing, when there was no book or the merger has found the newest one stale. Newer books are
  never overtaken by older ones.
\<close>

theorem summary_is_current:
  fixes X rand symbol es
  assumes "external_crates X"
  defines "p \<equiv> pipeline_run X rand symbol es" and "newest \<equiv> newest_books X rand symbol es"
  shows "(summaries (merger_side p) \<noteq> [] \<longrightarrow> merge X (store (merger_side p)) = Inr (last (summaries (merger_side p))))
    \<and> (\<forall>i<2. (case slot_unread (shared p ! i) of
          Some b \<Rightarrow> newest ! i = Some b
        | None \<Rightarrow> books (store (merger_side p)) ! i = newest ! i
            \<or> books (store (merger_side p)) ! i = None \<and> (\<exists>b. newest ! i = Some b \<and> went_stale es b))
      \<and> (\<forall>b. newest ! i = Some b \<longrightarrow> from_frame X es b \<and> unat (ob_exchange_id b) = i))"
  using tracked_run [OF assms(1), of es rand symbol] newest_frames [OF assms(1)]
  unfolding tracked_def up_to_date_def p_def newest_def by blast

theorem summary_is_current_witness:
  "\<exists>sm. summaries (merger_side (pipeline_run reference_crates (\<lambda>n g. 0) (ascii ''ethbtc'') first_events)) = [sm]
    \<and> merge reference_crates (store (merger_side (pipeline_run reference_crates (\<lambda>n g. 0) (ascii ''ethbtc'') first_events))) = Inr sm"
proof -
  obtain sm where "summaries (merger_side (pipeline_run reference_crates (\<lambda>n g. 0) (ascii ''ethbtc'') first_events)) = [sm]"
    by (rule first_summary)
  with summary_is_current [OF reference.external_crates_axioms, of "\<lambda>n g. 0" "ascii ''ethbtc''" first_events]
  show ?thesis by auto
qed

end
