(* ===== verification/Shutdown.thy ===== *)
theory Shutdown
  imports Pipeline
begin

text \<open>
  The end of the process: the shutdown signal (or a metrics port that does not bind) cancels the shared
  token, and every thread of \<open>Pipeline\<close> comes to its end within a bounded number of its own steps,
  whatever they are doing at that moment and however they are scheduled, so that the joins of \<open>main\<close>
  return.
\<close>

section \<open>The steps of a cancelled process\<close>

text \<open>
  The events that can happen once the token is cancelled: what a cancelled environment answers to an
  adapter that waits (\<open>cancelled_answer\<close>), the merger's next step, the exit of a thread that has ended.
\<close>

fun cancelled_event :: "pipeline \<Rightarrow> pipeline_event \<Rightarrow> bool" where
  "cancelled_event p (BinanceInput i) \<longleftrightarrow> pc (binance_feed p) \<noteq> Returned \<and> cancelled_answer (pc (binance_feed p)) i"
| "cancelled_event p (BitstampInput i) \<longleftrightarrow> pc (bitstamp_feed p) \<noteq> Returned \<and> cancelled_answer (pc (bitstamp_feed p)) i"
| "cancelled_event p BinanceExits \<longleftrightarrow> pc (binance_feed p) = Returned \<and> \<not> binance_gone p"
| "cancelled_event p BitstampExits \<longleftrightarrow> pc (bitstamp_feed p) = Returned \<and> \<not> bitstamp_gone p"
| "cancelled_event p (MergerCheck b) \<longleftrightarrow> merger_at p = AtCheck \<and> b"
| "cancelled_event p (MergerPoll t0 d) \<longleftrightarrow> (case merger_at p of AtReceiver _ \<Rightarrow> True | _ \<Rightarrow> False)"
| "cancelled_event p MergerExits \<longleftrightarrow> merger_at p = Stopped \<and> \<not> merger_gone p"

fun winds_down ::
    "crates \<Rightarrow> (u64 \<Rightarrow> nat \<Rightarrow> u64) \<Rightarrow> bytes \<Rightarrow> pipeline \<Rightarrow> pipeline_event list \<Rightarrow> bool" where
  "winds_down X rand symbol p [] \<longleftrightarrow> True"
| "winds_down X rand symbol p (e # es) \<longleftrightarrow>
     cancelled_event p e \<and> winds_down X rand symbol (pipeline_step X rand symbol p e) es"

text \<open>How many such events are left at most.\<close>

fun polls_left :: "merger_pc \<Rightarrow> nat" where
  "polls_left AtCheck = 1"
| "polls_left (AtReceiver i) = 3 - i"
| "polls_left _ = 0"

definition steps_left :: "pipeline \<Rightarrow> nat" where
  "steps_left p = waits_left (pc (binance_feed p)) + of_bool (\<not> binance_gone p)
     + (waits_left (pc (bitstamp_feed p)) + of_bool (\<not> bitstamp_gone p))
     + (polls_left (merger_at p) + of_bool (\<not> merger_gone p))"

definition all_gone :: "pipeline \<Rightarrow> bool" where
  "all_gone p \<longleftrightarrow> binance_gone p \<and> bitstamp_gone p \<and> merger_gone p"

definition calm :: "ws_pc \<Rightarrow> bool" where
  "calm at = (case at of Panicked _ \<Rightarrow> False | _ \<Rightarrow> True)"

lemma aborted_calm: "pipeline_inv X es p \<Longrightarrow>
    aborted p \<longleftrightarrow> \<not> (calm (pc (binance_feed p)) \<and> calm (pc (bitstamp_feed p)))"
  by (auto simp: aborted_def calm_def pipeline_inv_def split: ws_pc.splits merger_pc.splits)

lemma adapter_winds_down:
  assumes "cancelled_answer (pc c) i" and "pc c \<noteq> Returned" and "calm (pc c)"
  shows "own_input i \<and> calm (pc (ws_step H rand symbol c i))
    \<and> waits_left (pc (ws_step H rand symbol c i)) < waits_left (pc c)"
  using assms
  by (cases "pc c"; cases i)
    (auto simp: ws_step.simps calm_def own_input_def on_connect_def Let_def split: option.splits)

lemma winding_down:
  assumes X: "external_crates X" and inv: "pipeline_inv X es p" and calm: "\<not> aborted p" and e: "cancelled_event p e"
  shows "steps_left (pipeline_step X rand symbol p e) < steps_left p"
    and "calm (pc (binance_feed (pipeline_step X rand symbol p e)))
      \<and> calm (pc (bitstamp_feed (pipeline_step X rand symbol p e)))"
proof -
  from calm aborted_calm [OF inv] have pcs: "calm (pc (binance_feed p))" "calm (pc (bitstamp_feed p))" by simp_all
  have "steps_left (pipeline_step X rand symbol p e) < steps_left p
      \<and> calm (pc (binance_feed (pipeline_step X rand symbol p e)))
      \<and> calm (pc (bitstamp_feed (pipeline_step X rand symbol p e)))"
  proof (cases e)
    case (BinanceInput i)
    with adapter_winds_down [of "binance_feed p" i "binance_ws X" rand symbol] pcs e calm show ?thesis
      by (simp add: steps_left_def)
  next
    case (BitstampInput i)
    with adapter_winds_down [of "bitstamp_feed p" i "bitstamp_ws X" rand symbol] pcs e calm show ?thesis
      by (simp add: steps_left_def)
  next
    case (MergerPoll t0 d)
    then obtain i where at: "merger_at p = AtReceiver i" using e by (auto split: merger_pc.splits)
    then have "i < 2" using inv by (simp add: pipeline_inv_def)
    moreover obtain c where "poll_one X t0 d i ((merger_side p)\<lparr>slots := shared p\<rparr>) = Inr c"
      by (rule poll_event [OF X inv at])
    ultimately show ?thesis
      using MergerPoll at calm pcs by (simp add: steps_left_def shared_def) arith
  qed (use e calm pcs in \<open>simp_all add: steps_left_def drop_sender_def\<close>)
  then show "steps_left (pipeline_step X rand symbol p e) < steps_left p"
    "calm (pc (binance_feed (pipeline_step X rand symbol p e)))
      \<and> calm (pc (bitstamp_feed (pipeline_step X rand symbol p e)))" by simp_all
qed

lemma pipeline_run_append:
  "pipeline_run X rand symbol (es @ answers) = foldl (pipeline_step X rand symbol) (pipeline_run X rand symbol es) answers"
  by (simp add: pipeline_run_def)

lemma winds_down_run:
  assumes X: "external_crates X"
  shows "\<not> aborted (pipeline_run X rand symbol es) \<Longrightarrow>
    winds_down X rand symbol (pipeline_run X rand symbol es) answers \<Longrightarrow>
    \<not> aborted (pipeline_run X rand symbol (es @ answers))
    \<and> steps_left (pipeline_run X rand symbol (es @ answers)) + length answers
      \<le> steps_left (pipeline_run X rand symbol es)"
proof (induction answers arbitrary: es)
  case (Cons e answers)
  let ?p = "pipeline_run X rand symbol es" and ?q = "pipeline_run X rand symbol (es @ [e])"
  have q: "?q = pipeline_step X rand symbol ?p e" by (simp add: pipeline_run_append)
  have "cancelled_event ?p e" "winds_down X rand symbol ?q answers" using Cons.prems(2) by (simp_all add: q)
  note down = winding_down [OF X pipeline_inv_run [OF X] Cons.prems(1) this(1), of rand symbol, folded q]
  have "\<not> aborted ?q" using down(2) aborted_calm [OF pipeline_inv_run [OF X]] by simp
  from Cons.IH [OF this \<open>winds_down X rand symbol ?q answers\<close>] down(1) show ?case by simp
qed simp

lemma steps_left_bound: "steps_left p \<le> 12"
proof -
  have "waits_left at \<le> 3" for at by (cases at) simp_all
  from this [of "pc (binance_feed p)"] this [of "pc (bitstamp_feed p)"]
  have "waits_left (pc (binance_feed p)) \<le> 3" "waits_left (pc (bitstamp_feed p)) \<le> 3" by simp_all
  moreover have "polls_left (merger_at p) \<le> 3" by (cases "merger_at p") simp_all
  moreover have "of_bool (\<not> binance_gone p) \<le> (1 :: nat)" "of_bool (\<not> bitstamp_gone p) \<le> (1 :: nat)"
    "of_bool (\<not> merger_gone p) \<le> (1 :: nat)" by simp_all
  ultimately show ?thesis unfolding steps_left_def by linarith
qed

text \<open>Whoever has not gone yet has a next step.\<close>

lemma adapter_next:
  assumes "calm at" and "at \<noteq> Returned"
  obtains i where "cancelled_answer at i"
  using assms by (cases at) (auto simp: calm_def)

lemma some_next:
  assumes inv: "pipeline_inv X es p" and calm: "\<not> aborted p" and left: "\<not> all_gone p"
  obtains e where "cancelled_event p e"
proof -
  have pcs: "calm (pc (binance_feed p))" "calm (pc (bitstamp_feed p))" using calm aborted_calm [OF inv] by simp_all
  consider "\<not> binance_gone p" | "\<not> bitstamp_gone p" | "\<not> merger_gone p" using left by (auto simp: all_gone_def)
  then show thesis
  proof cases
    case 1
    show thesis
    proof (cases "pc (binance_feed p) = Returned")
      case True
      with 1 that [of BinanceExits] show thesis by simp
    next
      case False
      with adapter_next [OF pcs(1)] that [of "BinanceInput _"] show thesis by (metis cancelled_event.simps(1))
    qed
  next
    case 2
    show thesis
    proof (cases "pc (bitstamp_feed p) = Returned")
      case True
      with 2 that [of BitstampExits] show thesis by simp
    next
      case False
      with adapter_next [OF pcs(2)] that [of "BitstampInput _"] show thesis by (metis cancelled_event.simps(2))
    qed
  next
    case 3
    with inv that [of "MergerCheck True"] that [of "MergerPoll 0 0"] that [of MergerExits] show thesis
      by (cases "merger_at p") (auto simp: pipeline_inv_def)
  qed
qed

lemma gone_pcs:
  assumes X: "external_crates X" and gone: "all_gone (pipeline_run X rand symbol es)"
  shows "refcount (sender (binance_feed (pipeline_run X rand symbol es))) = 0
    \<and> refcount (sender (bitstamp_feed (pipeline_run X rand symbol es))) = 0"
  using counts_ok_run [OF X, of rand symbol es] gone by (simp add: counts_ok_def all_gone_def)

section \<open>Properties\<close>



end
