(* ===== verification/CatchUp.thy ===== *)
theory CatchUp
  imports Freshness Shutdown
begin

text \<open>
  How fast the merger catches up: one pass of its loop (\<open>run_spsc\<close> of \<open>src/merger.rs\<close>) in which the adapters
  send nothing takes whatever is unread in the slots, from any state of the process in which the
  merger is at the head of its loop.
\<close>

section \<open>One pass\<close>

text \<open>The events of a pass without a cancellation, with the clock readings of its two turns.\<close>

definition merger_turns :: "instant \<Rightarrow> duration \<Rightarrow> instant \<Rightarrow> duration \<Rightarrow> pipeline_event list" where
  "merger_turns t0 d0 t1 d1 = [MergerCheck False, MergerPoll t0 d0, MergerPoll t1 d1]"

text \<open>The merger is at the head of its loop and goes on.\<close>

definition merger_ready :: "pipeline \<Rightarrow> bool" where
  "merger_ready p \<longleftrightarrow> \<not> aborted p \<and> merger_at p = AtCheck \<and> \<not> (binance_gone p \<and> bitstamp_gone p)"

lemma gone_stopped: "merger_gone (pipeline_run X rand symbol es) \<Longrightarrow> merger_at (pipeline_run X rand symbol es) = Stopped"
proof (induction es rule: rev_induct)
  case Nil
  then show ?case by (simp add: pipeline_run_def pipeline_start_def)
next
  case (snoc e es)
  have "merger_gone (pipeline_step X rand symbol p e) \<Longrightarrow> (merger_gone p \<Longrightarrow> merger_at p = Stopped) \<Longrightarrow>
      merger_at (pipeline_step X rand symbol p e) = Stopped" for p
    by (cases e) (auto split: if_splits merger_pc.splits sum.splits)
  with snoc show ?case by (simp add: pipeline_run_def)
qed

lemma check_goes_on:
  assumes "external_crates X" and "merger_ready (pipeline_run X rand symbol es)"
  shows "pipeline_run X rand symbol (es @ [MergerCheck False])
    = (pipeline_run X rand symbol es)\<lparr>merger_at := AtReceiver 0\<rparr>"
proof -
  let ?p = "pipeline_run X rand symbol es"
  have "\<not> merger_gone ?p" using gone_stopped [of X rand symbol es] assms(2) by (auto simp: merger_ready_def)
  with assms(2) counts_ok_run [OF assms(1), of rand symbol es]
  have "\<not> list_all is_abandoned (shared ?p)"
    by (auto simp: merger_ready_def shared_def counts_ok_def is_abandoned_def split: if_splits)
  with assms(2) show ?thesis by (simp add: pipeline_run_def merger_ready_def)
qed

lemma poll_gone [simp]:
  "binance_gone (pipeline_step X rand symbol p (MergerPoll t0 d)) = binance_gone p"
  "bitstamp_gone (pipeline_step X rand symbol p (MergerPoll t0 d)) = bitstamp_gone p"
  by (auto split: merger_pc.split sum.split)

text \<open>Taking a book out of a slot does not change which one was the newest.\<close>

lemma newest_same:
  assumes "external_crates X"
    and "\<forall>i<2. slot_unread (shared (pipeline_run X rand symbol (es @ [e])) ! i)
      \<in> {None, slot_unread (shared (pipeline_run X rand symbol es) ! i)}"
  shows "newest_books X rand symbol (es @ [e]) = newest_books X rand symbol es"
proof (rule nth_equalityI)
  note tr = tracked_run [OF assms(1), of es rand symbol, unfolded tracked_def]
  then show "length (newest_books X rand symbol (es @ [e])) = length (newest_books X rand symbol es)"
    by (simp add: newest_snoc)
  fix i assume "i < length (newest_books X rand symbol (es @ [e]))"
  then have i: "i < 2" by (simp add: newest_snoc)
  with tr assms(2) show "newest_books X rand symbol (es @ [e]) ! i = newest_books X rand symbol es ! i"
    by (auto simp: newest_snoc last_seen_def up_to_date_def split: option.splits)
qed

lemma pass_empties:
  fixes X rand symbol es t0 d0 t1 d1
  assumes X: "external_crates X" and ready: "merger_ready (pipeline_run X rand symbol es)"
  defines "es' \<equiv> es @ merger_turns t0 d0 t1 d1"
  shows "(\<forall>i<2. slot_unread (shared (pipeline_run X rand symbol es') ! i) = None)
    \<and> newest_books X rand symbol es' = newest_books X rand symbol es
    \<and> merger_ready (pipeline_run X rand symbol es')"
proof -
  let ?run = "pipeline_run X rand symbol" and ?new = "newest_books X rand symbol"
  let ?e1 = "es @ [MergerCheck False]" and ?e2 = "es @ [MergerCheck False, MergerPoll t0 d0]"
  have step: "?run (e @ [x]) = pipeline_step X rand symbol (?run e) x" for e x by (simp add: pipeline_run_append)
  note 1 = check_goes_on [OF X ready]
  have p1: "\<not> aborted (?run ?e1)" "merger_at (?run ?e1) = AtReceiver 0" "shared (?run ?e1) = shared (?run es)"
    using ready by (simp_all add: 1 merger_ready_def shared_def) (simp add: aborted_def)
  obtain s where s: "shared (?run ?e2) = (shared (?run ?e1))[0 := s]" "slot_unread s = None"
    "merger_at (?run ?e2) = AtReceiver 1" "\<not> aborted (?run ?e2)"
    using poll_step [OF X pipeline_inv_run [OF X] p1(1,2), where rand = rand and symbol = symbol and ?t0.0 = t0 and d = d0] step [of ?e1] by auto
  obtain t where t: "shared (?run es') = (shared (?run ?e2))[1 := t]" "slot_unread t = None"
    "merger_at (?run es') = AtCheck" "\<not> aborted (?run es')"
    using poll_step [OF X pipeline_inv_run [OF X] s(4,3), where rand = rand and symbol = symbol and ?t0.0 = t1 and d = d1] step [of ?e2]
    by (auto simp: es'_def merger_turns_def)
  have e2: "?run ?e2 = pipeline_step X rand symbol (?run ?e1) (MergerPoll t0 d0)"
    and e': "?run es' = pipeline_step X rand symbol (?run ?e2) (MergerPoll t1 d1)"
    using step [of ?e1] step [of ?e2] by (simp_all add: es'_def merger_turns_def del: pipeline_step.simps)
  have gone: "binance_gone (?run es') = binance_gone (?run es)" "bitstamp_gone (?run es') = bitstamp_gone (?run es)"
    unfolding e' e2 poll_gone by (simp_all add: 1)
  have "?new ?e1 = ?new es" by (rule newest_same [OF X]) (simp add: p1(3))
  moreover have "?new ?e2 = ?new ?e1"
    using newest_same [OF X, of rand symbol ?e1 "MergerPoll t0 d0"] s by (auto simp: less_2_cases_iff)
  moreover have "?new es' = ?new ?e2"
    using newest_same [OF X, of rand symbol ?e2 "MergerPoll t1 d1"] t
    by (auto simp: less_2_cases_iff es'_def merger_turns_def)
  moreover have "slot_unread (shared (?run es') ! i) = None" if "i < 2" for i
    using that s(1,2) t(1,2) by (auto simp: less_2_cases_iff)
  moreover have "merger_ready (?run es')"
    using t(3,4) ready gone by (simp add: merger_ready_def)
  ultimately show ?thesis by simp
qed

text \<open>
  After the pass the store holds the newest book of each exchange, unless there is none or the merger
  found it stale.
\<close>

lemma caught_up:
  fixes X rand symbol es t0 d0 t1 d1
  assumes X: "external_crates X" and "merger_ready (pipeline_run X rand symbol es)"
  defines "es' \<equiv> es @ merger_turns t0 d0 t1 d1" and "newest \<equiv> newest_books X rand symbol es"
  defines "c \<equiv> merger_side (pipeline_run X rand symbol es')"
  shows "summaries c \<noteq> [] \<Longrightarrow> merge X (store c) = Inr (last (summaries c))"
    and "i < 2 \<Longrightarrow> books (store c) ! i = newest ! i
      \<or> books (store c) ! i = None \<and> (\<exists>b. newest ! i = Some b \<and> went_stale es' b)"
    and "i < 2 \<Longrightarrow> newest ! i = Some b \<Longrightarrow> from_frame X es b \<and> unat (ob_exchange_id b) = i"
  using tracked_run [OF X, of es' rand symbol] pass_empties [OF assms(1,2), of t0 d0 t1 d1]
    newest_frames [OF X, of i rand symbol es b]
  unfolding tracked_def up_to_date_def es'_def newest_def c_def by auto

text \<open>A pass that finds the first frame of Binance in its slot.\<close>

lemma first_ready: "merger_ready (pipeline_run reference_crates rand symbol first_frames)"
proof -
  obtain c b where "slot_unread (sender c) = Some b" "slot_inv (sender c)" "pc c = Reading"
    "pipeline_run reference_crates rand symbol first_frames = pipeline_start\<lparr>binance_feed := c\<rparr>"
    "\<not> aborted (pipeline_start\<lparr>binance_feed := c\<rparr>)" by (rule first_sent)
  then show ?thesis by (simp add: merger_ready_def) (simp add: pipeline_start_def)
qed

lemma first_pass:
  "summaries (merger_side (pipeline_run reference_crates rand symbol (first_frames @ merger_turns 10 1 t1 d1))) \<noteq> []"
proof -
  let ?run = "pipeline_run reference_crates rand symbol"
  obtain sm where sm: "summaries (merger_side (?run first_events)) = [sm]" by (rule first_summary)
  have pass: "first_frames @ merger_turns 10 1 t1 d1 = first_events @ [MergerPoll t1 d1]"
    by (simp add: merger_turns_def first_events_def)
  have "summaries (merger_side (pipeline_step reference_crates rand symbol p (MergerPoll t1 d1))) \<noteq> []"
    if "summaries (merger_side p) \<noteq> []" for p
    using that by (auto simp: poll_one_def Let_def split: merger_pc.split sum.split option.split prod.split)
  with sm show ?thesis unfolding pass pipeline_run_append by simp
qed

end
