(* ===== verification/Client.thy ===== *)
theory Client
  imports Service
begin

text \<open>
  \<open>src/client.rs\<close>, the terminal viewer of the summary stream: its state, the rows it computes from a
  summary, and its event loop. The screen is what is handed to the terminal library: the lines of
  styled text, the titles, and the constraints the library lays the panes out by; drawing is its own. Amounts and prices are finite \<open>f64\<close> as in \<open>Float64\<close>. The texts of
  numbers (\<open>{:.8}\<close>, \<open>{:.3}\<close>, \<open>{:.0}\<close>) and \<open>ArrayVec::try_push\<close> are parameters.
\<close>

section \<open>State\<close>

record viewer =
  vw_summary :: "proto_summary option"
  updates :: u64
  start :: instant
  vw_symbol :: bytes

definition viewer_new :: "bytes \<Rightarrow> instant \<Rightarrow> viewer" where
  "viewer_new ticker now = \<lparr>vw_summary = None, updates = 0, start = now, vw_symbol = ticker\<rparr>"

definition as_secs_f64 :: "duration \<Rightarrow> f64" where
  "as_secs_f64 d = round_f64 (round_f64 (of_nat (d div 10 ^ 9)) + round_f64 (of_nat (d mod 10 ^ 9) / 10 ^ 9))"

definition updates_per_sec :: "instant \<Rightarrow> viewer \<Rightarrow> f64" where
  "updates_per_sec now v =
     (let elapsed = as_secs_f64 (now - start v) in
      if 0 < elapsed then round_f64 (round_f64 (of_nat (unat (updates v))) / elapsed) else 0)"

section \<open>Rendering\<close>

definition MAX_DISPLAY :: nat where
  "MAX_DISPLAY = 10"

definition BAR_WIDTH :: nat where
  "BAR_WIDTH = 25"

datatype colour = Red | Green | Yellow | Dim | White | Plain

type_synonym line = "(colour \<times> bytes) list"

record formats =
  prec8 :: "f64 \<Rightarrow> bytes"
  prec3 :: "f64 \<Rightarrow> bytes"
  prec0 :: "f64 \<Rightarrow> bytes"

definition spaces :: "nat \<Rightarrow> bytes" where
  "spaces n = replicate n 32"

text \<open>\<open>{:<n}\<close> and \<open>{:>n}\<close> of an ASCII text.\<close>

definition left_in :: "nat \<Rightarrow> bytes \<Rightarrow> bytes" where
  "left_in n t = t @ spaces (n - length t)"

definition right_in :: "nat \<Rightarrow> bytes \<Rightarrow> bytes" where
  "right_in n t = spaces (n - length t) @ t"

text \<open>The loop over a side that pushes the running total; a full vector drops what follows.\<close>

fun cumulative_loop :: "(nat \<Rightarrow> f64 list \<Rightarrow> f64 \<Rightarrow> f64 list option) \<Rightarrow> f64 \<Rightarrow> f64 list \<Rightarrow> proto_level list \<Rightarrow> f64 list" where
  "cumulative_loop push running cum [] = cum"
| "cumulative_loop push running cum (l # levels) =
     (let running = round_f64 (running + pl_amount l) in
      cumulative_loop push running (case push MAX_DISPLAY cum running of Some c \<Rightarrow> c | None \<Rightarrow> cum) levels)"

fun push_all :: "(nat \<Rightarrow> f64 list \<Rightarrow> f64 \<Rightarrow> f64 list option) \<Rightarrow> f64 list \<Rightarrow> f64 list \<Rightarrow> f64 list" where
  "push_all push acc [] = acc"
| "push_all push acc (v # vs) = push_all push (case push MAX_DISPLAY acc v of Some c \<Rightarrow> c | None \<Rightarrow> acc) vs"

definition bid_cumulative :: "(nat \<Rightarrow> f64 list \<Rightarrow> f64 \<Rightarrow> f64 list option) \<Rightarrow> proto_summary \<Rightarrow> f64 list" where
  "bid_cumulative push s = cumulative_loop push 0 [] (ps_bids s)"

definition ask_cumulative :: "(nat \<Rightarrow> f64 list \<Rightarrow> f64 \<Rightarrow> f64 list option) \<Rightarrow> proto_summary \<Rightarrow> f64 list" where
  "ask_cumulative push s = push_all push [] (rev (cumulative_loop push 0 [] (ps_asks s)))"

definition max_depth :: "f64 list \<Rightarrow> f64 list \<Rightarrow> f64" where
  "max_depth asks bids = foldl max 0 (asks @ bids)"

definition bar_len :: "f64 \<Rightarrow> f64 \<Rightarrow> nat" where
  "bar_len cumulative depth =
     (if 0 < depth
      then nat (round_half_away (round_f64 (round_f64 (cumulative / depth) * of_nat BAR_WIDTH)))
      else 0)"

definition format_level :: "formats \<Rightarrow> proto_level \<Rightarrow> colour \<Rightarrow> f64 \<Rightarrow> f64 \<Rightarrow> line" where
  "format_level F l c cumulative depth =
     [(Dim, ascii ''  '' @ left_in 10 (pl_exchange l)),
      (c, right_in 14 (prec8 F (pl_price l))),
      (c, right_in 14 (prec8 F (pl_amount l))),
      (Dim, right_in 14 (prec8 F cumulative)),
      (Plain, ascii ''  ''),
      (c, concat (replicate (bar_len cumulative depth) [226, 150, 136]))]"

text \<open>\<open>for (i, level) in ..enumerate()\<close> with \<open>cumulative.get(i).copied().unwrap_or(0.0)\<close>.\<close>

fun level_rows :: "formats \<Rightarrow> colour \<Rightarrow> f64 \<Rightarrow> f64 list \<Rightarrow> nat \<Rightarrow> proto_level list \<Rightarrow> line list" where
  "level_rows F c depth cums i [] = []"
| "level_rows F c depth cums i (l # levels) =
     format_level F l c (if i < length cums then cums ! i else 0) depth # level_rows F c depth cums (i + 1) levels"

definition header :: line where
  "header = [(White, ascii ''  VENUE     ''), (White, ascii ''         QUOTE''), (White, ascii ''           QTY''),
     (White, ascii ''         TOTAL''), (White, ascii ''  DEPTH'')]"

definition spread_line :: "formats \<Rightarrow> proto_summary \<Rightarrow> line" where
  "spread_line F s =
     (let best_bid = (case ps_bids s of l # _ \<Rightarrow> pl_price l | [] \<Rightarrow> 0);
          best_ask = (case ps_asks s of l # _ \<Rightarrow> pl_price l | [] \<Rightarrow> 0);
          mid = round_f64 (best_bid + best_ask) / 2;
          spread_pct = (if 0 < mid then round_f64 (round_f64 (ps_spread s / mid) * 100) else 0);
          spread_text = ascii '' Spread: '' @ prec8 F (ps_spread s) @ ascii '' ('' @ prec3 F spread_pct @ ascii ''%) '';
          pad_total = 70 - length spread_text;
          pad = concat (replicate (pad_total div 2) [226, 148, 128])
      in [(Yellow, ascii ''  '' @ pad @ spread_text @ pad)])"

datatype layout_constraint = Rows "16 word" | AtLeast "16 word"

text \<open>\<open>lines.len() as u16\<close> for the height of a pane; the last pane takes the space that is left.\<close>

definition frame_layout :: "line list \<Rightarrow> line list \<Rightarrow> layout_constraint list" where
  "frame_layout ask_lines bid_lines =
     [Rows (of_nat (length ask_lines)), Rows 1, Rows (of_nat (length bid_lines)), AtLeast 0]"

definition frame_title :: "viewer \<Rightarrow> bytes" where
  "frame_title v = ascii '' Order Book '' @ [226, 148, 128] @ ascii '' '' @ vw_symbol v @ ascii '' ''"

datatype screen =
    Waiting bytes bytes \<comment> \<open>title, text\<close>
  | Book bytes "layout_constraint list" "line list" line "line list" bytes
      \<comment> \<open>title, heights, asks, spread, bids, status\<close>

definition render_screen ::
    "formats \<Rightarrow> (nat \<Rightarrow> f64 list \<Rightarrow> f64 \<Rightarrow> f64 list option) \<Rightarrow> instant \<Rightarrow> viewer \<Rightarrow> screen" where
  "render_screen F push now v =
     (case vw_summary v of
        None \<Rightarrow> Waiting (ascii '' Order Book '') (ascii ''Waiting for data...'')
      | Some s \<Rightarrow>
          (let asks = ask_cumulative push s; bids = bid_cumulative push s; depth = max_depth asks bids;
               ask_lines = [(Red, ascii ''  ASKS'')] # header # level_rows F Red depth asks 0 (rev (ps_asks s));
               bid_lines = level_rows F Green depth bids 0 (ps_bids s) @ [header, [(Green, ascii ''  BIDS'')]];
               status = ascii '' Updates: '' @ prec0 F (updates_per_sec now v) @ ascii ''/s  '' @ [226, 148, 130]
                 @ ascii ''  q to quit ''
           in Book (frame_title v) (frame_layout ask_lines bid_lines) ask_lines (spread_line F s) bid_lines status))"

section \<open>The event loop\<close>

datatype 'e message = Next proto_summary | StreamClosed | StreamFailed 'e | Tick

datatype key_code = CharKey u8 | Esc | OtherKey

datatype 'e key_event =
    NoEvent
  | Key bool key_code bool \<comment> \<open>a press, its code, with the control key\<close>
  | OtherEvent
  | PollFailed 'e

datatype 'e ending = Quit | Failed 'e

definition quits :: "'e key_event \<Rightarrow> bool" where
  "quits ev = (case ev of
      Key pressed code control \<Rightarrow> pressed \<and>
        (code = CharKey 113 \<or> code = Esc \<or> code = CharKey 99 \<and> control)
    | _ \<Rightarrow> False)"

text \<open>One turn: a message or the tick, the drawing (which may fail), a key. \<open>Inr\<close> goes on.\<close>

definition client_turn :: "'e message \<Rightarrow> 'e + unit \<Rightarrow> 'e key_event \<Rightarrow> viewer \<Rightarrow> ('e ending + unit) \<times> viewer" where
  "client_turn msg draw ev v =
     (case msg of
        StreamClosed \<Rightarrow> (Inl Quit, v)
      | StreamFailed e \<Rightarrow> (Inl (Failed e), v)
      | _ \<Rightarrow>
          (let v = (case msg of Next s \<Rightarrow> v\<lparr>vw_summary := Some s, updates := updates v + 1\<rparr> | _ \<Rightarrow> v) in
           case draw of
             Inl e \<Rightarrow> (Inl (Failed e), v)
           | Inr _ \<Rightarrow>
               (case ev of
                  PollFailed e \<Rightarrow> (Inl (Failed e), v)
                | _ \<Rightarrow> (if quits ev then Inl Quit else Inr (), v))))"

fun client_loop :: "('e message \<times> ('e + unit) \<times> 'e key_event) list \<Rightarrow> viewer \<Rightarrow> ('e ending + unit) \<times> viewer" where
  "client_loop [] v = (Inr (), v)"
| "client_loop ((msg, draw, ev) # turns) v =
     (case client_turn msg draw ev v of
        (Inl r, v) \<Rightarrow> (Inl r, v)
      | (Inr _, v) \<Rightarrow> client_loop turns v)"

section \<open>Running totals\<close>

text \<open>The total of a level: all amounts from the best level to it, added in that order.\<close>

fun totals :: "f64 \<Rightarrow> f64 list \<Rightarrow> f64 list" where
  "totals t [] = []"
| "totals t (a # as) = (let t' = round_f64 (t + a) in t' # totals t' as)"

lemma length_totals [simp]: "length (totals t as) = length as"
  by (induction as arbitrary: t) (simp_all add: Let_def)

lemma cumulative_loop_eq:
  assumes "bounded_push push" and "length cum \<le> MAX_DISPLAY"
  shows "cumulative_loop push t cum ls = take MAX_DISPLAY (cum @ totals t (map pl_amount ls))"
  using assms(2)
proof (induction ls arbitrary: t cum)
  case (Cons l ls)
  note push = bounded_push.push_eq [OF assms(1)]
  show ?case
  proof (cases "length cum < MAX_DISPLAY")
    case True
    with Cons.IH [of "cum @ [round_f64 (t + pl_amount l)]"] show ?thesis by (simp add: push Let_def)
  next
    case False
    with Cons.IH [of cum] Cons.prems show ?thesis by (simp add: push Let_def)
  qed
qed simp

lemma push_all_eq:
  assumes "bounded_push push" and "length acc \<le> MAX_DISPLAY"
  shows "push_all push acc vs = take MAX_DISPLAY (acc @ vs)"
  using assms(2)
proof (induction vs arbitrary: acc)
  case (Cons v vs)
  note push = bounded_push.push_eq [OF assms(1)]
  show ?case
  proof (cases "length acc < MAX_DISPLAY")
    case True
    with Cons.IH [of "acc @ [v]"] show ?thesis by (simp add: push)
  next
    case False
    with Cons.IH [of acc] Cons.prems show ?thesis by (simp add: push)
  qed
qed simp

lemma level_rows_zip:
  assumes "length cums = i + length ls"
  shows "level_rows F c depth cums i ls = map (\<lambda>(l, t). format_level F l c t depth) (zip ls (drop i cums))"
  using assms
proof (induction ls arbitrary: i)
  case (Cons l ls)
  then have "drop i cums = cums ! i # drop (Suc i) cums" by (simp add: Cons_nth_drop_Suc)
  with Cons show ?case by simp
qed simp

lemma foldl_max_start: "(m :: f64) \<le> foldl max m xs"
proof (induction xs arbitrary: m)
  case (Cons y ys)
  from Cons [of "max m y"] show ?case by simp
qed simp

lemma foldl_max_ge: "x \<in> set xs \<or> x = m \<Longrightarrow> x \<le> foldl max (m :: f64) xs"
proof (induction xs arbitrary: m)
  case (Cons y ys)
  have "max m y \<le> foldl max (max m y) ys" "x \<in> set ys \<Longrightarrow> x \<le> foldl max (max m y) ys"
    using Cons.IH [of "max m y"] foldl_max_start by simp_all
  with Cons.prems show ?case by auto
qed simp

lemma round_half_even_nonpos: "x \<le> 0 \<Longrightarrow> round_half_even x \<le> 0"
  using round_half_even_mono [of x 0] round_half_even_int [of 0] by simp

lemma round_f64_nonpos: "x \<le> 0 \<Longrightarrow> round_f64 x \<le> 0"
  using round_half_even_nonpos by (auto simp: round_f64_def Let_def mult_nonpos_nonneg divide_nonpos_nonneg)

lemma bar_fits:
  assumes "t \<le> depth"
  shows "bar_len t depth \<le> BAR_WIDTH"
proof (cases "0 < depth")
  case True
  define q where "q = round_f64 (t / depth)"
  have one: "t / depth \<le> 1" using assms True by (simp add: divide_le_eq)
  have q: "q \<le> 1"
  proof (cases "0 \<le> t / depth")
    case True
    with round_f64_mono [OF _ one] exact_below_53 [of 1] show ?thesis by (simp add: q_def)
  next
    case False
    with round_f64_nonpos [of "t / depth"] show ?thesis by (simp add: q_def)
  qed
  define z where "z = round_f64 (q * 25)"
  have z: "z \<le> 25"
  proof (cases "0 \<le> q")
    case True
    with round_f64_mono [of "q * 25" 25] q exact_below_53 [of 25] show ?thesis by (simp add: z_def)
  next
    case False
    with round_f64_nonpos [of "q * 25"] show ?thesis by (simp add: z_def)
  qed
  have "round_half_away z \<le> 25"
  proof (cases "0 \<le> z")
    case True
    have "z + 1 / 2 < of_int (25 + 1)" using z by simp
    then have "\<lfloor>z + 1 / 2\<rfloor> < 25 + 1" by (simp only: floor_less_iff)
    with True show ?thesis by (simp add: round_half_away_def)
  next
    case False
    then have "0 \<le> \<lfloor>1 / 2 - z\<rfloor>" by simp
    moreover have "round_half_away z = - \<lfloor>1 / 2 - z\<rfloor>" using False by (simp only: round_half_away_def if_False)
    ultimately show ?thesis by linarith
  qed
  then show ?thesis using True by (simp add: bar_len_def BAR_WIDTH_def z_def q_def)
qed (simp add: bar_len_def)

section \<open>The loop shows the latest message\<close>

fun received :: "('e message \<times> ('e + unit) \<times> 'e key_event) list \<Rightarrow> proto_summary list" where
  "received [] = []"
| "received ((Next s, _, _) # turns) = s # received turns"
| "received ((_, _, _) # turns) = received turns"

lemma client_loop_latest:
  assumes "client_loop turns v = (r, v')"
  shows "\<exists>k\<le>length turns. updates v' = updates v + of_nat (length (received (take k turns)))
    \<and> vw_summary v' = last (vw_summary v # map Some (received (take k turns)))"
  using assms
proof (induction turns arbitrary: v)
  case (Cons turn turns)
  obtain msg draw ev where turn: "turn = (msg, draw, ev)" by (cases turn)
  obtain r1 v1 where 1: "client_turn msg draw ev v = (r1, v1)" by (cases "client_turn msg draw ev v")
  have one: "updates v1 = updates v + of_nat (length (received [turn]))
      \<and> vw_summary v1 = last (vw_summary v # map Some (received [turn]))"
    using 1 by (cases msg; cases draw; cases ev) (auto simp: client_turn_def turn Let_def split: if_splits)
  have split: "received (turn # ts) = received [turn] @ received ts" for ts
    by (cases msg) (simp_all add: turn)
  show ?case
  proof (cases r1)
    case (Inl e)
    then have "v' = v1" using Cons.prems by (simp add: turn 1)
    with one show ?thesis by (intro exI [of _ 1]) simp
  next
    case (Inr u)
    then have "client_loop turns v1 = (r, v')" using Cons.prems by (simp add: turn 1)
    from Cons.IH [OF this] obtain k where k: "k \<le> length turns"
      "updates v' = updates v1 + of_nat (length (received (take k turns)))"
      "vw_summary v' = last (vw_summary v1 # map Some (received (take k turns)))" by blast
    with one show ?thesis
      by (intro exI [of _ "Suc k"]) (simp add: split [of "take k turns"] del: received.simps)
  qed
qed simp

section \<open>The process\<close>

datatype terminal_call = TermInit | TermClear | TermRestore

record 'e client_env =
  uppercase :: "bytes \<Rightarrow> bytes"
  connecting :: "bytes \<Rightarrow> 'e + unit"
  subscribing :: "'e + unit"
  clearing :: "'e + unit"
  started_at :: instant
  turns_of :: "('e message \<times> ('e + unit) \<times> 'e key_event) list"

definition client_args :: "(bytes \<Rightarrow> bytes) \<Rightarrow> bytes list \<Rightarrow> bytes \<times> bytes" where
  "client_args up args =
     (if 1 < length args then args ! 1 else ascii ''http://localhost:50051'',
      up (if 2 < length args then args ! 2 else ascii ''ETHBTC''))"

text \<open>
  \<open>main\<close>, with its calls to the terminal; the guard restores it on every way out. \<open>Inr\<close> is a viewer
  that is still running.
\<close>

definition client_main :: "bytes list \<Rightarrow> 'e client_env \<Rightarrow> ('e ending + viewer) \<times> terminal_call list" where
  "client_main args E =
     (let (addr, ticker) = client_args (uppercase E) args in
      case connecting E addr of
        Inl e \<Rightarrow> (Inl (Failed e), [])
      | Inr _ \<Rightarrow>
          (case subscribing E of
             Inl e \<Rightarrow> (Inl (Failed e), [])
           | Inr _ \<Rightarrow>
               (case clearing E of
                  Inl e \<Rightarrow> (Inl (Failed e), [TermInit, TermClear, TermRestore])
                | Inr _ \<Rightarrow>
                    (case client_loop (turns_of E) (viewer_new ticker (started_at E)) of
                       (Inl r, _) \<Rightarrow> (Inl r, [TermInit, TermClear, TermRestore])
                     | (Inr _, v) \<Rightarrow> (Inr v, [TermInit, TermClear])))))"

lemma terminal_restored:
  assumes "client_main args E = (Inl r, calls)"
  shows "TermInit \<in> set calls \<longrightarrow> last calls = TermRestore"
  using assms by (auto simp: client_main_def split: prod.splits sum.splits)

lemma running_viewer:
  assumes "client_main args E = (Inr v, calls)"
  shows "\<exists>k\<le>length (turns_of E). updates v = of_nat (length (received (take k (turns_of E))))
    \<and> vw_summary v = last (None # map Some (received (take k (turns_of E))))"
proof -
  obtain ticker u where "client_loop (turns_of E) (viewer_new ticker (started_at E)) = (Inr u, v)"
    using assms by (auto simp: client_main_def split: prod.splits sum.splits)
  from client_loop_latest [OF this] show ?thesis by (simp add: viewer_new_def)
qed

section \<open>Properties\<close>

text \<open>
  C33. The viewer's rows are right for every summary the server sends (at most ten levels a side): each row
  shows its level with the total of all levels from the best to it, the asks with the best at the
  bottom although their totals are computed best first; each pane is as high as it has rows, so the
  cast of a height to \<open>u16\<close> cuts none off; and no bar is wider than its column.
\<close>

theorem viewer_rows:
  assumes "bounded_push push" and "vw_summary v = Some s"
    and "length (ps_asks s) \<le> MAX_DISPLAY" and "length (ps_bids s) \<le> MAX_DISPLAY"
  defines "ta \<equiv> totals 0 (map pl_amount (ps_asks s))" and "tb \<equiv> totals 0 (map pl_amount (ps_bids s))"
  defines "depth \<equiv> foldl max 0 (rev ta @ tb)"
    and "na \<equiv> of_nat (length (ps_asks s) + 2) :: 16 word" and "nb \<equiv> of_nat (length (ps_bids s) + 2) :: 16 word"
  shows "\<exists>spread status. render_screen F push now v = Book (frame_title v) [Rows na, Rows 1, Rows nb, AtLeast 0]
      ([(Red, ascii ''  ASKS'')] # header # rev (map (\<lambda>(l, t). format_level F l Red t depth) (zip (ps_asks s) ta)))
      spread
      (map (\<lambda>(l, t). format_level F l Green t depth) (zip (ps_bids s) tb) @ [header, [(Green, ascii ''  BIDS'')]])
      status
    \<and> unat na = length (ps_asks s) + 2 \<and> unat nb = length (ps_bids s) + 2
    \<and> (\<forall>t \<in> set (ta @ tb). bar_len t depth \<le> BAR_WIDTH)"
proof -
  have asks: "ask_cumulative push s = rev ta" and bids: "bid_cumulative push s = tb"
    using assms(3,4) unfolding ta_def tb_def ask_cumulative_def bid_cumulative_def
    by (simp_all add: cumulative_loop_eq [OF assms(1)] push_all_eq [OF assms(1)])
  have rows: "level_rows F Red depth (rev ta) 0 (rev (ps_asks s))
      = rev (map (\<lambda>(l, t). format_level F l Red t depth) (zip (ps_asks s) ta))"
    "level_rows F Green depth tb 0 (ps_bids s) = map (\<lambda>(l, t). format_level F l Green t depth) (zip (ps_bids s) tb)"
    by (simp_all add: level_rows_zip ta_def tb_def zip_rev rev_map)
  have "bar_len t depth \<le> BAR_WIDTH" if "t \<in> set (ta @ tb)" for t
    using that unfolding depth_def by (intro bar_fits foldl_max_ge) auto
  moreover have "max_depth (rev ta) tb = depth" by (simp only: max_depth_def depth_def)
  moreover have "unat (of_nat (n + 2) :: 16 word) = n + 2" if "n \<le> MAX_DISPLAY" for n
  proof -
    have "n + 2 < 2 ^ LENGTH(16)" using that by (simp add: MAX_DISPLAY_def)
    then show ?thesis by (simp only: unsigned_of_nat take_bit_nat_eq_self of_nat_id)
  qed
  from this [OF assms(3)] this [OF assms(4)]
  have "unat na = length (ps_asks s) + 2" "unat nb = length (ps_bids s) + 2" by (simp_all only: na_def nb_def)
  moreover have "length ta = length (ps_asks s)" "length tb = length (ps_bids s)" by (simp_all add: ta_def tb_def)
  ultimately show ?thesis using rows
    by (simp add: render_screen_def frame_layout_def assms(2) asks bids Let_def na_def nb_def)
qed


definition one_sided :: proto_summary where
  "one_sided = \<lparr>ps_spread = 0, ps_bids = [], ps_asks =
     [\<lparr>pl_exchange = ascii ''binance'', pl_price = 2, pl_amount = 1\<rparr>,
      \<lparr>pl_exchange = ascii ''bitstamp'', pl_price = 3, pl_amount = 4\<rparr>]\<rparr>"

definition whole_formats :: formats where
  "whole_formats = (let f = \<lambda>v. show_nat (nat \<lfloor>v\<rfloor>) in \<lparr>prec8 = f, prec3 = f, prec0 = f\<rparr>)"

theorem viewer_rows_witness:
  "\<exists>spread status. render_screen whole_formats bounded_append 9 ((viewer_new [] 0)\<lparr>vw_summary := Some one_sided\<rparr>) = Book
      (frame_title (viewer_new [] 0)) [Rows 4, Rows 1, Rows 2, AtLeast 0]
      [[(Red, ascii ''  ASKS'')], header,
       format_level whole_formats \<lparr>pl_exchange = ascii ''bitstamp'', pl_price = 3, pl_amount = 4\<rparr> Red 5 5,
       format_level whole_formats \<lparr>pl_exchange = ascii ''binance'', pl_price = 2, pl_amount = 1\<rparr> Red 1 5]
      spread [header, [(Green, ascii ''  BIDS'')]] status"
proof -
  have r: "round_f64 1 = 1" "round_f64 5 = 5" using exact_below_53 [of 1] exact_below_53 [of 5] by simp_all
  have "bounded_push (bounded_append :: nat \<Rightarrow> f64 list \<Rightarrow> f64 \<Rightarrow> f64 list option)"
    by unfold_locales (simp add: bounded_append_def)
  from viewer_rows [OF this, of "(viewer_new [] 0)\<lparr>vw_summary := Some one_sided\<rparr>" one_sided whole_formats 9] show ?thesis
    by (simp add: one_sided_def r Let_def MAX_DISPLAY_def frame_title_def)
qed

end
