(* ===== verification/Subscribers.thy ===== *)
theory Subscribers
  imports MergerLoop Client
begin

text \<open>
  From the merger to the screen: the \<open>watch\<close> channel between the merger and the gRPC service
  (\<open>src/main.rs\<close>, \<open>src/server.rs\<close>), the stream of one subscriber, and the viewer that reads it. The
  channel and its stream adapter are tokio's: a record \<open>watch_lib\<close> of parameters under the locale
  \<open>watch_channel\<close>, which states what their documentation promises in terms of a version number that
  each send increments. The transport hands on in order what the stream yields.
\<close>

section \<open>The channel\<close>

datatype 'a polled = Item 'a | Pending | Done

record ('w, 'r, 's) watch_lib =
  channel :: "summary \<Rightarrow> 'w \<times> 'r"
  send :: "summary \<Rightarrow> 'w \<Rightarrow> 'w"
  hang_up :: "'w \<Rightarrow> 'w" \<comment> \<open>the sender is dropped\<close>
  clone_rx :: "'r \<Rightarrow> 'r"
  from_changes :: "'r \<Rightarrow> 's"
  poll_next :: "'w \<Rightarrow> 's \<Rightarrow> summary polled \<times> 's"

locale watch_channel =
  fixes L :: "('w, 'r, 's) watch_lib"
    and version :: "'w \<Rightarrow> nat" and current :: "'w \<Rightarrow> summary" and hung_up :: "'w \<Rightarrow> bool"
    and seen :: "'r \<Rightarrow> nat" and yielded :: "'s \<Rightarrow> nat"
  assumes channel_law: "channel L x = (w, r) \<Longrightarrow> current w = x \<and> seen r = version w \<and> \<not> hung_up w"
    and send_law: "version (send L x w) = Suc (version w)" "current (send L x w) = x"
      "hung_up (send L x w) = hung_up w"
    and hang_up_law: "version (hang_up L w) = version w" "current (hang_up L w) = current w" "hung_up (hang_up L w)"
    and clone_law: "seen (clone_rx L r) = seen r"
    and from_changes_law: "yielded (from_changes L r) = seen r"
    and poll_new_law: "yielded s < version w \<Longrightarrow>
      fst (poll_next L w s) = Item (current w) \<and> yielded (snd (poll_next L w s)) = version w"
    and poll_old_law: "yielded s = version w \<Longrightarrow>
      fst (poll_next L w s) = (if hung_up w then Done else Pending) \<and> yielded (snd (poll_next L w s)) = version w"

section \<open>The service\<close>

record 'r orderbook_service =
  summary_rx :: 'r

definition service_new :: "'r \<Rightarrow> 'r orderbook_service" where
  "service_new rx = \<lparr>summary_rx = rx\<rparr>"

definition book_summary :: "('w, 'r, 's) watch_lib \<Rightarrow> 'r orderbook_service \<Rightarrow> 's" where
  "book_summary L service = from_changes L (clone_rx L (summary_rx service))"

text \<open>One poll of the stream that \<open>book_summary\<close> returns, with \<open>map(|summary| Ok(to_proto(summary)))\<close>.\<close>

definition stream_next :: "('w, 'r, 's) watch_lib \<Rightarrow> 'w \<Rightarrow> 's \<Rightarrow> (proto_summary polled \<times> 's) run" where
  "stream_next L w s =
     (case poll_next L w s of
        (Item summary, s) \<Rightarrow> map_sum id (\<lambda>m. (Item m, s)) (to_proto summary)
      | (Pending, s) \<Rightarrow> Inr (Pending, s)
      | (Done, s) \<Rightarrow> Inr (Done, s))"

text \<open>What happens after a client has subscribed, and what its polls return.\<close>

datatype stream_event = Published summary | MergerGone | Polled

fun stream_run :: "('w, 'r, 's) watch_lib \<Rightarrow> stream_event list \<Rightarrow> 'w \<Rightarrow> 's \<Rightarrow> proto_summary polled list run" where
  "stream_run L [] w s = Inr []"
| "stream_run L (Published x # es) w s = stream_run L es (send L x w) s"
| "stream_run L (MergerGone # es) w s = stream_run L es (hang_up L w) s"
| "stream_run L (Polled # es) w s =
     (case stream_next L w s of
        Inl p \<Rightarrow> Inl p
      | Inr (m, s) \<Rightarrow> map_sum id ((#) m) (stream_run L es w s))"

text \<open>A client that subscribes after the summaries \<open>earlier\<close> have been published.\<close>

definition subscription ::
    "('w, 'r, 's) watch_lib \<Rightarrow> summary list \<Rightarrow> stream_event list \<Rightarrow> proto_summary polled list run" where
  "subscription L earlier es =
     (let (w, rx) = channel L default_summary; service = service_new rx in
      stream_run L es (fold (send L) earlier w) (book_summary L service))"

section \<open>The stream as a mailbox\<close>

text \<open>What the client may rely on: a mailbox of one place that a new summary overwrites.\<close>

fun mailbox :: "stream_event list \<Rightarrow> summary option \<Rightarrow> bool \<Rightarrow> summary polled list" where
  "mailbox [] box gone = []"
| "mailbox (Published x # es) box gone = mailbox es (Some x) gone"
| "mailbox (MergerGone # es) box gone = mailbox es box True"
| "mailbox (Polled # es) (Some x) gone = Item x # mailbox es None gone"
| "mailbox (Polled # es) None gone = (if gone then Done else Pending) # mailbox es None gone"

fun published :: "stream_event list \<Rightarrow> summary list" where
  "published [] = []"
| "published (Published x # es) = x # published es"
| "published (_ # es) = published es"

fun items :: "'a polled list \<Rightarrow> 'a list" where
  "items [] = []"
| "items (Item x # ps) = x # items ps"
| "items (_ # ps) = items ps"

definition in_box :: "summary option \<Rightarrow> summary list" where
  "in_box box = (case box of None \<Rightarrow> [] | Some x \<Rightarrow> [x])"

definition newest :: "'a list \<Rightarrow> 'a option" where
  "newest xs = (if xs = [] then None else Some (last xs))"

lemma in_box_simps [simp]: "in_box None = []" "in_box (Some x) = [x]"
  by (simp_all add: in_box_def)

lemma items_map: "items (map (map_polled f) ps) = map f (items ps)"
  by (induction ps rule: items.induct) simp_all

lemma done_map: "Done \<in> set (map (map_polled f) ps) \<longleftrightarrow> Done \<in> set ps"
  by (induction ps rule: items.induct) simp_all

lemma mailbox_subseq: "subseq (items (mailbox es box gone)) (in_box box @ published es)"
  by (induction es box gone rule: mailbox.induct) (auto simp: in_box_def split: option.splits)

lemma mailbox_latest:
  assumes "es \<noteq> []" and "last es = Polled" and "in_box box @ published es \<noteq> []"
  shows "items (mailbox es box gone) \<noteq> [] \<and> last (items (mailbox es box gone)) = last (in_box box @ published es)"
  using assms
proof (induction es box gone rule: mailbox.induct)
  case (4 es x gone)
  show ?case
  proof (cases "published es = []")
    case True
    with mailbox_subseq [of es None gone] show ?thesis by simp
  next
    case False
    then have "es \<noteq> []" by auto
    with 4 False show ?thesis by simp
  qed
next
  case (5 es gone)
  then have "es \<noteq> []" by auto
  with 5 show ?case by (cases gone) simp_all
qed (auto split: if_splits)

lemma mailbox_no_end: "MergerGone \<notin> set es \<Longrightarrow> Done \<notin> set (mailbox es box False)"
  by (induction es box False rule: mailbox.induct) auto

context watch_channel
begin

definition shows_box :: "'w \<Rightarrow> 's \<Rightarrow> summary option \<Rightarrow> bool" where
  "shows_box w s box \<longleftrightarrow> yielded s \<le> version w \<and> box = (if yielded s < version w then Some (current w) else None)"

lemma stream_run_mailbox:
  assumes "shows_box w s box" and "\<forall>x\<in>set (in_box box @ published es). to_proto x = Inr (f x)"
  shows "stream_run L es w s = Inr (map (map_polled f) (mailbox es box (hung_up w)))"
  using assms
proof (induction es arbitrary: w s box)
  case (Cons e es)
  show ?case
  proof (cases e)
    case (Published x)
    with Cons.IH [of "send L x w" s "Some x"] Cons.prems show ?thesis
      by (simp add: shows_box_def send_law)
  next
    case MergerGone
    with Cons.IH [of "hang_up L w" s box] Cons.prems show ?thesis
      by (simp add: shows_box_def hang_up_law)
  next
    case Polled
    obtain p s' where p: "poll_next L w s = (p, s')" by (cases "poll_next L w s")
    have s': "shows_box w s' None" and res: "p = (case box of Some x \<Rightarrow> Item x | None \<Rightarrow> if hung_up w then Done else Pending)"
      using Cons.prems(1) poll_new_law [of s w] poll_old_law [of s w] p by (auto simp: shows_box_def split: if_splits)
    from Cons.IH [OF s'] Cons.prems(2) Polled
    have "stream_run L es w s' = Inr (map (map_polled f) (mailbox es None (hung_up w)))" by simp
    with Cons.prems(2) Polled show ?thesis
      by (cases box) (simp_all add: stream_next_def p res)
  qed
qed simp

lemma sends: "version (fold (send L) xs w) = version w + length xs"
  "current (fold (send L) xs w) = last (current w # xs)" "hung_up (fold (send L) xs w) = hung_up w"
  by (induction xs arbitrary: w) (simp_all add: send_law)

lemma subscription_mailbox:
  assumes "\<forall>x\<in>set (earlier @ published es). to_proto x = Inr (f x)"
  shows "subscription L earlier es = Inr (map (map_polled f) (mailbox es (newest earlier) False))"
proof -
  obtain w r where wr: "channel L default_summary = (w, r)" by (cases "channel L default_summary")
  note c = channel_law [OF wr]
  have "shows_box (fold (send L) earlier w) (book_summary L (service_new r)) (newest earlier)"
    using c by (simp add: shows_box_def book_summary_def service_new_def from_changes_law clone_law sends newest_def)
  moreover have "\<forall>x\<in>set (in_box (newest earlier) @ published es). to_proto x = Inr (f x)"
    using assms(1) by (simp add: newest_def)
  ultimately have "stream_run L es (fold (send L) earlier w) (book_summary L (service_new r))
      = Inr (map (map_polled f) (mailbox es (newest earlier) (hung_up (fold (send L) earlier w))))" by (rule stream_run_mailbox)
  with c show ?thesis by (simp add: subscription_def wr sends)
qed

end

text \<open>Tokio's own layout: the value, its version and the flag; a receiver is the version it has seen.\<close>

definition reference_watch :: "(summary \<times> nat \<times> bool, nat, nat) watch_lib" where
  "reference_watch = \<lparr>channel = \<lambda>x. ((x, 0, False), 0), send = \<lambda>x (_, n, gone). (x, Suc n, gone),
     hang_up = \<lambda>(x, n, _). (x, n, True), clone_rx = id, from_changes = id,
     poll_next = \<lambda>(x, n, gone) s. (if s < n then (Item x, n) else (if gone then Done else Pending, s))\<rparr>"

interpretation ref_watch: watch_channel reference_watch "\<lambda>(_, n, _). n" "\<lambda>(x, _, _). x" "\<lambda>(_, _, gone). gone" id id
  by unfold_locales (auto simp: reference_watch_def split: prod.splits)

section \<open>From the merger to the screen\<close>

text \<open>The message of a summary of the merger.\<close>

definition message_of_summary :: "summary \<Rightarrow> proto_summary" where
  "message_of_summary sm = projr (to_proto sm)"

lemma merged_message:
  assumes "external_crates X" and "all_merged X sms" and "sm \<in> set sms"
  shows "to_proto sm = Inr (message_of_summary sm)"
    and "length (ps_bids (message_of_summary sm)) \<le> MAX_DISPLAY"
    and "length (ps_asks (message_of_summary sm)) \<le> MAX_DISPLAY"
proof -
  from assms(2,3) obtain st where st: "wf_store st" "merge X st = Inr sm"
    by (auto simp: all_merged_def list_all_iff)
  obtain ps where ps: "to_proto sm = Inr ps"
    "map pl_price (ps_bids ps) = map (\<lambda>l. to_f64 (lv_price l)) (sm_bids sm)"
    "map pl_price (ps_asks ps) = map (\<lambda>l. to_f64 (lv_price l)) (sm_asks sm)"
    using to_proto_total [OF assms(1) st] by blast
  obtain sm' where "merge X st = Inr sm'" "length (sm_bids sm') \<le> DEPTH" "length (sm_asks sm') \<le> DEPTH"
    by (rule merge_conserves [OF assms(1) wf_store_length [OF st(1)]]) simp
  then have len: "length (sm_bids sm) \<le> MAX_DISPLAY" "length (sm_asks sm) \<le> MAX_DISPLAY"
    using st(2) by (simp_all add: DEPTH_def MAX_DISPLAY_def)
  have "length (ps_bids ps) = length (sm_bids sm)" "length (ps_asks ps) = length (sm_asks sm)"
    using ps(2,3) by (metis length_map)+
  with ps(1) len
  show "to_proto sm = Inr (message_of_summary sm)" "length (ps_bids (message_of_summary sm)) \<le> MAX_DISPLAY"
    "length (ps_asks (message_of_summary sm)) \<le> MAX_DISPLAY"
    by (simp_all add: message_of_summary_def)
qed

lemma box_list: "in_box (newest xs) = drop (length xs - 1) xs"
  by (cases xs rule: rev_cases) (simp_all add: newest_def)

lemma subscription_polls:
  assumes "watch_channel L version current hung_up seen yielded" and "external_crates X"
    and "all_merged X (earlier @ published es)"
  shows "subscription L earlier es = Inr (map (map_polled message_of_summary) (mailbox es (newest earlier) False))"
  by (rule watch_channel.subscription_mailbox [OF assms(1)]) (use merged_message(1) [OF assms(2,3)] in blast)

lemma mailbox_of_published:
  shows "subseq (items (mailbox es (newest earlier) False)) (earlier @ published es)"
    and "es \<noteq> [] \<Longrightarrow> last es = Polled \<Longrightarrow> earlier @ published es \<noteq> [] \<Longrightarrow>
      items (mailbox es (newest earlier) False) \<noteq> []
      \<and> last (items (mailbox es (newest earlier) False)) = last (earlier @ published es)"
proof -
  have "subseq (in_box (newest earlier)) earlier" by (simp add: box_list suffix_imp_subseq suffix_drop)
  then have "subseq (in_box (newest earlier) @ published es) (earlier @ published es)"
    by (rule list_emb_append_mono) simp
  with mailbox_subseq show "subseq (items (mailbox es (newest earlier) False)) (earlier @ published es)"
    by (rule subseq_order.trans)
next
  assume es: "es \<noteq> []" "last es = Polled" "earlier @ published es \<noteq> []"
  then have "in_box (newest earlier) @ published es \<noteq> []"
    "last (in_box (newest earlier) @ published es) = last (earlier @ published es)"
    by (auto simp: newest_def)
  with mailbox_latest [OF es(1,2), of "newest earlier" False]
  show "items (mailbox es (newest earlier) False) \<noteq> []
      \<and> last (items (mailbox es (newest earlier) False)) = last (earlier @ published es)" by simp
qed

text \<open>What the viewer's \<open>select!\<close> makes of a poll: a summary, its tick while nothing comes, or the end.\<close>

definition as_message :: "proto_summary polled \<Rightarrow> 'e message" where
  "as_message p = (case p of Item m \<Rightarrow> Next m | Pending \<Rightarrow> Tick | Done \<Rightarrow> StreamClosed)"

definition undisturbed :: "proto_summary polled list \<Rightarrow> ('e message \<times> ('e + unit) \<times> 'e key_event) list" where
  "undisturbed polls = map (\<lambda>p. (as_message p, Inr (), NoEvent)) polls"

lemma undisturbed_viewer:
  "Done \<notin> set polls \<Longrightarrow> \<exists>v'. client_loop (undisturbed polls) v = (Inr (), v')
    \<and> vw_summary v' = last (vw_summary v # map Some (items polls))"
proof (induction polls arbitrary: v)
  case (Cons p polls)
  from Cons.IH [of "case p of Item m \<Rightarrow> v\<lparr>vw_summary := Some m, updates := updates v + 1\<rparr> | _ \<Rightarrow> v"] Cons.prems
  show ?case
    by (cases p) (auto simp: undisturbed_def as_message_def client_turn_def quits_def Let_def)
qed (simp add: undisturbed_def)

text \<open>The viewer keeps up with any merged summaries.\<close>

lemma viewer_follows:
  fixes ticker now
  assumes "watch_channel L version current hung_up seen yielded" and "external_crates X"
    and all: "all_merged X (earlier @ published es)" and some: "earlier @ published es \<noteq> []"
    and "es \<noteq> []" and "last es = Polled" and "MergerGone \<notin> set es"
  shows "\<exists>polls v m. subscription L earlier es = Inr polls
    \<and> client_loop (undisturbed polls) (viewer_new ticker now) = (Inr () :: 'e ending + unit, v)
    \<and> vw_summary v = Some m \<and> to_proto (last (earlier @ published es)) = Inr m"
proof -
  let ?ps = "mailbox es (newest earlier) False" and ?sms = "earlier @ published es"
  let ?polls = "map (map_polled message_of_summary) ?ps"
  have got: "items ?ps \<noteq> []" "last (items ?ps) = last ?sms"
    using mailbox_of_published(2) [OF assms(5,6) some] by simp_all
  have "Done \<notin> set ?polls"
    using mailbox_no_end [OF assms(7)] by (simp only: done_map not_False_eq_True)
  from undisturbed_viewer [OF this, of "viewer_new ticker now"] obtain v
    where v: "client_loop (undisturbed ?polls) (viewer_new ticker now) = (Inr () :: 'e ending + unit, v)"
      "vw_summary v = last (vw_summary (viewer_new ticker now) # map Some (items ?polls))" by blast
  from got have "vw_summary v = Some (message_of_summary (last ?sms))"
    by (simp add: v(2) items_map last_map)
  moreover have "to_proto (last ?sms) = Inr (message_of_summary (last ?sms))"
    using merged_message(1) [OF assms(2) all last_in_set [OF some]] .
  ultimately show ?thesis using subscription_polls [OF assms(1,2) all] v(1) by blast
qed

text \<open>A merger that finds one book of Binance, with one bid.\<close>

definition one_bid :: order_book where
  "one_bid = \<lparr>ob_exchange_id = 0, ob_bids = [\<lparr>rl_price = FixedPoint 7, rl_amount = FixedPoint 5\<rparr>], ob_asks = [],
     ob_decode_start = 9\<rparr>"

definition one_bid_turn :: turn where
  "one_bid_turn = (map (\<lambda>s. projr (slot_send s one_bid)), False, [(10, 1)])"

lemma one_bid_sent:
  "slot_inv s \<Longrightarrow> slot_inv (projr (slot_send s one_bid)) \<and> slot_unread (projr (slot_send s one_bid)) = Some one_bid"
  using triple.send_law [of s one_bid] by auto

lemma one_bid_run:
  obtains c sm where "run_spsc reference_crates [slot_new] [one_bid_turn] = Inr (False, c)" and "summaries c = [sm]"
proof -
  have new: "slot_inv (slot_new :: order_book slot)" by (simp add: slot_inv_def slot_new_simps)
  let ?s = "projr (slot_send slot_new one_bid)"
  let ?c = "merger_start [?s]"
  have c: "merger_inv ?c" "0 < length (slots ?c)" "slot_unread (slots ?c ! 0) = Some one_bid"
    using one_bid_sent [OF new] by (auto intro: merger_inv_start) (simp_all add: merger_start_def)
  have "\<not> is_abandoned ?s"
    by (simp add: slot_send_def write_back_def publish_swap_def slot_new_def is_abandoned_def Let_def)
  moreover obtain sm c' where "poll_one reference_crates 10 1 0 ?c = Inr c'" "summaries c' = [sm]"
    using poll_one_cases [OF reference.external_crates_axioms c(1,2), of 10 1] c(3)
    by (metis append_Nil merger_start_def merger_state.select_convs(3) option.distinct(1))
  ultimately show thesis
    by (intro that [of c' sm])
      (simp_all add: run_spsc_def one_bid_turn_def merger_pass_def MAX_EXCHANGES_def EXCHANGES_def merger_start_def)
qed

lemma one_bid_ok: "list_all slot_inv [slot_new :: order_book slot]"
  "list_all (turn_ok (length [slot_new :: order_book slot])) [one_bid_turn]"
  using one_bid_sent by (auto simp: slot_inv_def [of slot_new] slot_new_simps turn_ok_def one_bid_turn_def list_all_iff)

section \<open>Properties\<close>

text \<open>
  C3. A client that subscribes at any moment of any run of the merger receives merged summaries in the
  order of their publication, none twice and never the empty initial one; conversion does not panic,
  and every message fits the viewer. When nothing was published after its last poll, what it got last
  is the newest summary.
\<close>

theorem subscriber_sees_latest:
  assumes "watch_channel L version current hung_up seen yielded" and "external_crates X"
    and "list_all slot_inv receivers" and "list_all (turn_ok (length receivers)) turns"
    and "run_spsc X receivers turns = Inr (ended, c)" and "summaries c = earlier @ published es"
  shows "\<exists>polls. subscription L earlier es = Inr polls
    \<and> subseq (map Inr (items polls)) (map to_proto (summaries c))
    \<and> list_all (\<lambda>m. length (ps_bids m) \<le> MAX_DISPLAY \<and> length (ps_asks m) \<le> MAX_DISPLAY) (items polls)
    \<and> (es \<noteq> [] \<and> last es = Polled \<and> summaries c \<noteq> []
        \<longrightarrow> items polls \<noteq> [] \<and> to_proto (last (summaries c)) = Inr (last (items polls)))"
proof -
  have all: "all_merged X (earlier @ published es)"
    using run_published [OF assms(2-5)] assms(6) by simp
  note message = merged_message [OF assms(2) all]
  let ?got = "items (mailbox es (newest earlier) False)"
  have sub: "subseq ?got (earlier @ published es)" by (rule mailbox_of_published)
  then have "subseq (map (\<lambda>sm. Inr (message_of_summary sm)) ?got) (map (\<lambda>sm. Inr (message_of_summary sm)) (summaries c))"
    unfolding assms(6) by (rule subseq_map)
  also have "map (\<lambda>sm. Inr (message_of_summary sm)) (summaries c) = map to_proto (summaries c)"
    unfolding assms(6) using message(1) by (intro map_cong) simp_all
  finally have "subseq (map Inr (map message_of_summary ?got)) (map to_proto (summaries c))" by (simp add: comp_def)
  moreover have "set ?got \<subseteq> set (earlier @ published es)" by (auto elim: list_emb_set [OF sub] simp del: set_append)
  then have "list_all (\<lambda>m. length (ps_bids m) \<le> MAX_DISPLAY \<and> length (ps_asks m) \<le> MAX_DISPLAY)
      (map message_of_summary ?got)"
    using message(2,3) by (auto simp: list_all_iff simp del: set_append)
  moreover have "map message_of_summary ?got \<noteq> [] \<and> to_proto (last (summaries c)) = Inr (last (map message_of_summary ?got))"
    if "es \<noteq> []" "last es = Polled" "summaries c \<noteq> []"
  proof -
    have "?got \<noteq> [] \<and> last ?got = last (summaries c)"
      using mailbox_of_published(2) [OF that(1,2)] that(3) by (simp add: assms(6))
    moreover have "to_proto (last (summaries c)) = Inr (message_of_summary (last (summaries c)))"
      using message(1) that(3) unfolding assms(6) by (metis last_in_set)
    ultimately show ?thesis by (simp add: last_map)
  qed
  ultimately show ?thesis
    using subscription_polls [OF assms(1,2) all] by (simp add: items_map)
qed

theorem subscriber_sees_latest_witness:
  "\<exists>c sm m. run_spsc reference_crates [slot_new] [one_bid_turn] = Inr (False, c) \<and> summaries c = [sm]
    \<and> subscription reference_watch [] [Polled, Published sm, Polled, MergerGone, Polled] = Inr [Pending, Item m, Done]
    \<and> to_proto sm = Inr m"
proof -
  obtain c sm where c: "run_spsc reference_crates [slot_new] [one_bid_turn] = Inr (False, c)" "summaries c = [sm]"
    by (rule one_bid_run)
  from subscriber_sees_latest [OF ref_watch.watch_channel_axioms reference.external_crates_axioms one_bid_ok c(1),
      of "[]" "[Polled, Published sm, Polled, MergerGone, Polled]"] c(2)
  obtain polls m where polls: "subscription reference_watch [] [Polled, Published sm, Polled, MergerGone, Polled] = Inr polls"
    "to_proto sm = Inr m" by auto
  then have "polls = [Pending, Item m, Done]"
    by (simp add: subscription_def reference_watch_def service_new_def book_summary_def stream_next_def)
  with polls c show ?thesis by blast
qed

text \<open>
  From the merger to the screen: while the merger runs, nothing fails and no key is pressed, a viewer
  that subscribed at any moment and has polled since the last publication shows the newest summary the
  merger has published.
\<close>

theorem screen_shows_latest:
  assumes "watch_channel L version current hung_up seen yielded" and "external_crates X"
    and "list_all slot_inv receivers" and "list_all (turn_ok (length receivers)) turns"
    and "run_spsc X receivers turns = Inr (ended, c)" and "summaries c = earlier @ published es"
    and "summaries c \<noteq> []" and "es \<noteq> []" and "last es = Polled" and "MergerGone \<notin> set es"
  shows "\<exists>polls v m. subscription L earlier es = Inr polls
    \<and> client_loop (undisturbed polls) (viewer_new ticker now) = (Inr () :: 'e ending + unit, v)
    \<and> vw_summary v = Some m \<and> to_proto (last (summaries c)) = Inr m"
proof -
  have "all_merged X (earlier @ published es)" "earlier @ published es \<noteq> []"
    using run_published [OF assms(2-5)] assms(6,7) by simp_all
  from viewer_follows [OF assms(1,2) this assms(8-10), of ticker now] show ?thesis by (simp add: assms(6))
qed

theorem screen_shows_latest_witness:
  "\<exists>c sm polls v m. run_spsc reference_crates [slot_new] [one_bid_turn] = Inr (False, c) \<and> summaries c = [sm]
    \<and> subscription reference_watch [sm] [Polled, Polled] = Inr polls
    \<and> client_loop (undisturbed polls) (viewer_new (ascii ''ETHBTC'') 3) = (Inr () :: bytes ending + unit, v)
    \<and> vw_summary v = Some m \<and> to_proto sm = Inr m"
proof -
  obtain c sm where c: "run_spsc reference_crates [slot_new] [one_bid_turn] = Inr (False, c)" "summaries c = [sm]"
    by (rule one_bid_run)
  from screen_shows_latest [OF ref_watch.watch_channel_axioms reference.external_crates_axioms one_bid_ok c(1),
      of "[sm]" "[Polled, Polled]" "ascii ''ETHBTC''" 3] c show ?thesis by auto
qed

end
