(* ===== verification/Grpc.thy ===== *)
theory Grpc
  imports Subscribers
begin

text \<open>
  The generated code of \<open>src/gen/orderbook.rs\<close>: the settings of the client and of the server, the routing
  of a request by its path, the call of the client. The transport, the codec and the streaming of
  tonic and prost are parameters, a record \<open>tonic\<close> under the locale \<open>tonic_stack\<close> of their documented
  behaviour. The program uses both ends as they are created; the rest of their interface is modelled too.
\<close>

section \<open>Settings\<close>

text \<open>\<open>EnabledCompressionEncodings\<close> is the set of the enabled encodings; limits are in bytes.\<close>

record 'enc grpc_settings =
  accepted :: "'enc set"
  sending :: "'enc set"
  max_decoding :: "nat option"
  max_encoding :: "nat option"

definition default_settings :: "'enc grpc_settings" where
  "default_settings = \<lparr>accepted = {}, sending = {}, max_decoding = None, max_encoding = None\<rparr>"

record ('svc, 'enc) grpc_server =
  srv_inner :: 'svc
  srv_settings :: "'enc grpc_settings"

definition server_from_arc :: "'svc \<Rightarrow> ('svc, 'enc) grpc_server" where
  "server_from_arc service = \<lparr>srv_inner = service, srv_settings = default_settings\<rparr>"

definition server_new :: "'svc \<Rightarrow> ('svc, 'enc) grpc_server" where
  "server_new service = server_from_arc service"

text \<open>The inner \<open>Grpc\<close> of a client starts with the same settings.\<close>

definition client_new :: "'enc grpc_settings" where
  "client_new = default_settings"

text \<open>\<open>with_origin\<close> keeps the origin for the URIs of the requests.\<close>

definition client_with_origin :: "'uri \<Rightarrow> 'uri \<times> 'enc grpc_settings" where
  "client_with_origin origin = (origin, default_settings)"

text \<open>The builder methods of the server.\<close>

definition accept_compressed :: "'enc \<Rightarrow> 'enc grpc_settings \<Rightarrow> 'enc grpc_settings" where
  "accept_compressed encoding s = s\<lparr>accepted := insert encoding (accepted s)\<rparr>"

definition send_compressed :: "'enc \<Rightarrow> 'enc grpc_settings \<Rightarrow> 'enc grpc_settings" where
  "send_compressed encoding s = s\<lparr>sending := insert encoding (sending s)\<rparr>"

definition max_decoding_message_size :: "nat \<Rightarrow> 'enc grpc_settings \<Rightarrow> 'enc grpc_settings" where
  "max_decoding_message_size limit s = s\<lparr>max_decoding := Some limit\<rparr>"

definition max_encoding_message_size :: "nat \<Rightarrow> 'enc grpc_settings \<Rightarrow> 'enc grpc_settings" where
  "max_encoding_message_size limit s = s\<lparr>max_encoding := Some limit\<rparr>"

text \<open>Those of the client hand on to tonic's of the same names, which do the same to its settings.\<close>

definition client_send_compressed :: "'enc \<Rightarrow> 'enc grpc_settings \<Rightarrow> 'enc grpc_settings" where
  "client_send_compressed encoding c = send_compressed encoding c"

definition client_accept_compressed :: "'enc \<Rightarrow> 'enc grpc_settings \<Rightarrow> 'enc grpc_settings" where
  "client_accept_compressed encoding c = accept_compressed encoding c"

definition client_max_decoding_message_size :: "nat \<Rightarrow> 'enc grpc_settings \<Rightarrow> 'enc grpc_settings" where
  "client_max_decoding_message_size limit c = max_decoding_message_size limit c"

definition client_max_encoding_message_size :: "nat \<Rightarrow> 'enc grpc_settings \<Rightarrow> 'enc grpc_settings" where
  "client_max_encoding_message_size limit c = max_encoding_message_size limit c"

text \<open>The transport clones the server for each connection: the same service, the settings copied.\<close>

definition server_clone :: "('svc, 'enc) grpc_server \<Rightarrow> ('svc, 'enc) grpc_server" where
  "server_clone srv = \<lparr>srv_inner = srv_inner srv,
     srv_settings = \<lparr>accepted = accepted (srv_settings srv), sending = sending (srv_settings srv),
       max_decoding = max_decoding (srv_settings srv), max_encoding = max_encoding (srv_settings srv)\<rparr>\<rparr>"

lemma server_clone_same [simp]: "server_clone srv = srv"
  by (simp add: server_clone_def)

text \<open>\<open>Poll::Ready(Ok(()))\<close>; an answer that is not ready would be \<open>None\<close>.\<close>

definition poll_ready :: "('svc, 'enc) grpc_server \<Rightarrow> (bytes + unit) option" where
  "poll_ready srv = Some (Inr ())"

text \<open>\<open>connect\<close>: what \<open>Endpoint::new\<close> and the connection attempt return are arguments.\<close>

definition client_connect ::
    "('dst \<Rightarrow> 'e + 'endpoint) \<Rightarrow> ('endpoint \<Rightarrow> 'e + unit) \<Rightarrow> 'dst \<Rightarrow> 'e + 'enc grpc_settings" where
  "client_connect endpoint connect dst =
     (case endpoint dst of Inl e \<Rightarrow> Inl e
      | Inr ep \<Rightarrow> (case connect ep of Inl e \<Rightarrow> Inl e | Inr _ \<Rightarrow> Inr client_new))"

section \<open>The library\<close>

text \<open>A reply: a stream of messages, or headers with an empty body. A status is a code with a text.\<close>

datatype 's http_reply = Streaming 's | HeadersOnly "(bytes \<times> bytes) list"

type_synonym status = "nat \<times> bytes"

record ('q, 's, 'enc) tonic =
  make_request :: "'enc grpc_settings \<Rightarrow> bytes \<Rightarrow> 'q" \<comment> \<open>an \<open>Empty\<close> message to a path\<close>
  request_path :: "'q \<Rightarrow> bytes"
  server_streaming :: "'enc grpc_settings \<Rightarrow> (unit \<Rightarrow> 's) \<Rightarrow> 'q \<Rightarrow> 's http_reply"
  read_reply :: "'enc grpc_settings \<Rightarrow> 's http_reply \<Rightarrow> status + 's"
  intercepted :: "('q \<Rightarrow> status + 'q) \<Rightarrow> ('q \<Rightarrow> 's http_reply) \<Rightarrow> 'q \<Rightarrow> 's http_reply" \<comment> \<open>\<open>InterceptedService\<close>\<close>
  message_size :: "proto_summary \<Rightarrow> nat"
  transfer :: "'enc grpc_settings \<Rightarrow> 'enc grpc_settings \<Rightarrow> proto_summary polled list \<Rightarrow> proto_summary polled list"

definition GRPC_STATUS :: bytes where
  "GRPC_STATUS = ascii ''grpc-status''"

definition GRPC_CONTENT_TYPE :: bytes where
  "GRPC_CONTENT_TYPE = ascii ''application/grpc''"

definition UNIMPLEMENTED :: nat where
  "UNIMPLEMENTED = 12"

definition UNKNOWN :: nat where
  "UNKNOWN = 2"

text \<open>What the generated comments say: 4 MB is the default of decoding, there is none of encoding.\<close>

definition fits_limits :: "'enc grpc_settings \<Rightarrow> 'enc grpc_settings \<Rightarrow> nat \<Rightarrow> bool" where
  "fits_limits server client n \<longleftrightarrow> (case max_encoding server of Some limit \<Rightarrow> n \<le> limit | None \<Rightarrow> True)
     \<and> n \<le> (case max_decoding client of Some limit \<Rightarrow> limit | None \<Rightarrow> 4 * 2 ^ 20)"

text \<open>
  The size of a message with texts shorter than 108 bytes, from the field tags of the derived encoding:
  9 bytes for a number, 2 and the text for a text, 2 and the level for a level; default values may be
  left out.
\<close>

definition size_bound :: "proto_summary \<Rightarrow> nat" where
  "size_bound m = 9 + sum_list (map (\<lambda>l. 22 + length (pl_exchange l)) (ps_bids m @ ps_asks m))"

locale tonic_stack =
  fixes T :: "('q, 's, 'enc) tonic"
  assumes path_law: "request_path T (make_request T client path) = path"
    and serve_law: "sending client \<subseteq> accepted server \<Longrightarrow>
      server_streaming T server method (make_request T client path) = Streaming (method ())"
    and stream_law: "read_reply T settings (Streaming s) = Inr s"
    and status_law: "map_of headers GRPC_STATUS = Some (show_nat code) \<Longrightarrow>
      \<exists>text. read_reply T settings (HeadersOnly headers) = Inl (code, text)"
    and accepted_law: "interceptor req = Inr req' \<Longrightarrow> intercepted T interceptor svc req = svc req'"
    and rejected_law: "interceptor req = Inl (code, text) \<Longrightarrow>
      \<exists>text'. read_reply T settings (intercepted T interceptor svc req) = Inl (code, text')"
    and size_law: "\<forall>l\<in>set (ps_bids m @ ps_asks m). length (pl_exchange l) < 108 \<Longrightarrow> message_size T m \<le> size_bound m"
    and transfer_law: "\<forall>m\<in>set (items polls). fits_limits server client (message_size T m) \<Longrightarrow>
      transfer T server client polls = polls"

text \<open>Concrete functions that behave so, for the witnesses: a request is its path.\<close>

definition reference_tonic :: "(bytes, 's, 'enc) tonic" where
  "reference_tonic = \<lparr>make_request = \<lambda>_ path. path, request_path = id,
     server_streaming = \<lambda>_ method _. Streaming (method ()),
     read_reply = \<lambda>_ reply. (case reply of
         Streaming s \<Rightarrow> Inr s
       | HeadersOnly headers \<Rightarrow> Inl (case map_of headers GRPC_STATUS of Some t \<Rightarrow> digits_val t | None \<Rightarrow> UNKNOWN, [])),
     intercepted = \<lambda>interceptor svc req. (case interceptor req of
         Inl (code, _) \<Rightarrow> HeadersOnly [(GRPC_STATUS, show_nat code)]
       | Inr req' \<Rightarrow> svc req'),
     message_size = size_bound,
     transfer = \<lambda>server client. takeWhile
       (\<lambda>p. case p of Item m \<Rightarrow> fits_limits server client (size_bound m) | _ \<Rightarrow> True)\<rparr>"

lemma takeWhile_items:
  "\<forall>m\<in>set (items polls). P m \<Longrightarrow> takeWhile (\<lambda>p. case p of Item m \<Rightarrow> P m | _ \<Rightarrow> True) polls = polls"
  by (induction polls rule: items.induct) auto

abbreviation plain_tonic :: "(bytes, nat, bool) tonic" where
  "plain_tonic \<equiv> reference_tonic"

interpretation ref_tonic: tonic_stack reference_tonic
  by unfold_locales (simp_all add: reference_tonic_def digit_simps takeWhile_items)

section \<open>The generated code\<close>

definition SERVICE_NAME :: bytes where
  "SERVICE_NAME = ascii ''orderbook.OrderbookAggregator''"

text \<open>The path of the request that the client sends.\<close>

definition client_path :: bytes where
  "client_path = ascii ''/orderbook.OrderbookAggregator/BookSummary''"

definition server_call ::
    "('q, 's, 'enc) tonic \<Rightarrow> ('svc \<Rightarrow> 's) \<Rightarrow> ('svc, 'enc) grpc_server \<Rightarrow> 'q \<Rightarrow> 's http_reply" where
  "server_call T method srv req =
     (if request_path T req = ascii ''/orderbook.OrderbookAggregator/BookSummary''
      then server_streaming T (srv_settings srv) (\<lambda>_. method (srv_inner srv)) req
      else HeadersOnly [(GRPC_STATUS, show_nat UNIMPLEMENTED), (ascii ''content-type'', GRPC_CONTENT_TYPE)])"

definition server_with_interceptor ::
    "('q, 's, 'enc) tonic \<Rightarrow> ('q \<Rightarrow> status + 'q) \<Rightarrow> ('svc \<Rightarrow> 's) \<Rightarrow> 'svc \<Rightarrow> 'q \<Rightarrow> 's http_reply" where
  "server_with_interceptor T interceptor method service = intercepted T interceptor (server_call T method (server_new service))"

text \<open>A client with an interceptor has it in front of its transport.\<close>

definition client_with_interceptor ::
    "('q, 's, 'enc) tonic \<Rightarrow> ('q \<Rightarrow> 's http_reply) \<Rightarrow> ('q \<Rightarrow> status + 'q) \<Rightarrow> 'enc grpc_settings \<times> ('q \<Rightarrow> 's http_reply)" where
  "client_with_interceptor T call interceptor = (client_new, intercepted T interceptor call)"

text \<open>\<open>book_summary\<close> of the client; \<open>ready\<close> is the answer of the transport, \<open>call\<close> the other end.\<close>

definition client_book_summary ::
    "('q, 's, 'enc) tonic \<Rightarrow> 'enc grpc_settings \<Rightarrow> bytes + unit \<Rightarrow> ('q \<Rightarrow> 's http_reply) \<Rightarrow> status + 's" where
  "client_book_summary T settings ready call =
     (case ready of
        Inl e \<Rightarrow> Inl (UNKNOWN, ascii ''Service was not ready: '' @ e)
      | Inr _ \<Rightarrow> read_reply T settings (call (make_request T settings client_path)))"

text \<open>
  A client that connects to the server of \<open>main.rs\<close> after \<open>earlier\<close> has been published, both with the
  settings they are created with, and what its polls return.
\<close>

definition rpc_subscription ::
    "('q, 's, 'enc) tonic \<Rightarrow> ('w, 'r, 's) watch_lib \<Rightarrow> bytes + unit \<Rightarrow> summary list \<Rightarrow> stream_event list
      \<Rightarrow> status + proto_summary polled list run" where
  "rpc_subscription T L ready earlier es =
     (let (w, rx) = channel L default_summary; srv = server_new (service_new rx) in
      map_sum id (\<lambda>s. map_sum id (transfer T default_settings client_new)
          (stream_run L es (fold (send L) earlier w) s))
        (client_book_summary T client_new ready (server_call T (book_summary L) srv)))"

text \<open>The same with both ends configured by their builder methods.\<close>

definition configured_subscription ::
    "('q, 's, 'enc) tonic \<Rightarrow> ('w, 'r, 's) watch_lib \<Rightarrow> 'enc grpc_settings \<Rightarrow> 'enc grpc_settings \<Rightarrow> summary list
      \<Rightarrow> stream_event list \<Rightarrow> status + proto_summary polled list run" where
  "configured_subscription T L s c earlier es =
     (let (w, rx) = channel L default_summary; srv = server_clone ((server_new (service_new rx))\<lparr>srv_settings := s\<rparr>) in
      map_sum id (\<lambda>st. map_sum id (transfer T (srv_settings srv) c) (stream_run L es (fold (send L) earlier w) st))
        (client_book_summary T c (Inr ()) (server_call T (book_summary L) srv)))"

section \<open>Sizes\<close>

lemma exchange_name_short: "i < MAX_EXCHANGES \<Longrightarrow> length (EXCHANGES ! i) \<le> 8"
  by (auto simp: MAX_EXCHANGES_def EXCHANGES_def ascii_def less_Suc_eq nth_Cons')

lemma merged_size:
  assumes "external_crates X" and "all_merged X sms" and "sm \<in> set sms"
  shows "\<forall>l\<in>set (ps_bids (message_of_summary sm) @ ps_asks (message_of_summary sm)). length (pl_exchange l) \<le> 8"
    and "size_bound (message_of_summary sm) \<le> 609"
proof -
  let ?m = "message_of_summary sm"
  from assms(2,3) obtain st where st: "wf_store st" "merge X st = Inr sm"
    by (auto simp: all_merged_def list_all_iff)
  note m = merged_message [OF assms]
  have names: "map pl_exchange (ps_bids ?m @ ps_asks ?m)
      = map (\<lambda>l. EXCHANGES ! unat (lv_exchange_id l)) (sm_bids sm @ sm_asks sm)"
    using to_proto_total [OF assms(1) st] m(1) by auto
  have "length n \<le> 8" if "n \<in> set (map pl_exchange (ps_bids ?m @ ps_asks ?m))" for n
    using that merged_level_id [OF assms(1) st] exchange_name_short unfolding names by auto
  then show short: "\<forall>l\<in>set (ps_bids ?m @ ps_asks ?m). length (pl_exchange l) \<le> 8" by auto
  have "sum_list (map (\<lambda>l. 22 + length (pl_exchange l)) ls) \<le> 30 * length ls"
    if "\<forall>l\<in>set ls. length (pl_exchange l) \<le> 8" for ls :: "proto_level list"
    using that by (induction ls) auto
  from this [OF short] m(2,3) show "size_bound ?m \<le> 609" by (simp add: size_bound_def MAX_DISPLAY_def)
qed

lemma rpc_reaches:
  assumes "tonic_stack T" and "sending c \<subseteq> accepted (srv_settings srv)"
  shows "client_book_summary T c (Inr ()) (server_call T method srv) = Inr (method (srv_inner srv))"
  by (simp add: client_book_summary_def server_call_def client_path_def tonic_stack.path_law [OF assms(1)]
      tonic_stack.serve_law [OF assms] tonic_stack.stream_law [OF assms(1)])

lemma polls_from_published:
  "m \<in> set (items (map (map_polled message_of_summary) (mailbox es (newest earlier) False))) \<Longrightarrow>
    \<exists>sm\<in>set (earlier @ published es). m = message_of_summary sm"
  using mailbox_of_published(1) [of es earlier]
  by (auto simp: items_map elim!: list_emb_set simp del: set_append)

lemma message_sizes:
  assumes "tonic_stack T" and "external_crates X" and all: "all_merged X (earlier @ published es)"
  shows "list_all (\<lambda>m. message_size T m \<le> 609) (items (map (map_polled message_of_summary) (mailbox es (newest earlier) False)))"
  unfolding list_all_iff
proof
  fix m assume "m \<in> set (items (map (map_polled message_of_summary) (mailbox es (newest earlier) False)))"
  then obtain sm where sm: "sm \<in> set (earlier @ published es)" "m = message_of_summary sm"
    using polls_from_published by blast
  note size = merged_size [OF assms(2) all sm(1), folded sm(2)]
  have "\<forall>l\<in>set (ps_bids m @ ps_asks m). length (pl_exchange l) < 108" using size(1) by fastforce
  from tonic_stack.size_law [OF assms(1) this] size(2) show "message_size T m \<le> 609" by simp
qed

lemma fits_limits_mono: "fits_limits s c n \<Longrightarrow> m \<le> n \<Longrightarrow> fits_limits s c m"
  by (auto simp: fits_limits_def split: option.splits)

lemma configured_lossless:
  assumes "tonic_stack T" and "watch_channel L version current hung_up seen yielded" and "external_crates X"
    and all: "all_merged X (earlier @ published es)"
    and "sending c \<subseteq> accepted s" and "fits_limits s c 609"
  shows "configured_subscription T L s c earlier es = Inr (subscription L earlier es)"
proof -
  let ?polls = "map (map_polled message_of_summary) (mailbox es (newest earlier) False)"
  have "\<forall>m\<in>set (items ?polls). fits_limits s c (message_size T m)"
    using message_sizes [OF assms(1,3) all] fits_limits_mono [OF assms(6)] by (simp add: list_all_iff)
  from tonic_stack.transfer_law [OF assms(1) this] have "transfer T s c ?polls = ?polls" .
  moreover have "client_book_summary T c (Inr ()) (server_call T (book_summary L) ((server_new service)\<lparr>srv_settings := s\<rparr>))
      = Inr (book_summary L service)" for service
    using rpc_reaches [OF assms(1), of c "(server_new service)\<lparr>srv_settings := s\<rparr>" "book_summary L"] assms(5)
    by (simp add: server_new_def server_from_arc_def)
  ultimately show ?thesis
    using subscription_polls [OF assms(2,3) all]
    by (auto simp: configured_subscription_def subscription_def Let_def split: prod.splits)
qed

lemma default_configured:
  "rpc_subscription T L (Inr ()) earlier es = configured_subscription T L default_settings default_settings earlier es"
proof -
  have "(server_new service)\<lparr>srv_settings := default_settings\<rparr> = server_new service" for service :: 'a
    by (simp add: server_new_def server_from_arc_def)
  then show ?thesis
    by (simp add: rpc_subscription_def configured_subscription_def client_new_def)
      (simp add: server_new_def server_from_arc_def Let_def)
qed

lemma rpc_lossless:
  assumes "tonic_stack T" and "watch_channel L version current hung_up seen yielded" and "external_crates X"
    and all: "all_merged X (earlier @ published es)"
  shows "rpc_subscription T L (Inr ()) earlier es = Inr (subscription L earlier es)"
  unfolding default_configured
  by (rule configured_lossless [OF assms]) (simp_all add: default_settings_def fits_limits_def)

section \<open>Properties\<close>

text \<open>
  C21. Requests find their service. The path of the generated client is the one the generated server
  routes, so a client call, whatever the limits of either side, reaches \<open>book_summary\<close> of the service
  the server was made with, and it lies under the service name that the server is registered by; a
  request for any other path is answered with \<open>UNIMPLEMENTED\<close> and never reaches the service; a transport that is not ready is a status of its own, without a request.
\<close>

theorem rpc_routing:
  assumes "tonic_stack T" and "sending c \<subseteq> accepted (srv_settings srv)" and "path \<noteq> client_path"
  shows "client_book_summary T c (Inr ()) (server_call T method srv) = Inr (method (srv_inner srv))
    \<and> (\<exists>text. read_reply T c (server_call T method srv (make_request T c path)) = Inl (UNIMPLEMENTED, text))
    \<and> server_call T method' srv (make_request T c path) = server_call T method srv (make_request T c path)
    \<and> client_book_summary T c (Inl e) call = Inl (UNKNOWN, ascii ''Service was not ready: '' @ e)
    \<and> client_path = ascii ''/'' @ SERVICE_NAME @ ascii ''/BookSummary''"
proof -
  have "map_of [(GRPC_STATUS, show_nat UNIMPLEMENTED), (ascii ''content-type'', GRPC_CONTENT_TYPE)] GRPC_STATUS
      = Some (show_nat UNIMPLEMENTED)" by simp
  note status = tonic_stack.status_law [OF assms(1) this, of c]
  have "client_path = ascii ''/'' @ SERVICE_NAME @ ascii ''/BookSummary''"
    by (simp add: client_path_def SERVICE_NAME_def ascii_def)
  with status show ?thesis using assms(3) rpc_reaches [OF assms(1,2)]
    by (auto simp: client_book_summary_def server_call_def tonic_stack.path_law [OF assms(1)] client_path_def)
qed

theorem rpc_routing_witness:
  "client_book_summary plain_tonic default_settings (Inr ())
      (server_call plain_tonic (book_summary reference_watch) (server_new (service_new 0)))
      = Inr (book_summary reference_watch (service_new 0))
    \<and> (\<exists>text. read_reply plain_tonic default_settings (server_call plain_tonic (book_summary reference_watch)
        (server_new (service_new 0)) (make_request plain_tonic default_settings (ascii ''/other''))) = Inl (UNIMPLEMENTED, text))"
proof -
  have "ascii ''/other'' \<noteq> client_path" by (simp add: client_path_def ascii_def)
  from rpc_routing [of plain_tonic default_settings "server_new (service_new 0)",
      OF ref_tonic.tonic_stack_axioms _ this, of "book_summary reference_watch"]
  show ?thesis by (simp add: default_settings_def server_new_def server_from_arc_def)
qed

text \<open>
  The gRPC layer loses nothing. What a client of the server receives in any run of the merger is what
  \<open>Subscribers\<close> shows of the stream: the connection succeeds and no message is refused, for each has at
  most 609 bytes, far below the 4 MB a client accepts.
\<close>

theorem rpc_delivers:
  assumes "tonic_stack T" and "watch_channel L version current hung_up seen yielded" and "external_crates X"
    and "list_all slot_inv receivers" and "list_all (turn_ok (length receivers)) turns"
    and "run_spsc X receivers turns = Inr (ended, c)" and "summaries c = earlier @ published es"
  shows "rpc_subscription T L (Inr ()) earlier es = Inr (subscription L earlier es)
    \<and> (\<exists>polls. subscription L earlier es = Inr polls \<and> list_all (\<lambda>m. message_size T m \<le> 609) (items polls))"
proof -
  have all: "all_merged X (earlier @ published es)"
    using run_published [OF assms(3-6)] assms(7) by simp
  from rpc_lossless [OF assms(1-3) this] message_sizes [OF assms(1,3) all] subscription_polls [OF assms(2,3) all]
  show ?thesis by blast
qed

theorem rpc_delivers_witness:
  "\<exists>sm m. rpc_subscription plain_tonic reference_watch (Inr ()) [sm] [Polled, Polled] = Inr (Inr [Item m, Pending])
    \<and> to_proto sm = Inr m"
proof -
  obtain c sm where c: "run_spsc reference_crates [slot_new] [one_bid_turn] = Inr (False, c)" "summaries c = [sm]"
    by (rule one_bid_run)
  from rpc_delivers [of plain_tonic, OF ref_tonic.tonic_stack_axioms ref_watch.watch_channel_axioms reference.external_crates_axioms
      one_bid_ok c(1), of "[sm]" "[Polled, Polled]"] c(2)
  obtain polls where polls: "rpc_subscription plain_tonic reference_watch (Inr ()) [sm] [Polled, Polled] = Inr (Inr polls)"
    "subscription reference_watch [sm] [Polled, Polled] = Inr polls" by auto
  from polls(2) show ?thesis
  proof (cases "to_proto sm")
    case (Inr m)
    with polls(2) have "polls = [Item m, Pending]"
      by (simp add: subscription_def reference_watch_def service_new_def book_summary_def stream_next_def)
    with polls(1) Inr show ?thesis by blast
  qed (simp add: subscription_def reference_watch_def service_new_def book_summary_def stream_next_def)
qed

text \<open>
  Configured ends. However client and server are set up by their builder methods, as long as the server
  accepts what the client compresses with and neither limit is below 609 bytes, a client of the server
  receives all that the service yields in any run of the merger. An interceptor of the server decides
  first: a request it refuses gets its status and never reaches the service, one it passes on unchanged
  is served as before.
\<close>

theorem rpc_configured:
  assumes "tonic_stack T" and "watch_channel L version current hung_up seen yielded" and "external_crates X"
    and "list_all slot_inv receivers" and "list_all (turn_ok (length receivers)) turns"
    and "run_spsc X receivers turns = Inr (ended, c)" and "summaries c = earlier @ published es"
    and "sending client \<subseteq> accepted server" and "609 \<le> limit" and "609 \<le> limit'"
  shows "configured_subscription T L (max_encoding_message_size limit server)
      (client_max_decoding_message_size limit' client) earlier es = Inr (subscription L earlier es)
    \<and> (interceptor (make_request T client_new client_path) = Inl (code, text) \<longrightarrow>
        (\<exists>text'. client_book_summary T client_new (Inr ()) (server_with_interceptor T interceptor method service) = Inl (code, text')))
    \<and> (interceptor (make_request T client_new client_path) = Inr (make_request T client_new client_path) \<longrightarrow>
        client_book_summary T client_new (Inr ()) (server_with_interceptor T interceptor method service) = Inr (method service))"
proof (intro conjI impI)
  have all: "all_merged X (earlier @ published es)"
    using run_published [OF assms(3-6)] assms(7) by simp
  show "configured_subscription T L (max_encoding_message_size limit server)
      (client_max_decoding_message_size limit' client) earlier es = Inr (subscription L earlier es)"
    by (rule configured_lossless [OF assms(1-3) all])
      (use assms(8-10) in \<open>simp_all add: max_encoding_message_size_def client_max_decoding_message_size_def
        max_decoding_message_size_def fits_limits_def\<close>)
next
  assume "interceptor (make_request T client_new client_path) = Inl (code, text)"
  from tonic_stack.rejected_law [of T interceptor, OF assms(1) this]
  show "\<exists>text'. client_book_summary T client_new (Inr ()) (server_with_interceptor T interceptor method service) = Inl (code, text')"
    by (simp add: client_book_summary_def server_with_interceptor_def)
next
  assume "interceptor (make_request T client_new client_path) = Inr (make_request T client_new client_path)"
  from tonic_stack.accepted_law [of T interceptor, OF assms(1) this] rpc_reaches [OF assms(1), of client_new "server_new service" "method"]
  show "client_book_summary T client_new (Inr ()) (server_with_interceptor T interceptor method service) = Inr (method service)"
    by (simp add: client_book_summary_def server_with_interceptor_def server_new_def server_from_arc_def client_new_def
        default_settings_def)
qed

theorem rpc_configured_witness:
  "\<exists>c sm. run_spsc reference_crates [slot_new] [one_bid_turn] = Inr (False, c) \<and> summaries c = [sm]
    \<and> configured_subscription plain_tonic reference_watch (max_encoding_message_size 700 (accept_compressed True default_settings))
        (client_max_decoding_message_size 800 (client_send_compressed True default_settings)) [sm] [Polled]
      = Inr (subscription reference_watch [sm] [Polled])
    \<and> (\<exists>text'. client_book_summary plain_tonic client_new (Inr ())
        (server_with_interceptor plain_tonic (\<lambda>_. Inl (16, [])) (book_summary reference_watch) (service_new 0)) = Inl (16, text'))"
proof -
  obtain c sm where c: "run_spsc reference_crates [slot_new] [one_bid_turn] = Inr (False, c)" "summaries c = [sm]"
    by (rule one_bid_run)
  from rpc_configured [of plain_tonic, OF ref_tonic.tonic_stack_axioms ref_watch.watch_channel_axioms reference.external_crates_axioms
      one_bid_ok c(1), of "[sm]" "[Polled]" "client_send_compressed True default_settings" "accept_compressed True default_settings"
      700 800 "\<lambda>_. Inl (16, [])" 16 "[]" "book_summary reference_watch" "service_new 0"] c
  show ?thesis by (simp add: client_send_compressed_def send_compressed_def accept_compressed_def default_settings_def)
qed

end
