(* ===== verification/UnitTestsParsing.thy ===== *)
theory UnitTestsParsing
  imports Binance Bitstamp Service
begin

text \<open>
  The repository's own unit tests of the parsing modules (\<open>mod tests\<close> of \<open>types.rs\<close>, \<open>json_walker.rs\<close>,
  \<open>config.rs\<close>, \<open>exchange/binance.rs\<close>, \<open>exchange/bitstamp.rs\<close> and the fixtures of \<open>testutil.rs\<close>), evaluated
  on the model: each test function is a predicate, and each holds. A wrong translation of one of the
  functions under test would fail here before any theorem is read. The crates are their instances of
  \<open>BookTypes\<close>. \<open>static_size_assertions\<close> is about the layout of memory and has no counterpart.
\<close>

section \<open>Literals\<close>

text \<open>The literal with the decimal digits \<open>n\<close>, \<open>k\<close> of them after the point: \<open>100.5\<close> is \<open>flt 1005 1\<close>.\<close>

definition flt :: "nat \<Rightarrow> nat \<Rightarrow> f64" where
  "flt n k = round_f64 (of_nat n / 10 ^ k)"

lemma flt_to_f64:
  assumes "k \<le> 8" and "n * 10 ^ (8 - k) < 2 ^ 53"
  shows "flt n k = to_f64 (FixedPoint (of_nat (n * 10 ^ (8 - k))))"
proof -
  let ?m = "n * 10 ^ (8 - k)"
  have "unat (of_nat ?m :: u64) = ?m"
    using assms(2) by (simp only: unsigned_of_nat take_bit_nat_eq_self_iff of_nat_id) simp
  moreover have "int ?m < int (2 ^ 53)" using assms(2) by (simp only: of_nat_less_iff)
  then have "round_f64 (of_nat ?m) = of_nat ?m" using exact_below_53 [of "int ?m"] by simp
  moreover have "(of_nat ?m :: rat) / 10 ^ 8 = of_nat n / 10 ^ k"
  proof -
    have scale: "(10 :: rat) ^ 8 = 10 ^ (8 - k) * 10 ^ k" using assms(1) by (simp flip: power_add)
    show ?thesis unfolding scale of_nat_mult of_nat_power of_nat_numeral by simp
  qed
  ultimately show ?thesis by (simp only: flt_def to_f64_def scale_f64_value fixed_point.sel)
qed

lemma from_flt:
  assumes "k \<le> 8" and "n * 10 ^ (8 - k) < 2 ^ 51"
  shows "from_f64 (flt n k) = Inr (FixedPoint (of_nat (n * 10 ^ (8 - k))))"
proof -
  have "unat (of_nat (n * 10 ^ (8 - k)) :: u64) < 2 ^ 51"
    using assms(2) by (simp only: unsigned_of_nat take_bit_nat_eq_self_iff of_nat_id)
      (meson le_less_trans take_bit_nat_less_eq_self)
  moreover have "n * 10 ^ (8 - k) < 2 ^ 53" using assms(2) by simp
  ultimately show ?thesis by (simp only: flt_to_f64 [OF assms(1)] from_to_f64 fixed_point.sel)
qed

section \<open>\<open>types.rs\<close>\<close>

text \<open>The tests that \<open>test_parse!\<close> generates.\<close>

definition test_parse :: "string \<Rightarrow> u64 \<Rightarrow> bool" where
  "test_parse input expected \<longleftrightarrow> map_option raw (fp_parse (ascii input)) = Some expected"

definition parse_tests :: bool where
  "parse_tests \<longleftrightarrow> test_parse ''123'' (123 * SCALE)
     \<and> test_parse ''0.06824000'' 6824000
     \<and> test_parse ''101.5'' (101 * SCALE + 50000000)
     \<and> test_parse ''.5'' 50000000
     \<and> test_parse ''0'' 0
     \<and> test_parse ''0.'' 0
     \<and> test_parse ''00.1'' 10000000
     \<and> test_parse ''0.068240001'' 6824000
     \<and> test_parse ''0.99999999'' 99999999
     \<and> test_parse ''184467440737.0'' (184467440737 * SCALE)"

definition parse_rejects_invalid_inputs :: bool where
  "parse_rejects_invalid_inputs \<longleftrightarrow> list_all (\<lambda>input. fp_parse (ascii input) = None)
     ['''', ''.'', ''abc'', ''1.2x'', ''-1.0'', ''999999999999999'', ''1.2.3'', '' 1'']"

definition to_f64_roundtrip :: bool where
  "to_f64_roundtrip \<longleftrightarrow> (case fp_parse (ascii ''0.06824000'') of
     None \<Rightarrow> False
   | Some fp \<Rightarrow> \<bar>round_f64 (to_f64 fp - flt 6824 5)\<bar> < flt 1 12)"

definition from_f64_roundtrip :: bool where
  "from_f64_roundtrip \<longleftrightarrow> map_sum id raw (from_f64 (flt 1005 1)) = Inr (100 * SCALE + 50000000)"

definition display_formatting :: bool where
  "display_formatting \<longleftrightarrow> map_option fp_display (fp_parse (ascii ''0.06824000'')) = Some (ascii ''0.06824000'')"

definition ordering_matches_numeric :: bool where
  "ordering_matches_numeric \<longleftrightarrow> (case (fp_parse (ascii ''0.06824000''), fp_parse (ascii ''0.06825000'')) of
     (Some a, Some b) \<Rightarrow> a < b | _ \<Rightarrow> False)"

definition from_f64_panics_on_negative :: bool where
  "from_f64_panics_on_negative \<longleftrightarrow> from_f64 (- flt 10 1) = Inl AssertionFailed"

lemmas decimal_eval = fp_parse_def fp_int_loop.simps fp_frac_loop.simps fp_skip_loop.simps fp_combine_def
  checked_mul_def checked_add_def SCALE_def POW10_def ascii_def Let_def word_less_nat_alt

lemma bind_weak_cong: "x = y \<Longrightarrow> Option.bind x f = Option.bind y f"
  by simp

lemma parse_tests_pass: parse_tests
  unfolding parse_tests_def test_parse_def by (simp add: decimal_eval cong: bind_weak_cong)

lemma parse_rejects_invalid_inputs_passes: parse_rejects_invalid_inputs
  unfolding parse_rejects_invalid_inputs_def by (simp add: decimal_eval cong: bind_weak_cong)

lemma parsed_06824: "fp_parse (ascii ''0.06824000'') = Some (FixedPoint 6824000)"
  "fp_parse (ascii ''0.06825000'') = Some (FixedPoint 6825000)"
  by (simp_all add: decimal_eval cong: bind_weak_cong)

lemma to_f64_roundtrip_passes: to_f64_roundtrip
  using round_f64_pos [of "1 / 10 ^ 12"]
  by (simp add: to_f64_roundtrip_def parsed_06824 flt_to_f64 [of 5]) (simp add: flt_def)

lemma from_f64_roundtrip_passes: from_f64_roundtrip
  by (simp add: from_f64_roundtrip_def from_flt SCALE_def)

lemma display_formatting_passes: display_formatting
proof -
  have "unat (6824000 div 100000000 :: u64) = 0" "unat (6824000 mod 100000000 :: u64) = 6824000"
    by (simp_all add: unat_div unat_mod)
  then have "fp_display (FixedPoint 6824000) = show_nat 0 @ [b_dot] @ pad0 8 (show_nat 6824000)"
    by (simp add: fp_display_def SCALE_def)
  then show ?thesis
    by (simp add: display_formatting_def parsed_06824) (simp add: show_nat.simps pad0_def ascii_def)
qed

lemma ordering_matches_numeric_passes: ordering_matches_numeric
  unfolding ordering_matches_numeric_def parsed_06824 by (simp add: less_fixed_point_def word_less_nat_alt)

lemma from_f64_panics_on_negative_passes: from_f64_panics_on_negative
  using round_f64_pos [of 1] by (simp add: from_f64_panics_on_negative_def from_f64_def flt_def)

section \<open>\<open>json_walker.rs\<close>\<close>

definition read_string_basic :: bool where
  "read_string_basic \<longleftrightarrow> fst (read_string (scanner_new (ascii ''\"hello\"''))) = Some (ascii ''hello'')"

text \<open>The escapes of the raw literal are written as bytes: 92 is the backslash, 34 the quote.\<close>

definition read_string_with_escape :: bool where
  "read_string_with_escape \<longleftrightarrow>
     fst (read_string (scanner_new (ascii ''\"say '' @ [92, 34] @ ascii ''hi'' @ [92, 34, 34])))
       = Some (ascii ''say '' @ [92, 34] @ ascii ''hi'' @ [92, 34])"

definition read_u64_parses_number :: bool where
  "read_u64_parses_number \<longleftrightarrow> (let (v, s) = read_u64 (scanner_new (ascii ''42,'')) in v = 42 \<and> pos s = 2)"

definition read_u64_returns_zero_on_overflow :: bool where
  "read_u64_returns_zero_on_overflow \<longleftrightarrow> fst (read_u64 (scanner_new (ascii ''99999999999999999999''))) = 0"

definition seek_advances_past_needle :: bool where
  "seek_advances_past_needle \<longleftrightarrow>
     (case seek reference_crates (scanner_new (ascii ''{\"key\":\"value\"}'')) (ascii ''\"key\":'') of
        Inr (Some _, s) \<Rightarrow> fst (read_string s) = Some (ascii ''value'')
      | _ \<Rightarrow> False)"

definition extract_string_finds_value :: bool where
  "extract_string_finds_value \<longleftrightarrow>
     (let find = extract_string reference_crates (ascii ''{\"event\":\"data\",\"message\":\"hello world\"}'') in
      find (ascii ''\"message\":'') = Inr (Some (ascii ''hello world''))
      \<and> find (ascii ''\"event\":'') = Inr (Some (ascii ''data''))
      \<and> find (ascii ''\"missing\":'') = Inr None)"

text \<open>The three tests that compare the fused reader with \<open>FixedPoint::parse\<close>, and the one of zero.\<close>

definition read_quoted_decimal_as_parse :: "string \<Rightarrow> bool" where
  "read_quoted_decimal_as_parse t \<longleftrightarrow>
     fst (read_quoted_decimal (scanner_new (ascii ''\"'' @ ascii t @ ascii ''\"''))) = fp_parse (ascii t)
     \<and> fp_parse (ascii t) \<noteq> None"

definition read_quoted_decimal_tests :: bool where
  "read_quoted_decimal_tests \<longleftrightarrow> list_all read_quoted_decimal_as_parse [''123.45600000'', ''0.06824000'', ''42'']
     \<and> map_option raw (fst (read_quoted_decimal (scanner_new (ascii ''\"0.00000000\"'')))) = Some 0"

definition read_raw_levels_filters_zero_amount :: bool where
  "read_raw_levels_filters_zero_amount \<longleftrightarrow>
     (case fst (read_raw_levels reference_crates 20
         (scanner_new (ascii ''[[\"100.0\",\"5.0\"],[\"99.0\",\"0.00000000\"],[\"98.0\",\"3.0\"]]''))) of
        Some levels \<Rightarrow> length levels = 2 \<and> Some (rl_price (levels ! 0)) = fp_parse (ascii ''100.0'')
          \<and> Some (rl_price (levels ! 1)) = fp_parse (ascii ''98.0'')
      | None \<Rightarrow> False)"

definition read_raw_levels_rejects_malformed :: bool where
  "read_raw_levels_rejects_malformed \<longleftrightarrow>
     list_all (\<lambda>input. fst (read_raw_levels reference_crates 20 (scanner_new (ascii input))) = None)
       [''[[\"not_a_number\",\"1.0\"]]'', ''[[\"100.0\",\"xyz\"]]'']"

definition read_raw_levels_empty :: bool where
  "read_raw_levels_empty \<longleftrightarrow> fst (read_raw_levels reference_crates 20 (scanner_new (ascii ''[]''))) = Some []"

text \<open>\<open>pairs.join(",")\<close> over the pairs from \<open>100.0\<close> on.\<close>

fun join_with :: "bytes \<Rightarrow> bytes list \<Rightarrow> bytes" where
  "join_with sep [] = []"
| "join_with sep [t] = t"
| "join_with sep (t # u # ts) = t @ sep @ join_with sep (u # ts)"

definition level_pairs :: "nat \<Rightarrow> bytes" where
  "level_pairs n = join_with (ascii '','')
     (map (\<lambda>i. ascii ''[\"'' @ show_nat (100 + i) @ ascii ''.0\",\"1.0\"]'') [0..<n])"

definition read_raw_levels_caps_at_n :: bool where
  "read_raw_levels_caps_at_n \<longleftrightarrow>
     map_option length (fst (read_raw_levels reference_crates 5
       (scanner_new (ascii ''['' @ level_pairs 30 @ ascii '']'')))) = Some 5"

lemmas scan_eval = scanner_new_def skip_ws.simps is_ws_def expect_byte_def peek_def read_string_loop.simps
  read_string_def read_u64_loop.simps read_u64_def rqd_int_loop.simps rqd_frac_loop.simps rqd_skip_loop.simps
  rqd_fraction_def rqd_finish_def read_quoted_decimal_def read_pair_def read_levels_loop.simps read_raw_levels_def
  read_optional_raw_levels_def str_get_def is_char_boundary_def is_continuation_def seek_def extract_string_def
  reference_crates_def bounded_append_def

lemma read_string_basic_passes: read_string_basic
  unfolding read_string_basic_def by (simp add: decimal_eval scan_eval)

lemma read_string_with_escape_passes: read_string_with_escape
  unfolding read_string_with_escape_def by (simp add: decimal_eval scan_eval)

lemma read_u64_parses_number_passes: read_u64_parses_number
  unfolding read_u64_parses_number_def by (simp add: decimal_eval scan_eval)

lemma read_u64_returns_zero_on_overflow_passes: read_u64_returns_zero_on_overflow
  unfolding read_u64_returns_zero_on_overflow_def by (simp add: decimal_eval scan_eval)

lemma seek_advances_past_needle_passes: seek_advances_past_needle
  unfolding seek_advances_past_needle_def by (simp add: decimal_eval scan_eval)

lemma extract_string_finds_value_passes: extract_string_finds_value
  unfolding extract_string_finds_value_def by (simp add: decimal_eval scan_eval)

lemma read_quoted_decimal_tests_pass: read_quoted_decimal_tests
  unfolding read_quoted_decimal_tests_def read_quoted_decimal_as_parse_def
  by (simp add: decimal_eval scan_eval cong: bind_weak_cong)

lemma read_raw_levels_filters_zero_amount_passes: read_raw_levels_filters_zero_amount
  unfolding read_raw_levels_filters_zero_amount_def by (simp add: decimal_eval scan_eval cong: bind_weak_cong)

lemma read_raw_levels_rejects_malformed_passes: read_raw_levels_rejects_malformed
  unfolding read_raw_levels_rejects_malformed_def by (simp add: decimal_eval scan_eval)

lemma read_raw_levels_empty_passes: read_raw_levels_empty
  unfolding read_raw_levels_empty_def by (simp add: decimal_eval scan_eval)

text \<open>The generated arrays are the wire format of \<open>Scanner\<close>, with levels of one unit each.\<close>

definition lvl :: "u64 \<Rightarrow> u64 \<Rightarrow> raw_level" where
  "lvl p a = \<lparr>rl_price = FixedPoint p, rl_amount = FixedPoint a\<rparr>"

lemma lvl_simps [simp]: "rl_price (lvl p a) = FixedPoint p" "rl_amount (lvl p a) = FixedPoint a"
  by (simp_all add: lvl_def)

definition generated :: "nat \<Rightarrow> bytes \<times> bytes" where
  "generated i = (show_nat (100 + i) @ ascii ''.0'', ascii ''1.0'')"

definition hundreds :: "nat \<Rightarrow> raw_level list" where
  "hundreds n = map (\<lambda>i. lvl (of_nat ((100 + i) * 10 ^ 8)) 100000000) [0..<n]"

lemma join_pairs: "join_with (ascii '','') (map enc_level ps) = enc_pairs ps"
  by (induction ps rule: enc_pairs.induct) (simp_all add: ascii_def)

lemma level_pairs_eq: "level_pairs n = enc_pairs (map generated [0..<n])"
proof -
  have "enc_level (generated i) = ascii ''[\"'' @ show_nat (100 + i) @ ascii ''.0\",\"1.0\"]''" for i
    by (simp add: generated_def enc_level_def ascii_def)
  then show ?thesis by (simp add: level_pairs_def join_pairs [symmetric] comp_def)
qed

lemma parse_whole:
  assumes "m * 10 ^ 8 < 2 ^ 64"
  shows "fp_parse (show_nat m @ ascii ''.0'') = Some (FixedPoint (of_nat (m * 10 ^ 8)))"
proof -
  have "decimal_raw (show_nat m @ b_dot # [b_zero]) = Some (m * 10 ^ 8)"
    using decimal_raw_dot [of "show_nat m" "[b_zero]"] digit_of_small [of 0] by (simp add: digit_simps digits_no_dot)
  with assms show ?thesis by (simp add: fp_parse_eq fp_of_nat_def fit_def ascii_def)
qed

lemma generated_level:
  assumes "i < 50"
  shows "wire_level (generated i) (lvl (of_nat ((100 + i) * 10 ^ 8)) 100000000)"
proof -
  have "(100 + i) * 10 ^ 8 < 2 ^ 64" using assms by simp
  from parse_whole [OF this] have "fp_parse (fst (generated i)) = Some (FixedPoint (of_nat ((100 + i) * 10 ^ 8)))"
    by (simp only: generated_def fst_conv)
  moreover have "b_quote \<notin> set (fst (generated i))"
    using show_nat_digits [of "100 + i"] by (auto simp: generated_def ascii_def list_all_iff dest: digit_neq)
  moreover have "fp_parse (ascii ''1.0'') = Some (FixedPoint 100000000)" "b_quote \<notin> set (ascii ''1.0'')"
    by (simp_all add: parse_eval del: digit_test)
  ultimately show ?thesis by (simp add: wire_level_def generated_def)
qed

lemma generated_levels:
  "n \<le> 50 \<Longrightarrow> list_all2 wire_level (map generated [0..<n]) (hundreds n)"
  unfolding hundreds_def using generated_level by (simp add: list_all2_conv_all_nth)

lemma hundreds_kept: "filter nonzero (hundreds n) = hundreds n"
  by (auto simp: hundreds_def nonzero_def filter_id_conv)

lemma generated_length:
  "length (enc_array (map generated [0..<30])) < 1000" "length (enc_array (map generated [0..<50])) < 1000"
  by (simp_all add: upt_rec enc_array_def generated_def enc_level_def show_nat.simps ascii_def)

lemma read_raw_levels_caps_at_n_passes: read_raw_levels_caps_at_n
proof -
  let ?json = "ascii ''['' @ level_pairs 30 @ ascii '']''"
  have json: "?json = enc_array (map generated [0..<30])" by (simp add: enc_array_def level_pairs_eq ascii_def)
  have "length (buf (scanner_new ?json)) < 2 ^ 32"
    using generated_length(1) by (simp add: scanner_new_def json)
  from reference.read_raw_levels_at [OF this _ generated_levels [of 30], of "[]" 5]
  have "fst (read_raw_levels reference_crates 5 (scanner_new ?json)) = Some (take 5 (hundreds 30))"
    by (auto simp: json rest_def scanner_new_def hundreds_kept)
  then show ?thesis by (simp add: read_raw_levels_caps_at_n_def) (simp add: hundreds_def)
qed

section \<open>\<open>exchange/binance.rs\<close>\<close>

definition BINANCE_JSON_3L :: bytes where
  "BINANCE_JSON_3L = ascii ''{\"lastUpdateId\":123456789,\"bids\":[[\"0.06824000\",\"12.50000000\"],[\"0.06823000\",\"8.30000000\"],[\"0.06822000\",\"5.00000000\"]],\"asks\":[[\"0.06825000\",\"10.00000000\"],[\"0.06826000\",\"7.20000000\"],[\"0.06827000\",\"3.50000000\"]]}''"

text \<open>\<open>assert_eq!(x, FixedPoint::parse(t).unwrap())\<close>\<close>

definition parses_to :: "string \<Rightarrow> fixed_point \<Rightarrow> bool" where
  "parses_to t x \<longleftrightarrow> fp_parse (ascii t) = Some x"

definition parse_binance_snapshot :: bool where
  "parse_binance_snapshot \<longleftrightarrow>
     (case binance_parse reference_crates 0 BINANCE_JSON_3L of
        Inr (Some book) \<Rightarrow> ob_exchange_id book = BINANCE_ID
          \<and> length (ob_bids book) = 3 \<and> length (ob_asks book) = 3
          \<and> parses_to ''0.06824000'' (rl_price (ob_bids book ! 0))
          \<and> parses_to ''12.50000000'' (rl_amount (ob_bids book ! 0))
          \<and> parses_to ''0.06822000'' (rl_price (ob_bids book ! 2))
          \<and> parses_to ''0.06825000'' (rl_price (ob_asks book ! 0))
          \<and> parses_to ''10.00000000'' (rl_amount (ob_asks book ! 0))
          \<and> parses_to ''0.06827000'' (rl_price (ob_asks book ! 2))
      | _ \<Rightarrow> False)"

definition parse_binance_ignores_unknown_fields :: bool where
  "parse_binance_ignores_unknown_fields \<longleftrightarrow>
     (case binance_parse reference_crates 0
         (ascii ''{\"lastUpdateId\":999,\"E\":1234567890,\"bids\":[[\"1.0\",\"2.0\"]],\"asks\":[[\"3.0\",\"4.0\"]]}'') of
        Inr (Some book) \<Rightarrow> length (ob_bids book) = 1 \<and> length (ob_asks book) = 1
      | _ \<Rightarrow> False)"

definition walk_happy_path :: bool where
  "walk_happy_path \<longleftrightarrow>
     (case binance_walk reference_crates (ascii ''{\"lastUpdateId\":123,\"bids\":[[\"0.06824\",\"12.5\"],[\"0.06823\",\"8.3\"],[\"0.06822\",\"5.0\"]],\"asks\":[[\"0.06825\",\"10.0\"],[\"0.06826\",\"7.2\"],[\"0.06827\",\"3.5\"]]}'') of
        Inr (Some (seq, bids, asks)) \<Rightarrow> seq = 123 \<and> length bids = 3 \<and> length asks = 3
          \<and> parses_to ''0.06824'' (rl_price (bids ! 0)) \<and> parses_to ''12.5'' (rl_amount (bids ! 0))
          \<and> parses_to ''0.06822'' (rl_price (bids ! 2))
          \<and> parses_to ''0.06825'' (rl_price (asks ! 0)) \<and> parses_to ''0.06827'' (rl_price (asks ! 2))
      | _ \<Rightarrow> False)"

definition walk_unknown_fields :: bool where
  "walk_unknown_fields \<longleftrightarrow>
     (case binance_walk reference_crates (ascii ''{\"lastUpdateId\":999,\"E\":1234567890,\"bids\":[[\"1.0\",\"2.0\"]],\"extra\":\"value\",\"asks\":[[\"3.0\",\"4.0\"]],\"trailing\":true}'') of
        Inr (Some (seq, bids, asks)) \<Rightarrow> seq = 999 \<and> length bids = 1 \<and> length asks = 1
          \<and> parses_to ''1.0'' (rl_price (bids ! 0)) \<and> parses_to ''3.0'' (rl_price (asks ! 0))
      | _ \<Rightarrow> False)"

definition walk_empty_levels :: bool where
  "walk_empty_levels \<longleftrightarrow>
     binance_walk reference_crates (ascii ''{\"bids\":[],\"asks\":[]}'') = Inr (Some (0, [], []))"

definition binance_walk_malformed_returns_none :: bool where
  "binance_walk_malformed_returns_none \<longleftrightarrow> list_all (\<lambda>input. binance_walk reference_crates (ascii input) = Inr None)
     ['''', ''{'', ''{\"bids\": not_an_array}'', ''null'', ''{\"bids\":[]}'']"

lemmas walk_eval = decimal_eval scan_eval binance_walk_def seek_levels_def pat_last_update_id_def pat_bids_def
  pat_asks_def DEPTH_def

text \<open>The frames of the wire format are read by what \<open>Binance\<close> shows of it, the others step by step.\<close>

lemmas frame_text = enc_array_def enc_level_def pat_last_update_id_def pat_bids_def pat_asks_def
  pat_microtimestamp_def show_nat.simps ascii_def

lemma snapshot_levels:
  "list_all2 wire_level [(ascii ''0.06824000'', ascii ''12.50000000''), (ascii ''0.06823000'', ascii ''8.30000000''),
     (ascii ''0.06822000'', ascii ''5.00000000'')] [lvl 6824000 1250000000, lvl 6823000 830000000, lvl 6822000 500000000]"
  "list_all2 wire_level [(ascii ''0.06825000'', ascii ''10.00000000''), (ascii ''0.06826000'', ascii ''7.20000000''),
     (ascii ''0.06827000'', ascii ''3.50000000'')] [lvl 6825000 1000000000, lvl 6826000 720000000, lvl 6827000 350000000]"
  "list_all2 wire_level [(ascii ''0.06824'', ascii ''12.5''), (ascii ''0.06823'', ascii ''8.3''), (ascii ''0.06822'', ascii ''5.0'')]
     [lvl 6824000 1250000000, lvl 6823000 830000000, lvl 6822000 500000000]"
  "list_all2 wire_level [(ascii ''0.06825'', ascii ''10.0''), (ascii ''0.06826'', ascii ''7.2''), (ascii ''0.06827'', ascii ''3.5'')]
     [lvl 6825000 1000000000, lvl 6826000 720000000, lvl 6827000 350000000]"
  by (simp_all add: wire_level_def parse_eval del: digit_test)

lemma snapshot_kept:
  "take DEPTH (filter nonzero [lvl 6824000 1250000000, lvl 6823000 830000000, lvl 6822000 500000000])
     = [lvl 6824000 1250000000, lvl 6823000 830000000, lvl 6822000 500000000]"
  "take DEPTH (filter nonzero [lvl 6825000 1000000000, lvl 6826000 720000000, lvl 6827000 350000000])
     = [lvl 6825000 1000000000, lvl 6826000 720000000, lvl 6827000 350000000]"
  by (simp_all add: nonzero_def DEPTH_def)

lemma binance_frame_read:
  assumes "json = binance_frame n bs as t" and "n < 2 ^ 64" and "length json < 2 ^ 32"
    and "list_all2 wire_level bs bids" and "list_all2 wire_level as asks"
  shows "binance_walk reference_crates json
    = Inr (Some (of_nat n, take DEPTH (filter nonzero bids), take DEPTH (filter nonzero asks)))"
  using external_crates.binance_walk_frame [OF reference.external_crates_axioms assms(2,4,5)] assms(1,3) by simp

lemma parse_binance_snapshot_passes: parse_binance_snapshot
proof -
  have "binance_walk reference_crates BINANCE_JSON_3L = Inr (Some (of_nat 123456789,
      take DEPTH (filter nonzero [lvl 6824000 1250000000, lvl 6823000 830000000, lvl 6822000 500000000]),
      take DEPTH (filter nonzero [lvl 6825000 1000000000, lvl 6826000 720000000, lvl 6827000 350000000])))"
    by (rule binance_frame_read [OF _ _ _ snapshot_levels(1,2), of _ _ "ascii ''}''"])
      (simp_all add: BINANCE_JSON_3L_def binance_frame_def frame_text)
  then show ?thesis
    unfolding parse_binance_snapshot_def snapshot_kept
    by (simp add: binance_parse_def parses_to_def parse_eval del: digit_test)
qed

lemma walk_happy_path_passes: walk_happy_path
proof -
  have "binance_walk reference_crates (ascii ''{\"lastUpdateId\":123,\"bids\":[[\"0.06824\",\"12.5\"],[\"0.06823\",\"8.3\"],[\"0.06822\",\"5.0\"]],\"asks\":[[\"0.06825\",\"10.0\"],[\"0.06826\",\"7.2\"],[\"0.06827\",\"3.5\"]]}'')
    = Inr (Some (of_nat 123,
      take DEPTH (filter nonzero [lvl 6824000 1250000000, lvl 6823000 830000000, lvl 6822000 500000000]),
      take DEPTH (filter nonzero [lvl 6825000 1000000000, lvl 6826000 720000000, lvl 6827000 350000000])))"
    by (rule binance_frame_read [OF _ _ _ snapshot_levels(3,4), of _ _ "ascii ''}''"])
      (simp_all add: binance_frame_def frame_text)
  then show ?thesis
    unfolding walk_happy_path_def snapshot_kept by (simp add: parses_to_def parse_eval del: digit_test)
qed

lemma parse_binance_ignores_unknown_fields_passes: parse_binance_ignores_unknown_fields
  unfolding parse_binance_ignores_unknown_fields_def by (simp add: binance_parse_def walk_eval)

lemma walk_unknown_fields_passes: walk_unknown_fields
  unfolding walk_unknown_fields_def parses_to_def by (simp add: walk_eval cong: bind_weak_cong)

lemma walk_empty_levels_passes: walk_empty_levels
  unfolding walk_empty_levels_def by (simp add: walk_eval)

lemma binance_walk_malformed_passes: binance_walk_malformed_returns_none
  unfolding binance_walk_malformed_returns_none_def by (simp add: walk_eval)

section \<open>\<open>exchange/bitstamp.rs\<close>\<close>

definition BITSTAMP_JSON_3L :: bytes where
  "BITSTAMP_JSON_3L = ascii ''{\"data\":{\"timestamp\":\"1700000000\",\"microtimestamp\":\"1700000000000000\",\"bids\":[[\"0.06824000\",\"12.50000000\"],[\"0.06823000\",\"8.30000000\"],[\"0.06822000\",\"5.00000000\"]],\"asks\":[[\"0.06825000\",\"10.00000000\"],[\"0.06826000\",\"7.20000000\"],[\"0.06827000\",\"3.50000000\"]]},\"channel\":\"order_book_ethbtc\",\"event\":\"data\"}''"

definition parse_bitstamp_data_message :: bool where
  "parse_bitstamp_data_message \<longleftrightarrow>
     (case bitstamp_parse reference_crates 0 BITSTAMP_JSON_3L of
        Inr (Some book) \<Rightarrow> ob_exchange_id book = BITSTAMP_ID
          \<and> length (ob_bids book) = 3 \<and> length (ob_asks book) = 3
          \<and> parses_to ''0.06824000'' (rl_price (ob_bids book ! 0))
          \<and> parses_to ''12.50000000'' (rl_amount (ob_bids book ! 0))
          \<and> parses_to ''0.06825000'' (rl_price (ob_asks book ! 0))
      | _ \<Rightarrow> False)"

text \<open>The confirmation of two tests, with its line breaks and indentation.\<close>

definition confirmation :: bytes where
  "confirmation = ascii ''{'' @ [10] @ ascii ''            \"event\": \"bts:subscription_succeeded\",'' @ [10]
     @ ascii ''            \"channel\": \"order_book_ethbtc\",'' @ [10] @ ascii ''            \"data\": {}'' @ [10] @ ascii ''        }''"

definition parse_bitstamp_non_data_event :: bool where
  "parse_bitstamp_non_data_event \<longleftrightarrow> bitstamp_parse reference_crates 0 confirmation = Inr None"

text \<open>The frame of 50 levels of two tests.\<close>

definition fifty_levels :: bytes where
  "fifty_levels = ascii ''{\"event\":\"data\",\"data\":{\"bids\":['' @ level_pairs 50 @ ascii ''],\"asks\":[]}}''"

definition level_capping_at_max :: bool where
  "level_capping_at_max \<longleftrightarrow>
     (case bitstamp_parse reference_crates 0 fifty_levels of
        Inr (Some book) \<Rightarrow> length (ob_bids book) = DEPTH \<and> ob_asks book = []
          \<and> parses_to ''100.0'' (rl_price (ob_bids book ! 0))
          \<and> fp_parse (show_nat (100 + DEPTH - 1) @ ascii ''.0'') = Some (rl_price (ob_bids book ! (DEPTH - 1)))
      | _ \<Rightarrow> False)"

definition walk_data_event :: bool where
  "walk_data_event \<longleftrightarrow>
     (case bitstamp_walk reference_crates (ascii ''{\"event\":\"data\",\"channel\":\"order_book_ethbtc\",\"data\":{\"timestamp\":\"1700000000\",\"microtimestamp\":\"1700000000000000\",\"bids\":[[\"0.06824\",\"12.5\"],[\"0.06823\",\"8.3\"],[\"0.06822\",\"5.0\"]],\"asks\":[[\"0.06825\",\"10.0\"],[\"0.06826\",\"7.2\"],[\"0.06827\",\"3.5\"]]}}'') of
        Inr (Some (event, micro, bids, asks)) \<Rightarrow> event = ascii ''data'' \<and> micro = 1700000000000000
          \<and> length bids = 3 \<and> length asks = 3
          \<and> parses_to ''0.06824'' (rl_price (bids ! 0)) \<and> parses_to ''12.5'' (rl_amount (bids ! 0))
          \<and> parses_to ''0.06825'' (rl_price (asks ! 0))
      | _ \<Rightarrow> False)"

definition walk_non_data_event :: bool where
  "walk_non_data_event \<longleftrightarrow>
     bitstamp_walk reference_crates confirmation = Inr (Some (ascii ''bts:subscription_succeeded'', 0, [], []))"

definition walk_level_capping :: bool where
  "walk_level_capping \<longleftrightarrow>
     (case bitstamp_walk reference_crates fifty_levels of
        Inr (Some (event, micro, bids, asks)) \<Rightarrow> event = ascii ''data'' \<and> length bids = DEPTH \<and> asks = []
          \<and> parses_to ''100.0'' (rl_price (bids ! 0))
          \<and> fp_parse (show_nat (100 + DEPTH - 1) @ ascii ''.0'') = Some (rl_price (bids ! (DEPTH - 1)))
      | _ \<Rightarrow> False)"

definition walk_extra_fields :: bool where
  "walk_extra_fields \<longleftrightarrow>
     (case bitstamp_walk reference_crates (ascii ''{\"event\":\"data\",\"channel\":\"order_book_ethbtc\",\"data\":{\"timestamp\":\"1700000000\",\"microtimestamp\":\"1700000000000000\",\"bids\":[[\"3.0\",\"4.0\"]],\"asks\":[[\"5.0\",\"6.0\"]]}}'') of
        Inr (Some (event, micro, bids, asks)) \<Rightarrow> event = ascii ''data''
          \<and> parses_to ''3.0'' (rl_price (bids ! 0)) \<and> parses_to ''5.0'' (rl_price (asks ! 0))
      | _ \<Rightarrow> False)"

definition walk_real_field_order :: bool where
  "walk_real_field_order \<longleftrightarrow>
     (case bitstamp_walk reference_crates (ascii ''{\"data\":{\"timestamp\":\"1772110554\",\"microtimestamp\":\"1772110554110141\",\"bids\":[[\"0.03035870\",\"1.35795438\"],[\"0.03035566\",\"0.08250000\"]],\"asks\":[[\"0.03036200\",\"10.00000000\"],[\"0.03036500\",\"5.00000000\"]]},\"channel\":\"order_book_ethbtc\",\"event\":\"data\"}'') of
        Inr (Some (event, micro, bids, asks)) \<Rightarrow> event = ascii ''data'' \<and> micro = 1772110554110141
          \<and> length bids = 2 \<and> length asks = 2
          \<and> parses_to ''0.03035870'' (rl_price (bids ! 0)) \<and> parses_to ''0.03036200'' (rl_price (asks ! 0))
      | _ \<Rightarrow> False)"

definition bitstamp_walk_malformed_returns_none :: bool where
  "bitstamp_walk_malformed_returns_none \<longleftrightarrow> list_all (\<lambda>input. bitstamp_walk reference_crates (ascii input) = Inr None)
     ['''', ''{'', ''{\"event\": 123}'', ''null'']"

text \<open>A frame of the wire format; all its bytes are ASCII.\<close>

lemma bitstamp_frame_read:
  assumes "json = bitstamp_frame pre n bs as t" and "no_pair b_quote 109 pre" and "n < 2 ^ 64"
    and "length json < 2 ^ 32" and "list_all (\<lambda>b. b < 128) json"
    and "list_all2 wire_level bs bids" and "list_all2 wire_level as asks"
  shows "bitstamp_walk reference_crates json
    = Inr (Some (ascii ''data'', of_nat n, take DEPTH (filter nonzero bids), take DEPTH (filter nonzero asks)))"
  using external_crates.bitstamp_walk_frame [OF reference.external_crates_axioms assms(2,3,6,7)]
    valid_utf8_ascii [OF assms(5)] assms(1,4) by simp

lemma parse_bitstamp_data_message_passes: parse_bitstamp_data_message
proof -
  have "bitstamp_walk reference_crates BITSTAMP_JSON_3L = Inr (Some (ascii ''data'', of_nat 1700000000000000,
      take DEPTH (filter nonzero [lvl 6824000 1250000000, lvl 6823000 830000000, lvl 6822000 500000000]),
      take DEPTH (filter nonzero [lvl 6825000 1000000000, lvl 6826000 720000000, lvl 6827000 350000000])))"
    by (rule bitstamp_frame_read [OF _ _ _ _ _ snapshot_levels(1,2), of _ "ascii ''{\"data\":{\"timestamp\":\"1700000000\",''"
          _ "ascii ''},\"channel\":\"order_book_ethbtc\",\"event\":\"data\"}''"])
      (simp_all add: BITSTAMP_JSON_3L_def bitstamp_frame_def frame_text word_less_nat_alt)
  then show ?thesis
    unfolding parse_bitstamp_data_message_def snapshot_kept
    by (simp add: bitstamp_parse_def parses_to_def parse_eval del: digit_test)
qed

lemma walk_data_event_passes: walk_data_event
proof -
  have "bitstamp_walk reference_crates (ascii ''{\"event\":\"data\",\"channel\":\"order_book_ethbtc\",\"data\":{\"timestamp\":\"1700000000\",\"microtimestamp\":\"1700000000000000\",\"bids\":[[\"0.06824\",\"12.5\"],[\"0.06823\",\"8.3\"],[\"0.06822\",\"5.0\"]],\"asks\":[[\"0.06825\",\"10.0\"],[\"0.06826\",\"7.2\"],[\"0.06827\",\"3.5\"]]}}'')
    = Inr (Some (ascii ''data'', of_nat 1700000000000000,
      take DEPTH (filter nonzero [lvl 6824000 1250000000, lvl 6823000 830000000, lvl 6822000 500000000]),
      take DEPTH (filter nonzero [lvl 6825000 1000000000, lvl 6826000 720000000, lvl 6827000 350000000])))"
    by (rule bitstamp_frame_read [OF _ _ _ _ _ snapshot_levels(3,4), of _
          "ascii ''{\"event\":\"data\",\"channel\":\"order_book_ethbtc\",\"data\":{\"timestamp\":\"1700000000\",''" _ "ascii ''}}''"])
      (simp_all add: bitstamp_frame_def frame_text word_less_nat_alt)
  then show ?thesis
    unfolding walk_data_event_def snapshot_kept by (simp add: parses_to_def parse_eval del: digit_test)
qed

lemma more_levels:
  "list_all2 wire_level [(ascii ''3.0'', ascii ''4.0'')] [lvl 300000000 400000000]"
  "list_all2 wire_level [(ascii ''5.0'', ascii ''6.0'')] [lvl 500000000 600000000]"
  "list_all2 wire_level [(ascii ''0.03035870'', ascii ''1.35795438''), (ascii ''0.03035566'', ascii ''0.08250000'')]
     [lvl 3035870 135795438, lvl 3035566 8250000]"
  "list_all2 wire_level [(ascii ''0.03036200'', ascii ''10.00000000''), (ascii ''0.03036500'', ascii ''5.00000000'')]
     [lvl 3036200 1000000000, lvl 3036500 500000000]"
  by (simp_all add: wire_level_def parse_eval del: digit_test)

lemma walk_extra_fields_passes: walk_extra_fields
proof -
  have "bitstamp_walk reference_crates (ascii ''{\"event\":\"data\",\"channel\":\"order_book_ethbtc\",\"data\":{\"timestamp\":\"1700000000\",\"microtimestamp\":\"1700000000000000\",\"bids\":[[\"3.0\",\"4.0\"]],\"asks\":[[\"5.0\",\"6.0\"]]}}'')
    = Inr (Some (ascii ''data'', of_nat 1700000000000000, take DEPTH (filter nonzero [lvl 300000000 400000000]),
        take DEPTH (filter nonzero [lvl 500000000 600000000])))"
    by (rule bitstamp_frame_read [OF _ _ _ _ _ more_levels(1,2), of _
          "ascii ''{\"event\":\"data\",\"channel\":\"order_book_ethbtc\",\"data\":{\"timestamp\":\"1700000000\",''" _ "ascii ''}}''"])
      (simp_all add: bitstamp_frame_def frame_text word_less_nat_alt)
  then show ?thesis
    by (simp add: walk_extra_fields_def parses_to_def nonzero_def DEPTH_def parse_eval del: digit_test)
qed

lemma walk_real_field_order_passes: walk_real_field_order
proof -
  have "bitstamp_walk reference_crates (ascii ''{\"data\":{\"timestamp\":\"1772110554\",\"microtimestamp\":\"1772110554110141\",\"bids\":[[\"0.03035870\",\"1.35795438\"],[\"0.03035566\",\"0.08250000\"]],\"asks\":[[\"0.03036200\",\"10.00000000\"],[\"0.03036500\",\"5.00000000\"]]},\"channel\":\"order_book_ethbtc\",\"event\":\"data\"}'')
    = Inr (Some (ascii ''data'', of_nat 1772110554110141,
        take DEPTH (filter nonzero [lvl 3035870 135795438, lvl 3035566 8250000]),
        take DEPTH (filter nonzero [lvl 3036200 1000000000, lvl 3036500 500000000])))"
    by (rule bitstamp_frame_read [OF _ _ _ _ _ more_levels(3,4), of _
          "ascii ''{\"data\":{\"timestamp\":\"1772110554\",''" _ "ascii ''},\"channel\":\"order_book_ethbtc\",\"event\":\"data\"}''"])
      (simp_all add: bitstamp_frame_def frame_text word_less_nat_alt)
  then show ?thesis
    by (simp add: walk_real_field_order_def parses_to_def nonzero_def DEPTH_def parse_eval del: digit_test)
qed

text \<open>Without a timestamp, bids and asks are empty and the event is read from the start.\<close>

lemma seek_missing: "109 \<notin> set json \<Longrightarrow> seek reference_crates (scanner_new json) pat_microtimestamp = Inr (None, scanner_new json)"
  using reference.search.find_absent [of 109 pat_microtimestamp json]
  by (simp add: seek_def scanner_new_def pat_microtimestamp_def ascii_def)

lemma read_event:
  assumes "json = pre @ pat_event @ ws @ b_quote # name @ b_quote # t" and "no_pair b_quote 101 pre"
    and "list_all is_ws ws" and "list_all (\<lambda>b. b < 128) json" and "list_all (\<lambda>b. b \<noteq> b_quote \<and> b \<noteq> b_backslash) name"
  shows "\<exists>s. seek reference_crates (scanner_new json) pat_event = Inr (Some (), s) \<and> fst (read_string s) = Some name"
proof -
  let ?s = "advance (length pre + 8) (scanner_new json)"
  have r: "rest (scanner_new json) = pre @ b_quote # 101 # ascii ''vent\":'' @ ws @ b_quote # name @ b_quote # t"
    using assms(1) by (simp add: scanner_new_def rest_def pat_event_def ascii_def)
  have "seek reference_crates (scanner_new json) pat_event = Inr (Some (), ?s)"
    using reference.seek_at [OF r _ assms(2)] by (simp add: pat_event_def ascii_def)
  moreover have "rest ?s = ws @ b_quote # name @ b_quote # t" using r by (simp add: ascii_def)
  moreover have "valid_utf8 (buf ?s)" using valid_utf8_ascii [OF assms(4)] by (simp add: scanner_new_def)
  ultimately show ?thesis
    using read_string_fst(1) [of ?s ws "name @ b_quote # t"] raw_string_plain [OF assms(5)] assms(3) by auto
qed

lemma wire_byte_ascii:
  assumes "wire_byte b"
  shows "b < 128"
proof (cases "is_digit b")
  case True
  then have "unat (b - b_zero) \<le> 9" by (simp add: is_digit_def word_le_nat_alt not_less del: digit_test)
  moreover from this have "unat ((b - b_zero) + b_zero) = unat (b - b_zero) + unat b_zero"
    by (subst unat_add_lem [THEN iffD1]) simp_all
  ultimately show ?thesis by (simp add: word_less_nat_alt)
next
  case False
  with assms show ?thesis by (auto simp: wire_byte_def)
qed

lemma walk_fifty: "bitstamp_walk reference_crates fifty_levels = Inr (Some (ascii ''data'', 0, take DEPTH (hundreds 50), []))"
proof -
  let ?ps = "map generated [0..<50]" and ?s = "scanner_new fifty_levels"
  let ?asks = "ascii '','' @ pat_asks @ enc_array [] @ ascii ''}}''"
  have json: "fifty_levels = ascii ''{\"event\":\"data\",\"data\":{'' @ pat_bids @ enc_array ?ps @ ?asks"
    by (simp add: fifty_levels_def level_pairs_eq enc_array_def pat_bids_def pat_asks_def ascii_def)
  have wire: "list_all wire_byte (enc_array ?ps)"
    using enc_array_bytes [OF generated_levels [of 50]] by simp
  have no_m: "109 \<notin> set fifty_levels"
    using wire by (auto simp: json ascii_def pat_bids_def pat_asks_def enc_array_def list_all_iff wire_byte_def is_digit_def simp del: digit_test)
  have small: "list_all (\<lambda>b. b < 128) fifty_levels"
    using wire by (auto simp: json ascii_def pat_bids_def pat_asks_def enc_array_def list_all_iff wire_byte_ascii)
  have len: "length (buf ?s) < 2 ^ 32"
    using generated_length(2) by (simp add: scanner_new_def json ascii_def pat_bids_def pat_asks_def enc_array_def)
  have r: "rest ?s = ascii ''{\"event\":\"data\",\"data\":{'' @ (b_quote # 98 # ascii ''ids\":'') @ enc_array ?ps @ ?asks"
    by (simp add: scanner_new_def rest_def json pat_bids_def ascii_def)
  obtain s1 j where 1: "seek_levels reference_crates ?s pat_bids = Inr (Some (take DEPTH (filter nonzero (hundreds 50))), s1)"
    "buf s1 = buf ?s" "rest s1 = j @ ?asks" "list_all wire_byte j"
    using reference.seek_levels_at [OF r _ _ generated_levels [of 50] len] by (auto simp: pat_bids_def ascii_def)
  have r1: "rest s1 = (j @ ascii '','') @ (b_quote # 97 # ascii ''sks\":'') @ enc_array [] @ ascii ''}}''"
    using 1(3) by (simp add: pat_asks_def ascii_def)
  have "no_pair b_quote 97 (j @ ascii '','')"
    using 1(4) by (intro no_pair_absent)
      (auto simp: list_all_iff wire_byte_def ascii_def is_digit_def simp del: digit_test)
  from reference.seek_levels_at [OF r1 _ this list.rel_intros(1)] 1(2) len
  obtain s2 where 2: "seek_levels reference_crates s1 pat_asks = Inr (Some [], s2)" "buf s2 = buf ?s"
    by (auto simp: pat_asks_def ascii_def)
  have at0: "s2\<lparr>pos := 0\<rparr> = ?s" "?s\<lparr>pos := 0\<rparr> = ?s" using 2(2) by (simp_all add: scanner_new_def)
  have ev: "fifty_levels = ascii ''{'' @ pat_event @ [] @ b_quote # ascii ''data'' @ b_quote
      # ascii '',\"data\":{'' @ pat_bids @ enc_array ?ps @ ?asks"
    by (simp add: json pat_event_def ascii_def)
  obtain s3 where 3: "seek reference_crates ?s pat_event = Inr (Some (), s3)" "fst (read_string s3) = Some (ascii ''data'')"
    using read_event [OF ev _ _ small] by (auto simp: ascii_def)
  show ?thesis
    by (simp add: bitstamp_walk_def seek_missing [OF no_m] read_optional_found [OF 1(1)] read_optional_found [OF 2(1)]
        at0 3 hundreds_kept)
qed

lemma fifty_prices:
  "length (hundreds 50) = 50" "hundreds 50 ! 0 = lvl 10000000000 100000000" "hundreds 50 ! 9 = lvl 10900000000 100000000"
  "fp_parse (ascii ''100.0'') = Some (FixedPoint 10000000000)"
  "fp_parse (show_nat 109 @ ascii ''.0'') = Some (FixedPoint 10900000000)"
  using parse_whole [of 109] by (simp_all add: hundreds_def, simp_all add: parse_eval del: digit_test)

lemma capping_tests_pass: walk_level_capping level_capping_at_max
  by (simp_all add: walk_level_capping_def level_capping_at_max_def bitstamp_parse_def walk_fifty DEPTH_def parses_to_def
      fifty_prices)

lemmas bitstamp_eval = decimal_eval scan_eval bitstamp_walk_def pat_microtimestamp_def pat_event_def pat_bids_def pat_asks_def

lemma bitstamp_walk_malformed_passes: bitstamp_walk_malformed_returns_none
  unfolding bitstamp_walk_malformed_returns_none_def by (simp add: bitstamp_eval)

lemma walk_confirmation:
  "bitstamp_walk reference_crates confirmation = Inr (Some (ascii ''bts:subscription_succeeded'', 0, [], []))"
  unfolding confirmation_def by (simp add: bitstamp_eval)

lemma non_data_event_tests_pass: walk_non_data_event parse_bitstamp_non_data_event
  by (simp_all add: walk_non_data_event_def parse_bitstamp_non_data_event_def bitstamp_parse_def walk_confirmation ascii_def)

section \<open>\<open>config.rs\<close>\<close>

definition validate_symbol_normalizes_to_lowercase :: bool where
  "validate_symbol_normalizes_to_lowercase \<longleftrightarrow>
     list_all (\<lambda>(input, expected). validate_symbol (ascii input) = Inr (ascii expected))
       [(''ETHBTC'', ''ethbtc''), (''EthBtc'', ''ethbtc''), (''abc123'', ''abc123'')]"

definition validate_symbol_rejects_invalid :: bool where
  "validate_symbol_rejects_invalid \<longleftrightarrow> list_all (\<lambda>input. isl (validate_symbol (ascii input)))
     ['''', ''eth-btc'', ''eth/btc'', ''eth btc'', ''eth.btc'']"

lemma config_tests_pass: validate_symbol_normalizes_to_lowercase validate_symbol_rejects_invalid
  by (simp_all add: validate_symbol_normalizes_to_lowercase_def validate_symbol_rejects_invalid_def validate_symbol_def
      is_ascii_alphanumeric_def to_ascii_lowercase_def ascii_def)

end
