(* ===== verification/UnitTestsState.thy ===== *)
theory UnitTestsState
  imports UnitTestsParsing Http Subscribers "HOL-Library.Sublist"
begin

text \<open>
  The repository's own unit tests of the stateful modules (\<open>mod tests\<close> of \<open>merger.rs\<close>, \<open>atomic_slot.rs\<close>,
  \<open>metrics.rs\<close>, \<open>exchange/mod.rs\<close>, \<open>server.rs\<close> and the fixtures of \<open>testutil.rs\<close>), as predicates that hold of
  the model, as in \<open>UnitTestsParsing\<close>.
\<close>

section \<open>Fixtures\<close>

text \<open>\<open>raw\<close> and \<open>book\<close> of \<open>testutil.rs\<close>; the prices of the tests are not negative, so nothing panics.\<close>

definition test_raw :: "f64 \<Rightarrow> f64 \<Rightarrow> raw_level" where
  "test_raw price amount = \<lparr>rl_price = projr (from_f64 price), rl_amount = projr (from_f64 amount)\<rparr>"

definition test_book :: "instant \<Rightarrow> exchange_id \<Rightarrow> raw_level list \<Rightarrow> raw_level list \<Rightarrow> order_book" where
  "test_book now eid bids asks = \<lparr>ob_exchange_id = eid, ob_bids = bids, ob_asks = asks, ob_decode_start = now\<rparr>"

lemma test_raw_flt:
  assumes "k \<le> 8" and "n * 10 ^ (8 - k) < 2 ^ 51" and "k' \<le> 8" and "n' * 10 ^ (8 - k') < 2 ^ 51"
  shows "test_raw (flt n k) (flt n' k') = lvl (of_nat (n * 10 ^ (8 - k))) (of_nat (n' * 10 ^ (8 - k')))"
  by (simp add: test_raw_def from_flt [OF assms(1,2)] from_flt [OF assms(3,4)] lvl_def)

section \<open>\<open>merger.rs\<close>\<close>

definition filled :: "order_book list \<Rightarrow> book_store" where
  "filled = foldl store_insert store_new"

definition merged :: "book_store \<Rightarrow> (summary \<Rightarrow> bool) \<Rightarrow> bool" where
  "merged st asserts = (case merge reference_crates st of Inl p \<Rightarrow> False | Inr summary \<Rightarrow> asserts summary)"

definition merge_two_exchanges :: "instant \<Rightarrow> bool" where
  "merge_two_exchanges now \<longleftrightarrow> merged (filled
     [test_book now 0 [test_raw (flt 1000 1) (flt 50 1), test_raw (flt 990 1) (flt 30 1)]
        [test_raw (flt 1010 1) (flt 40 1), test_raw (flt 1020 1) (flt 20 1)],
      test_book now 1 [test_raw (flt 1005 1) (flt 20 1), test_raw (flt 995 1) (flt 10 1)]
        [test_raw (flt 1008 1) (flt 30 1), test_raw (flt 1015 1) (flt 10 1)]])
     (\<lambda>s. lv_exchange_id (sm_bids s ! 0) = 1 \<and> Inr (lv_price (sm_bids s ! 0)) = from_f64 (flt 1005 1)
        \<and> lv_exchange_id (sm_asks s ! 0) = 1 \<and> Inr (lv_price (sm_asks s ! 0)) = from_f64 (flt 1008 1)
        \<and> sm_spread_raw s = 30000000 \<and> length (sm_bids s) = 4 \<and> length (sm_asks s) = 4)"

lemmas merge_loop_numeral = merge_loop.simps(2) [of _ _ _ _ _ "pred_numeral k" for k, folded numeral_eq_Suc]

lemmas merge_eval = filled_def merged_def test_raw_flt from_flt test_book_def lvl_def store_new_def store_insert_def
  store_iter_def MAX_EXCHANGES_def EXCHANGES_def map_filter_def evict_stale_def evict_slot_def
  merge_def merge_top_n_def DEPTH_def push_or_drop_def reference_crates_def bounded_append_def stamp_def spread_of_def
  cmp_bids_def cmp_asks_def is_lt_def cmp_fp_def ordering_then_def less_fixed_point_def word_less_nat_alt Let_def

lemma merge_two_exchanges_passes: "merge_two_exchanges now"
  unfolding merge_two_exchanges_def by (simp add: merge_eval merge_loop_numeral)

text \<open>The prices \<open>100.0 - i as f64\<close> are computed, the rest is literal.\<close>

definition merge_truncates_to_top_n :: "instant \<Rightarrow> bool" where
  "merge_truncates_to_top_n now \<longleftrightarrow> merged (filled
     [test_book now 0 (map (\<lambda>i. test_raw (round_f64 (flt 1000 1 - of_nat i)) (flt 10 1)) [0..<DEPTH])
        (map (\<lambda>i. test_raw (round_f64 (flt 1010 1 + of_nat i)) (flt 10 1)) [0..<DEPTH]),
      test_book now 1 (map (\<lambda>i. test_raw (round_f64 (flt 995 1 - of_nat i)) (flt 10 1)) [0..<DEPTH])
        (map (\<lambda>i. test_raw (round_f64 (flt 1015 1 + of_nat i)) (flt 10 1)) [0..<DEPTH])])
     (\<lambda>s. length (sm_bids s) = DEPTH \<and> length (sm_asks s) = DEPTH)"

lemma merge_truncates_to_top_n_passes: "merge_truncates_to_top_n now"
proof -
  let ?book = "\<lambda>eid bids asks. test_book now eid (map bids [0..<DEPTH]) (map asks [0..<DEPTH])"
  have "merged (filled [?book 0 b0 a0, ?book 1 b1 a1]) (\<lambda>s. length (sm_bids s) = DEPTH \<and> length (sm_asks s) = DEPTH)"
    for b0 a0 b1 a1
  proof -
    let ?st = "filled [?book 0 b0 a0, ?book 1 b1 a1]"
    have iter: "store_iter ?st = [?book 0 b0 a0, ?book 1 b1 a1]" and len: "length (books ?st) = MAX_EXCHANGES"
      by (simp_all add: filled_def store_insert_def store_new_def store_iter_def map_filter_def test_book_def
          MAX_EXCHANGES_def EXCHANGES_def)
    obtain sm where "merge reference_crates ?st = Inr sm"
      "length (sm_bids sm) = min DEPTH (length (side_levels ob_bids ?st))"
      "length (sm_asks sm) = min DEPTH (length (side_levels ob_asks ?st))"
      by (rule merge_conserves [OF reference.external_crates_axioms len])
    then show ?thesis by (simp add: merged_def side_levels_def iter) (simp add: test_book_def)
  qed
  then show ?thesis by (simp only: merge_truncates_to_top_n_def)
qed

definition merge_empty :: bool where
  "merge_empty \<longleftrightarrow> merged store_new (\<lambda>s. sm_bids s = [] \<and> sm_asks s = [] \<and> sm_spread_raw s = 0)"

definition bid_tiebreak_by_amount :: "instant \<Rightarrow> bool" where
  "bid_tiebreak_by_amount now \<longleftrightarrow> merged (filled
     [test_book now 0 [test_raw (flt 1000 1) (flt 10 1)] [], test_book now 1 [test_raw (flt 1000 1) (flt 50 1)] []])
     (\<lambda>s. Inr (lv_amount (sm_bids s ! 0)) = from_f64 (flt 50 1) \<and> Inr (lv_amount (sm_bids s ! 1)) = from_f64 (flt 10 1))"

definition single_exchange_only :: "instant \<Rightarrow> bool" where
  "single_exchange_only now \<longleftrightarrow> merged (filled
     [test_book now 0 [test_raw (flt 1000 1) (flt 50 1), test_raw (flt 990 1) (flt 30 1)]
        [test_raw (flt 1010 1) (flt 40 1), test_raw (flt 1020 1) (flt 20 1)]])
     (\<lambda>s. length (sm_bids s) = 2 \<and> length (sm_asks s) = 2 \<and> Inr (lv_price (sm_bids s ! 0)) = from_f64 (flt 1000 1)
        \<and> Inr (lv_price (sm_asks s ! 0)) = from_f64 (flt 1010 1) \<and> sm_spread_raw s = 100000000)"

definition crossed_book_negative_spread :: "instant \<Rightarrow> bool" where
  "crossed_book_negative_spread now \<longleftrightarrow> merged (filled
     [test_book now 0 [test_raw (flt 1020 1) (flt 10 1)] [test_raw (flt 1030 1) (flt 10 1)],
      test_book now 1 [test_raw (flt 990 1) (flt 10 1)] [test_raw (flt 1010 1) (flt 10 1)]])
     (\<lambda>s. Inr (lv_price (sm_bids s ! 0)) = from_f64 (flt 1020 1) \<and> Inr (lv_price (sm_asks s ! 0)) = from_f64 (flt 1010 1)
        \<and> sint (sm_spread_raw s) < 0 \<and> sint (sm_spread_raw s) = - 100000000)"

definition ask_tiebreak_by_amount :: "instant \<Rightarrow> bool" where
  "ask_tiebreak_by_amount now \<longleftrightarrow> merged (filled
     [test_book now 0 [] [test_raw (flt 1000 1) (flt 10 1)], test_book now 1 [] [test_raw (flt 1000 1) (flt 50 1)]])
     (\<lambda>s. Inr (lv_amount (sm_asks s ! 0)) = from_f64 (flt 50 1) \<and> Inr (lv_amount (sm_asks s ! 1)) = from_f64 (flt 10 1))"

definition kway_merge_interleaves :: "instant \<Rightarrow> bool" where
  "kway_merge_interleaves now \<longleftrightarrow> merged (filled
     [test_book now 0 [test_raw (flt 1000 1) (flt 10 1), test_raw (flt 980 1) (flt 10 1), test_raw (flt 960 1) (flt 10 1)] [],
      test_book now 1 [test_raw (flt 990 1) (flt 10 1), test_raw (flt 970 1) (flt 10 1), test_raw (flt 950 1) (flt 10 1)] []])
     (\<lambda>s. map (\<lambda>l. to_f64 (lv_price l)) (sm_bids s) = map (\<lambda>n. flt n 1) [1000, 990, 980, 970, 960, 950])"

definition stale_book_eviction :: "instant \<Rightarrow> bool" where
  "stale_book_eviction now \<longleftrightarrow> merged (evict_stale now STALE_THRESHOLD (filled
     [test_book (now - 10 * 10 ^ 9) 0 [test_raw (flt 1000 1) (flt 10 1)] [test_raw (flt 1010 1) (flt 10 1)],
      test_book now 1 [test_raw (flt 990 1) (flt 20 1)] [test_raw (flt 1020 1) (flt 30 1)]]))
     (\<lambda>s. length (sm_bids s) = 1 \<and> lv_exchange_id (sm_bids s ! 0) = 1)"

definition bookstore_insert_updates_existing :: "instant \<Rightarrow> bool" where
  "bookstore_insert_updates_existing now \<longleftrightarrow> merged (filled
     [test_book now 0 [test_raw (flt 1000 1) (flt 10 1)] [test_raw (flt 1010 1) (flt 10 1)],
      test_book now 0 [test_raw (flt 2000 1) (flt 50 1)] [test_raw (flt 2010 1) (flt 50 1)]])
     (\<lambda>s. length (sm_bids s) = 1 \<and> Inr (lv_price (sm_bids s ! 0)) = from_f64 (flt 2000 1)
        \<and> Inr (lv_price (sm_asks s ! 0)) = from_f64 (flt 2010 1))"

definition bookstore_insert_out_of_range :: "instant \<Rightarrow> bool" where
  "bookstore_insert_out_of_range now \<longleftrightarrow> merged (filled
     [test_book now 0 [test_raw (flt 1000 1) (flt 10 1)] [], test_book now 99 [test_raw (flt 500 1) (flt 10 1)] []])
     (\<lambda>s. length (sm_bids s) = 1 \<and> lv_exchange_id (sm_bids s ! 0) = 0)"

definition bookstore_evict_stale_keeps_fresh :: "instant \<Rightarrow> bool" where
  "bookstore_evict_stale_keeps_fresh now \<longleftrightarrow> merged (evict_stale now STALE_THRESHOLD (filled
     [test_book now 0 [test_raw (flt 1000 1) (flt 10 1)] [test_raw (flt 1010 1) (flt 10 1)],
      test_book now 1 [test_raw (flt 990 1) (flt 20 1)] [test_raw (flt 1020 1) (flt 20 1)]]))
     (\<lambda>s. length (sm_bids s) = 2 \<and> length (sm_asks s) = 2)"

definition bookstore_reinsert_after_eviction :: "instant \<Rightarrow> bool" where
  "bookstore_reinsert_after_eviction now \<longleftrightarrow>
     (let books = evict_stale now STALE_THRESHOLD (filled
        [test_book (now - 10 * 10 ^ 9) 0 [test_raw (flt 1000 1) (flt 10 1)] [test_raw (flt 1010 1) (flt 10 1)]]) in
      merged books (\<lambda>s. sm_bids s = [])
      \<and> merged (store_insert books (test_book now 0 [test_raw (flt 2000 1) (flt 50 1)] [test_raw (flt 2010 1) (flt 50 1)]))
          (\<lambda>s. length (sm_bids s) = 1 \<and> Inr (lv_price (sm_bids s ! 0)) = from_f64 (flt 2000 1)))"

definition merge_asymmetric_empty_sides :: "instant \<Rightarrow> bool" where
  "merge_asymmetric_empty_sides now \<longleftrightarrow> merged (filled
     [test_book now 0 [test_raw (flt 1000 1) (flt 10 1)] [], test_book now 1 [] [test_raw (flt 1010 1) (flt 10 1)]])
     (\<lambda>s. length (sm_bids s) = 1 \<and> length (sm_asks s) = 1 \<and> sm_spread_raw s = 100000000)"

definition merge_single_side_only :: "instant \<Rightarrow> bool" where
  "merge_single_side_only now \<longleftrightarrow> merged (filled
     [test_book now 0 [test_raw (flt 1000 1) (flt 10 1), test_raw (flt 990 1) (flt 20 1)] [],
      test_book now 1 [test_raw (flt 1005 1) (flt 30 1)] []])
     (\<lambda>s. length (sm_bids s) = 3 \<and> sm_asks s = [] \<and> sm_spread_raw s = 0)"

lemma merge_empty_passes: "merge_empty"
  unfolding merge_empty_def by (simp add: merge_eval merge_loop_numeral)

lemma bid_tiebreak_by_amount_passes: "bid_tiebreak_by_amount now"
  unfolding bid_tiebreak_by_amount_def by (simp add: merge_eval merge_loop_numeral)

lemma single_exchange_only_passes: "single_exchange_only now"
  unfolding single_exchange_only_def by (simp add: merge_eval merge_loop_numeral)

lemma crossed_book_negative_spread_passes: "crossed_book_negative_spread now"
  unfolding crossed_book_negative_spread_def by (simp add: merge_eval merge_loop_numeral)

lemma ask_tiebreak_by_amount_passes: "ask_tiebreak_by_amount now"
  unfolding ask_tiebreak_by_amount_def by (simp add: merge_eval merge_loop_numeral)

lemma merge_asymmetric_empty_sides_passes: "merge_asymmetric_empty_sides now"
  unfolding merge_asymmetric_empty_sides_def by (simp add: merge_eval merge_loop_numeral)

lemma merge_single_side_only_passes: "merge_single_side_only now"
  unfolding merge_single_side_only_def by (simp add: merge_eval merge_loop_numeral)

lemma bookstore_insert_updates_existing_passes: "bookstore_insert_updates_existing now"
  unfolding bookstore_insert_updates_existing_def by (simp add: merge_eval merge_loop_numeral)

lemma bookstore_insert_out_of_range_passes: "bookstore_insert_out_of_range now"
  unfolding bookstore_insert_out_of_range_def by (simp add: merge_eval merge_loop_numeral)

lemma bookstore_evict_stale_keeps_fresh_passes: "bookstore_evict_stale_keeps_fresh now"
  unfolding bookstore_evict_stale_keeps_fresh_def by (simp add: merge_eval merge_loop_numeral)

lemma kway_merge_interleaves_passes: "kway_merge_interleaves now"
  unfolding kway_merge_interleaves_def by (simp add: merge_eval merge_loop_numeral) (simp add: flt_to_f64)

text \<open>The clock has run for ten seconds (\<open>checked_sub(..).unwrap()\<close> would panic otherwise).\<close>

lemma eviction_tests_pass:
  assumes "10 * 10 ^ 9 \<le> now"
  shows "stale_book_eviction now" "bookstore_reinsert_after_eviction now"
  using assms
  by (simp_all add: stale_book_eviction_def bookstore_reinsert_after_eviction_def merge_eval merge_loop_numeral
      STALE_THRESHOLD_def)

section \<open>\<open>atomic_slot.rs\<close>\<close>

text \<open>A run of sends and receives on a new slot, and what the receives return.\<close>

definition send_recv_basic :: bool where
  "send_recv_basic \<longleftrightarrow> run_ops slot_send slot_recv (slot_new :: u64 slot) [None, Some 42, None, None] = Inr [None, Some 42, None]"

definition latest_value_wins :: bool where
  "latest_value_wins \<longleftrightarrow>
     run_ops slot_send slot_recv (slot_new :: u64 slot) [Some 1, Some 2, Some 3, None, None] = Inr [Some 3, None]"

definition abandoned_detection :: bool where
  "abandoned_detection \<longleftrightarrow> \<not> is_abandoned (slot_new :: u64 slot) \<and> is_abandoned (snd (drop_half (slot_new :: u64 slot)))"

text \<open>Either half sees the same count, so the test from the receiver's side is the same here.\<close>

definition abandoned_receiver_side :: bool where
  "abandoned_receiver_side \<longleftrightarrow> is_abandoned (snd (drop_half (slot_new :: u64 slot)))"

text \<open>The second half dropped frees the block with the unread value.\<close>

definition drop_cleans_up_unread_value :: bool where
  "drop_cleans_up_unread_value \<longleftrightarrow>
     (case slot_send slot_new (ascii ''hello'') of
        Inl p \<Rightarrow> False
      | Inr s \<Rightarrow> (let (first, s) = drop_half s; (second, s) = drop_half s in \<not> first \<and> second))"

text \<open>
  \<open>drop_count\<close>: of the values sent, those that are neither in a buffer nor held by the receiver have
  been dropped. Freeing the block drops what is left in the buffers.
\<close>

definition dropped :: "nat \<Rightarrow> nat \<Rightarrow> nat slot \<Rightarrow> nat" where
  "dropped n held s = n - length (filter (\<lambda>b. b \<noteq> None) (buffers s)) - held"

definition overwrite_drops_stale :: bool where
  "overwrite_drops_stale \<longleftrightarrow>
     (case slot_send slot_new 1 of Inl p \<Rightarrow> False | Inr s \<Rightarrow>
     (case slot_send s 2 of Inl p \<Rightarrow> False | Inr s \<Rightarrow> dropped 2 0 s = 0 \<and>
     (case slot_send s 3 of Inl p \<Rightarrow> False | Inr s \<Rightarrow> dropped 3 0 s = 1 \<and>
     (case slot_recv s of Inl p \<Rightarrow> False | Inr (val, s) \<Rightarrow> val \<noteq> None \<and> dropped 3 1 s = 1 \<and> dropped 3 0 s = 2 \<and>
     (let (first, s) = drop_half s; (second, s) = drop_half s in \<not> first \<and> second \<and> dropped 3 0 (s\<lparr>buffers := []\<rparr>) = 3)))))"

text \<open>The producer has been joined, so its sends all come before the receive.\<close>

definition cross_thread :: bool where
  "cross_thread \<longleftrightarrow>
     (case run_ops slot_send slot_recv slot_new (map Some [0..<1000] @ [None]) of
        Inr [Some val] \<Rightarrow> 990 \<le> val
      | _ \<Rightarrow> False)"

lemmas slot_eval = slot_new_def slot_send_def write_back_def publish_swap_def slot_recv_def load_dirty_def take_swap_def
  take_front_def is_abandoned_def drop_half_def DIRTY_def Let_def

lemma slot_tests_pass: send_recv_basic latest_value_wins abandoned_detection abandoned_receiver_side drop_cleans_up_unread_value
  by (simp_all add: send_recv_basic_def latest_value_wins_def abandoned_detection_def abandoned_receiver_side_def
      drop_cleans_up_unread_value_def slot_eval)

lemma overwrite_drops_stale_passes: overwrite_drops_stale
  by (simp add: overwrite_drops_stale_def dropped_def slot_eval)

lemma register_last: "xs \<noteq> [] \<Longrightarrow> register u (map Some xs @ [None]) = [Some (last xs)]"
  by (induction xs arbitrary: u rule: induct_list012) simp_all

lemma cross_thread_passes: cross_thread
proof -
  have "slot_inv (slot_new :: nat slot)" "slot_unread (slot_new :: nat slot) = None"
    by (simp_all add: slot_inv_def slot_unread_def slot_new_simps)
  then have "run_ops slot_send slot_recv (slot_new :: nat slot) (map Some [0..<1000] @ [None])
      = Inr (register None (map Some [0..<1000] @ [None]))"
    using triple.run_ops_register [of "slot_new :: nat slot" "map Some [0..<1000] @ [None]"] by simp
  also have "\<dots> = Inr [Some 999]" using register_last [of "[0..<1000]"] by (simp del: upt_rec_numeral)
  finally show ?thesis by (simp only: cross_thread_def) simp
qed

section \<open>\<open>exchange/mod.rs\<close>\<close>

definition try_send_slot_overwrites :: "instant \<Rightarrow> bool" where
  "try_send_slot_overwrites now \<longleftrightarrow>
     (let b1 = test_book now 0 [test_raw (flt 1000 1) (flt 10 1)] [test_raw (flt 1010 1) (flt 10 1)];
          b2 = test_book now 0 [test_raw (flt 2000 1) (flt 20 1)] [test_raw (flt 2010 1) (flt 20 1)] in
      case try_send_book slot_new b1 of Inl p \<Rightarrow> False | Inr (ok1, s) \<Rightarrow> ok1 \<and>
     (case try_send_book s b2 of Inl p \<Rightarrow> False | Inr (ok2, s) \<Rightarrow> ok2 \<and>
     (case slot_recv s of
        Inr (Some latest, s) \<Rightarrow> Inr (rl_price (ob_bids latest ! 0)) = from_f64 (flt 2000 1)
          \<and> map_sum id fst (slot_recv s) = Inr None
      | _ \<Rightarrow> False)))"

definition try_send_abandoned_returns_false :: "instant \<Rightarrow> bool" where
  "try_send_abandoned_returns_false now \<longleftrightarrow>
     map_sum id fst (try_send_book (snd (drop_half slot_new))
       (test_book now 0 [test_raw (flt 1000 1) (flt 10 1)] [test_raw (flt 1010 1) (flt 10 1)])) = Inr False"

lemma try_send_tests_pass: "try_send_slot_overwrites now" "try_send_abandoned_returns_false now"
  by (simp_all add: try_send_slot_overwrites_def try_send_abandoned_returns_false_def try_send_book_def slot_eval
      test_book_def test_raw_flt from_flt lvl_def)

section \<open>\<open>server.rs\<close>\<close>

definition to_proto_converts_summary :: bool where
  "to_proto_converts_summary \<longleftrightarrow>
     (let level = (\<lambda>price amount eid. \<lparr>lv_price = projr (from_f64 price), lv_amount = projr (from_f64 amount), lv_exchange_id = eid\<rparr>) in
      case to_proto \<lparr>sm_spread_raw = 30000000, sm_bids = [level (flt 1005 1) (flt 20 1) 0],
          sm_asks = [level (flt 1008 1) (flt 40 1) 1]\<rparr> of
        Inl p \<Rightarrow> False
      | Inr proto \<Rightarrow> \<bar>round_f64 (ps_spread proto - flt 3 1)\<bar> < flt 1 10
          \<and> length (ps_bids proto) = 1 \<and> length (ps_asks proto) = 1
          \<and> pl_exchange (ps_bids proto ! 0) = ascii ''binance''
          \<and> pl_price (ps_bids proto ! 0) = flt 1005 1 \<and> pl_amount (ps_bids proto ! 0) = flt 20 1
          \<and> pl_exchange (ps_asks proto ! 0) = ascii ''bitstamp''
          \<and> pl_price (ps_asks proto ! 0) = flt 1008 1 \<and> pl_amount (ps_asks proto ! 0) = flt 40 1)"

lemma to_proto_converts_summary_passes: to_proto_converts_summary
proof -
  have "spread_to_f64 30000000 = flt 3 1"
    using exact_below_53 [of 30000000] by (simp add: spread_to_f64_def scale_f64_value flt_def)
  moreover have "0 < flt 1 10" using round_f64_pos [of "1 / 10 ^ 10"] by (simp add: flt_def)
  moreover have "to_f64 (FixedPoint 10050000000) = flt 1005 1" "to_f64 (FixedPoint 200000000) = flt 20 1"
    "to_f64 (FixedPoint 10080000000) = flt 1008 1" "to_f64 (FixedPoint 400000000) = flt 40 1"
    by (simp_all add: flt_to_f64)
  ultimately show ?thesis
    by (simp add: to_proto_converts_summary_def to_proto_def level_to_proto_def exchange_name_def EXCHANGES_def from_flt)
qed

section \<open>\<open>metrics.rs\<close>\<close>

definition health_status_by_connectivity :: bool where
  "health_status_by_connectivity \<longleftrightarrow> list_all
     (\<lambda>(flags, status, text).
        let m = metrics_register [ascii ''binance'', ascii ''bitstamp''] 0;
            m = m\<lparr>mt_exchanges := map2 (\<lambda>f e. e\<lparr>em_connected := f\<rparr>) flags (mt_exchanges m)\<rparr>
        in health_response m = \<lparr>http_status = status, http_content = ascii text @ [10]\<rparr>)
     [([True, True], 200, ''OK''), ([True, False], 200, ''DEGRADED''), ([False, True], 200, ''DEGRADED''),
      ([False, False], 503, ''DOWN'')]"

lemma health_status_by_connectivity_passes: health_status_by_connectivity
  by (simp add: health_status_by_connectivity_def metrics_register_def exchange_metrics_new_def health_response_def
      health_def status_code_def health_content_def)

text \<open>\<open>out.contains(t)\<close>\<close>

definition contains :: "bytes \<Rightarrow> string \<Rightarrow> bool" where
  "contains out t \<longleftrightarrow> sublist (ascii t) out"

definition recorded :: "duration list \<Rightarrow> (prom_histogram \<Rightarrow> bool) \<Rightarrow> bool" where
  "recorded ds asserts =
     (case foldl (\<lambda>h d. Option.bind h (\<lambda>h. case histogram_record h d of Inl p \<Rightarrow> None | Inr h \<Rightarrow> Some h)) (Some histogram_new) ds of
        None \<Rightarrow> False | Some h \<Rightarrow> asserts h)"

definition histogram_record_and_render :: "(u64 \<Rightarrow> bytes) \<Rightarrow> bool" where
  "histogram_record_and_render show_secs \<longleftrightarrow> recorded [500, 5000, 5000]
     (\<lambda>h. list_all (contains (render show_secs h (ascii ''test_hist'') [] []))
        [''test_hist_bucket{le=\"0.0000005\"} 1'', ''test_hist_bucket{le=\"0.000001\"} 1'',
         ''test_hist_bucket{le=\"0.000005\"} 3'', ''test_hist_bucket{le=\"+Inf\"} 3'', ''test_hist_count 3'',
         ''test_hist_sum 0.0000105''])"

definition histogram_exact_bucket_boundary :: "(u64 \<Rightarrow> bytes) \<Rightarrow> bool" where
  "histogram_exact_bucket_boundary show_secs \<longleftrightarrow> recorded [100]
     (\<lambda>h. list_all (contains (render show_secs h (ascii ''boundary'') [] []))
        [''boundary_bucket{le=\"0.0000001\"} 1'', ''boundary_count 1''])"

definition histogram_overflow_bucket :: "(u64 \<Rightarrow> bytes) \<Rightarrow> bool" where
  "histogram_overflow_bucket show_secs \<longleftrightarrow> recorded [200 * 10 ^ 6]
     (\<lambda>h. list_all (contains (render show_secs h (ascii ''overflow'') [] []))
        [''overflow_bucket{le=\"0.1\"} 0'', ''overflow_bucket{le=\"+Inf\"} 1''])"

definition histogram_render_with_labels :: "(u64 \<Rightarrow> bytes) \<Rightarrow> bool" where
  "histogram_render_with_labels show_secs \<longleftrightarrow> recorded [1000]
     (\<lambda>h. list_all (contains (render show_secs h (ascii ''labeled'') (ascii ''exchange=\"test\"'') []))
        [''labeled_bucket{exchange=\"test\",le=\"0.000001\"} 1'', ''labeled_count{exchange=\"test\"} 1''])"

text \<open>What is written stays, and a line can be found by its own text.\<close>

lemma contains_writeln:
  "contains out t \<Longrightarrow> contains (writeln out l) t" "prefix (ascii t) l \<Longrightarrow> contains (writeln out l) t"
  by (auto simp: contains_def writeln_def sublist_append)

lemma contains_render: "contains out t \<Longrightarrow> contains (render show_secs h name labels out) t"
proof -
  have "contains out t \<Longrightarrow> contains (render_buckets name labels counts c i bs out) t" for counts c i bs
    by (induction name labels counts c i bs out rule: render_buckets.induct) (simp_all add: Let_def contains_writeln)
  then show "contains out t \<Longrightarrow> contains (render show_secs h name labels out) t"
    by (simp add: render_def Let_def contains_writeln)
qed

lemma small_numbers: "show_nat 0 = ascii ''0''" "show_nat 1 = ascii ''1''" "show_nat 2 = ascii ''2''" "show_nat 3 = ascii ''3''"
  by (simp_all add: show_nat.simps ascii_def)

lemmas record_eval = recorded_def histogram_record_def histogram_new_def NUM_BUCKETS_def BUCKETS_def saturate_u64_def
  word_le_nat_alt Let_def

lemmas render_eval = render_def BUCKETS_def Let_def small_numbers [simplified]

lemma seventeen: "replicate 17 (0 :: u64) = [0, 0, 0, 0, 0, 0, 0, 0, 0, 0, 0, 0, 0, 0, 0, 0, 0]"
  by (simp add: numeral_eq_Suc)

lemma recorded_samples:
  "recorded [500, 5000, 5000] P = P \<lparr>hg_buckets = [0, 1, 0, 2, 0, 0, 0, 0, 0, 0, 0, 0, 0, 0, 0, 0, 0], hg_sum_ns = 10500, hg_count = 3\<rparr>"
  "recorded [100] P = P \<lparr>hg_buckets = [1, 0, 0, 0, 0, 0, 0, 0, 0, 0, 0, 0, 0, 0, 0, 0, 0], hg_sum_ns = 100, hg_count = 1\<rparr>"
  "recorded [1000] P = P \<lparr>hg_buckets = [0, 0, 1, 0, 0, 0, 0, 0, 0, 0, 0, 0, 0, 0, 0, 0, 0], hg_sum_ns = 1000, hg_count = 1\<rparr>"
  "recorded [200 * 10 ^ 6] P = P \<lparr>hg_buckets = [0, 0, 0, 0, 0, 0, 0, 0, 0, 0, 0, 0, 0, 0, 0, 0, 1], hg_sum_ns = 200000000, hg_count = 1\<rparr>"
  by (simp_all add: record_eval seventeen)

lemma histogram_record_and_render_passes:
  "show_secs 10500 = ascii ''0.0000105'' \<Longrightarrow> histogram_record_and_render show_secs"
  unfolding histogram_record_and_render_def recorded_samples
  by (simp add: render_eval) (simp add: labelled_def ascii_def contains_writeln)

lemma histogram_tests_pass:
  "histogram_exact_bucket_boundary show_secs" "histogram_overflow_bucket show_secs" "histogram_render_with_labels show_secs"
  unfolding histogram_exact_bucket_boundary_def histogram_overflow_bucket_def histogram_render_with_labels_def recorded_samples
  by (simp_all add: render_eval) (simp_all add: labelled_def ascii_def contains_writeln)

definition to_prometheus_contains_all_metrics :: "(u64 \<Rightarrow> bytes) \<Rightarrow> instant \<Rightarrow> bool" where
  "to_prometheus_contains_all_metrics show_secs now \<longleftrightarrow>
     (let m = metrics_register [ascii ''binance'', ascii ''bitstamp''] now;
          m = m\<lparr>mt_exchanges := map2 (\<lambda>f e. f e)
            [\<lambda>e. e\<lparr>em_messages := em_messages e + 10\<rparr>, \<lambda>e. e\<lparr>em_connected := True\<rparr>] (mt_exchanges m)\<rparr>
      in list_all (contains (to_prometheus show_secs now m))
        [''# TYPE orderbook_messages_total'', ''# TYPE orderbook_errors_total'', ''# TYPE orderbook_reconnections_total'',
         ''# TYPE orderbook_merges_total'', ''# TYPE orderbook_exchange_up'', ''# TYPE orderbook_uptime_seconds'',
         ''# TYPE orderbook_decode_duration_seconds'', ''# TYPE orderbook_e2e_duration_seconds'',
         ''exchange=\"binance\"'', ''exchange=\"bitstamp\"'',
         ''orderbook_messages_total{exchange=\"binance\"} 10'', ''orderbook_exchange_up{exchange=\"bitstamp\"} 1''])"

lemma contains_label:
  "contains (writeln out (name @ ascii ''{exchange=\"'' @ ascii e @ ascii ''\"} '' @ v)) (''exchange=\"'' @ e @ ''\"'')"
proof -
  have "writeln out (name @ ascii ''{exchange=\"'' @ ascii e @ ascii ''\"} '' @ v)
      = (out @ name @ ascii ''{'') @ ascii (''exchange=\"'' @ e @ ''\"'') @ (ascii ''} '' @ v @ [10])"
    by (simp add: writeln_def ascii_def)
  then show ?thesis by (simp only: contains_def sublist_appendI)
qed

lemmas contains_labels = contains_label [of _ _ "''binance''", simplified] contains_label [of _ _ "''bitstamp''", simplified]

lemma to_prometheus_contains_all_metrics_passes: "to_prometheus_contains_all_metrics show_secs now"
proof -
  have ten: "show_nat 10 = ascii ''10''" by (simp add: show_nat.simps ascii_def)
  note registry = metrics_register_def exchange_metrics_new_def to_prometheus_def write_per_exchange_def write_header_def
    Let_def small_numbers [simplified] ten
  show ?thesis
    unfolding to_prometheus_contains_all_metrics_def
    apply (simp add: registry)
    apply (intro conjI)
    apply (simp_all add: contains_labels contains_writeln(1) contains_render)
    apply (simp_all add: contains_writeln contains_render ascii_def)
    done
qed

end
