(* ===== verification/IntegrationTests.thy ===== *)
theory IntegrationTests
  imports Grpc UnitTestsState
begin

text \<open>
  The repository's integration tests (\<open>tests/integration.rs\<close>), evaluated on the model: books sent on two
  slots reach a gRPC client through the merger, the channel, the service and the generated code. Of the
  interleavings the tests allow, each is run in the one where the merger passes over the slots after
  the sends and the client polls after each publication; \<open>Grpc\<close> and this development's root treat
  the others. The retries and timeouts of the harness are left out.
\<close>

section \<open>Harness\<close>

definition make_book :: "instant \<Rightarrow> exchange_id \<Rightarrow> f64 \<Rightarrow> f64 \<Rightarrow> order_book" where
  "make_book now eid bid_price ask_price = test_book now eid [test_raw bid_price (flt 50 1)] [test_raw ask_price (flt 30 1)]"

text \<open>Sends on the two slots and the pass of the merger after them.\<close>

definition send_on :: "order_book slot \<Rightarrow> order_book option \<Rightarrow> order_book slot" where
  "send_on s b = (case b of None \<Rightarrow> s | Some book \<Rightarrow> projr (slot_send s book))"

definition sends_and_pass :: "instant \<Rightarrow> order_book option \<Rightarrow> order_book option \<Rightarrow> turn" where
  "sends_and_pass now a b = (\<lambda>ss. map2 send_on ss [a, b], False, [(now, 0), (now, 0)])"

definition harness :: "turn list \<Rightarrow> (proto_summary list \<Rightarrow> bool) \<Rightarrow> bool" where
  "harness turns asserts =
     (case run_spsc reference_crates [slot_new, slot_new] turns of
        Inl p \<Rightarrow> False
      | Inr (_, c) \<Rightarrow>
          (case rpc_subscription plain_tonic reference_watch (Inr ()) []
              (concat (map (\<lambda>sm. [Published sm, Polled]) (summaries c))) of
             Inr (Inr polls) \<Rightarrow> asserts (items polls)
           | _ \<Rightarrow> False))"

text \<open>The next message that satisfies the condition, and what is left of the stream.\<close>

fun recv_until :: "(proto_summary \<Rightarrow> bool) \<Rightarrow> proto_summary list \<Rightarrow> (proto_summary \<times> proto_summary list) option" where
  "recv_until P [] = None"
| "recv_until P (m # ms) = (if P m then Some (m, ms) else recv_until P ms)"

definition recv_merged :: "nat \<Rightarrow> nat \<Rightarrow> proto_summary list \<Rightarrow> (proto_summary \<times> proto_summary list) option" where
  "recv_merged expected_bids expected_asks =
     recv_until (\<lambda>s. length (ps_bids s) = expected_bids \<and> length (ps_asks s) = expected_asks)"

section \<open>Tests\<close>

definition grpc_streams_merged_summary :: "instant \<Rightarrow> bool" where
  "grpc_streams_merged_summary now \<longleftrightarrow> harness
     [sends_and_pass now (Some (test_book now 0 [test_raw (flt 1000 1) (flt 50 1)] [test_raw (flt 1010 1) (flt 30 1)]))
        (Some (test_book now 1 [test_raw (flt 1005 1) (flt 20 1)] [test_raw (flt 1008 1) (flt 40 1)]))]
     (\<lambda>stream. case recv_merged 2 2 stream of
        None \<Rightarrow> False
      | Some (s, _) \<Rightarrow> pl_price (ps_bids s ! 0) = flt 1005 1 \<and> pl_price (ps_asks s ! 0) = flt 1008 1
          \<and> \<bar>round_f64 (ps_spread s - flt 3 1)\<bar> < flt 1 10 \<and> length (ps_bids s) = 2 \<and> length (ps_asks s) = 2)"

definition grpc_streams_updated_book :: "instant \<Rightarrow> bool" where
  "grpc_streams_updated_book now \<longleftrightarrow> harness
     [sends_and_pass now (Some (make_book now 0 (flt 1000 1) (flt 1010 1))) (Some (make_book now 1 (flt 1005 1) (flt 1008 1))),
      sends_and_pass now (Some (make_book now 0 (flt 2000 1) (flt 2010 1))) None]
     (\<lambda>stream. case recv_merged 2 2 stream of
        None \<Rightarrow> False
      | Some (s1, stream) \<Rightarrow> pl_price (ps_bids s1 ! 0) = flt 1005 1
          \<and> (case recv_until (\<lambda>s. length (ps_bids s) = 2 \<and> pl_price (ps_bids s ! 0) = flt 2000 1) stream of
               None \<Rightarrow> False
             | Some (s2, _) \<Rightarrow> pl_price (ps_bids s2 ! 0) = flt 2000 1 \<and> pl_price (ps_asks s2 ! 0) = flt 1008 1))"

definition grpc_streams_single_exchange :: "instant \<Rightarrow> bool" where
  "grpc_streams_single_exchange now \<longleftrightarrow> harness
     [sends_and_pass now (Some (make_book now 0 (flt 500 1) (flt 510 1))) None]
     (\<lambda>stream. case recv_merged 1 1 stream of
        None \<Rightarrow> False
      | Some (s, _) \<Rightarrow> length (ps_bids s) = 1 \<and> length (ps_asks s) = 1 \<and> pl_price (ps_bids s ! 0) = flt 500 1
          \<and> pl_price (ps_asks s ! 0) = flt 510 1 \<and> \<bar>round_f64 (ps_spread s - flt 10 1)\<bar> < flt 1 10)"

section \<open>Evaluation\<close>

text \<open>The client receives every summary, for it polls after each publication.\<close>

lemma harness_run:
  assumes "run_spsc reference_crates [slot_new, slot_new] turns = Inr (ended, c)"
    and "list_all (turn_ok 2) turns"
  shows "harness turns asserts = asserts (map message_of_summary (summaries c))"
proof -
  let ?views = "\<lambda>sms. concat (map (\<lambda>sm. [Published sm, Polled]) sms)"
  have pub: "published (?views sms) = sms" for sms by (induction sms) simp_all
  have box: "mailbox (?views sms) None False = map Item sms" for sms by (induction sms) simp_all
  have got: "items (map (map_polled f) (map Item sms)) = map f sms" for f :: "summary \<Rightarrow> proto_summary" and sms
    by (induction sms) simp_all
  have "all_merged reference_crates (summaries c)"
    using run_published [OF reference.external_crates_axioms _ _ assms(1)] assms(2)
    by (simp add: slot_inv_def slot_new_simps numeral_2_eq_2)
  then have all: "all_merged reference_crates ([] @ published (?views (summaries c)))" by (simp add: pub)
  from rpc_lossless [of plain_tonic, OF ref_tonic.tonic_stack_axioms ref_watch.watch_channel_axioms
      reference.external_crates_axioms all]
    subscription_polls [OF ref_watch.watch_channel_axioms reference.external_crates_axioms all]
  have "rpc_subscription plain_tonic reference_watch (Inr ()) [] (?views (summaries c))
      = Inr (Inr (map (map_polled message_of_summary) (map Item (summaries c))))"
    by (simp add: newest_def box del: map_map)
  then show ?thesis by (simp add: harness_def assms(1) got del: map_map)
qed

lemma sends_and_pass_ok: "turn_ok 2 (sends_and_pass now a b)"
proof -
  have "slot_inv (send_on s b)" if "slot_inv s" for s b
  proof (cases b)
    case (Some book)
    with triple.send_law [OF that, of book] show ?thesis by (auto simp: send_on_def)
  qed (simp add: send_on_def that)
  then show ?thesis
    by (auto simp: turn_ok_def sends_and_pass_def list_all_length numeral_2_eq_2)
qed

lemma zero_bucket: "bucket_scan (saturate_u64 0) 0 BUCKETS = 0"
  by (simp add: saturate_u64_def BUCKETS_def)

lemmas run_eval = zero_bucket run_spsc_def merger_pass_def poll_one_def merger_start_def sends_and_pass_def
  send_on_def slot_eval merge_eval merge_loop_numeral STALE_THRESHOLD_def histogram_record_def histogram_new_def

definition side_of :: "(u64 \<times> u64 \<times> exchange_id) list \<Rightarrow> level list" where
  "side_of = map (\<lambda>(p, a, i). \<lparr>lv_price = FixedPoint p, lv_amount = FixedPoint a, lv_exchange_id = i\<rparr>)"

lemma single_run:
  "\<exists>c. run_spsc reference_crates [slot_new, slot_new] [sends_and_pass now (Some (make_book now 0 (flt 500 1) (flt 510 1))) None]
      = Inr (False, c)
    \<and> summaries c = [\<lparr>sm_spread_raw = 100000000, sm_bids = side_of [(5000000000, 500000000, 0)],
        sm_asks = side_of [(5100000000, 300000000, 0)]\<rparr>]"
  by (simp add: make_book_def run_eval side_of_def)

lemma merged_run:
  "\<exists>c. run_spsc reference_crates [slot_new, slot_new]
      [sends_and_pass now (Some (test_book now 0 [test_raw (flt 1000 1) (flt 50 1)] [test_raw (flt 1010 1) (flt 30 1)]))
        (Some (test_book now 1 [test_raw (flt 1005 1) (flt 20 1)] [test_raw (flt 1008 1) (flt 40 1)]))] = Inr (False, c)
    \<and> summaries c = [
      \<lparr>sm_spread_raw = 100000000, sm_bids = side_of [(10000000000, 500000000, 0)], sm_asks = side_of [(10100000000, 300000000, 0)]\<rparr>,
      \<lparr>sm_spread_raw = 30000000, sm_bids = side_of [(10050000000, 200000000, 1), (10000000000, 500000000, 0)],
        sm_asks = side_of [(10080000000, 400000000, 1), (10100000000, 300000000, 0)]\<rparr>]"
  by (simp add: run_eval side_of_def)

lemma updated_run:
  "\<exists>c. run_spsc reference_crates [slot_new, slot_new]
      [sends_and_pass now (Some (make_book now 0 (flt 1000 1) (flt 1010 1))) (Some (make_book now 1 (flt 1005 1) (flt 1008 1))),
       sends_and_pass now (Some (make_book now 0 (flt 2000 1) (flt 2010 1))) None] = Inr (False, c)
    \<and> summaries c = [
      \<lparr>sm_spread_raw = 100000000, sm_bids = side_of [(10000000000, 500000000, 0)], sm_asks = side_of [(10100000000, 300000000, 0)]\<rparr>,
      \<lparr>sm_spread_raw = 30000000, sm_bids = side_of [(10050000000, 500000000, 1), (10000000000, 500000000, 0)],
        sm_asks = side_of [(10080000000, 300000000, 1), (10100000000, 300000000, 0)]\<rparr>,
      \<lparr>sm_spread_raw = - 9920000000, sm_bids = side_of [(20000000000, 500000000, 0), (10050000000, 500000000, 1)],
        sm_asks = side_of [(10080000000, 300000000, 1), (20100000000, 300000000, 0)]\<rparr>]"
  by (simp add: make_book_def run_eval side_of_def)

text \<open>The messages, and the numbers of the assertions.\<close>

lemmas message_eval = message_of_summary_def to_proto_def level_to_proto_def exchange_name_def EXCHANGES_def side_of_def
  recv_merged_def

lemma number_eval:
  "to_f64 (FixedPoint 5000000000) = flt 500 1" "to_f64 (FixedPoint 5100000000) = flt 510 1"
  "to_f64 (FixedPoint 10050000000) = flt 1005 1" "to_f64 (FixedPoint 10080000000) = flt 1008 1"
  "to_f64 (FixedPoint 20000000000) = flt 2000 1"
  by (simp_all add: flt_to_f64)

lemma spread_eval: "spread_to_f64 30000000 = flt 3 1" "spread_to_f64 100000000 = flt 10 1" "0 < flt (Suc 0) 10"
  using exact_below_53 [of 30000000] exact_below_53 [of 100000000] round_f64_pos [of "1 / 10 ^ 10"]
  by (simp_all add: spread_to_f64_def scale_f64_value flt_def)

lemma harness_summaries:
  assumes "\<exists>c. run_spsc reference_crates [slot_new, slot_new] turns = Inr (False, c) \<and> summaries c = sms"
    and "list_all (turn_ok 2) turns"
  shows "harness turns asserts = asserts (map message_of_summary sms)"
  using assms harness_run by blast

lemma grpc_streams_single_exchange_passes: "grpc_streams_single_exchange now"
  unfolding grpc_streams_single_exchange_def
  by (subst harness_summaries [OF single_run]) (simp_all add: sends_and_pass_ok message_eval number_eval spread_eval)

lemma grpc_streams_merged_summary_passes: "grpc_streams_merged_summary now"
  unfolding grpc_streams_merged_summary_def
  by (subst harness_summaries [OF merged_run]) (simp_all add: sends_and_pass_ok message_eval number_eval spread_eval)

lemma grpc_streams_updated_book_passes: "grpc_streams_updated_book now"
  unfolding grpc_streams_updated_book_def
  by (subst harness_summaries [OF updated_run]) (simp_all add: sends_and_pass_ok message_eval number_eval spread_eval)

end
