(* ===== verification/Build.thy ===== *)
theory Build
  imports Scanner "HOL-Library.Sublist"
begin

text \<open>
  \<open>build.rs\<close>: the commit that the binary reports. What running \<open>git\<close> gives and what the protocol compiler
  answers are arguments; the standard library's \<open>from_utf8\<close> and \<open>trim\<close> are modelled.
\<close>

section \<open>\<open>str::trim\<close>\<close>

text \<open>The characters with the Unicode property \<open>White_Space\<close>, in UTF-8.\<close>

definition white_space :: "bytes list" where
  "white_space = map (\<lambda>b. [b]) [9, 10, 11, 12, 13, 32] @ [[194, 133], [194, 160], [225, 154, 128]]
     @ map (\<lambda>b. [226, 128, b]) [128, 129, 130, 131, 132, 133, 134, 135, 136, 137, 138, 168, 169, 175]
     @ [[226, 129, 159], [227, 128, 128]]"

function strip :: "bytes list \<Rightarrow> bytes \<Rightarrow> bytes" where
  "strip chars s = (case find (\<lambda>c. c \<noteq> [] \<and> prefix c s) chars of
     None \<Rightarrow> s
   | Some c \<Rightarrow> strip chars (drop (length c) s))"
  by auto
termination
proof (relation "measure (\<lambda>(chars, s). length s)")
  fix chars :: "bytes list" and s c
  assume "find (\<lambda>c. c \<noteq> [] \<and> prefix c s) chars = Some c"
  then have "c \<noteq> []" "prefix c s" by (auto simp: find_Some_iff)
  then show "((chars, drop (length c) s), chars, s) \<in> measure (\<lambda>(chars, s). length s)"
    by (cases s) (auto simp: prefix_def)
qed simp

declare strip.simps [simp del]

text \<open>From the front, and, with the characters reversed, from the back.\<close>

definition trim :: "bytes \<Rightarrow> bytes" where
  "trim s = rev (strip (map rev white_space) (rev (strip white_space s)))"

lemma strip_none:
  assumes "\<forall>c\<in>set chars. c = [] \<or> \<not> prefix c s"
  shows "strip chars s = s"
proof -
  have "find (\<lambda>c. c \<noteq> [] \<and> prefix c s) chars = None" using assms by (auto simp: find_None_iff)
  then show ?thesis by (simp add: strip.simps)
qed

lemma strip_stripped:
  assumes "c \<in> set chars" and "c \<noteq> []"
  shows "\<not> prefix c (strip chars s)"
  using assms
proof (induction chars s rule: strip.induct)
  case (1 chars s)
  then show ?case
    by (subst strip.simps) (auto simp: find_None_iff split: option.split)
qed

lemma strip_suffix: "suffix (strip chars s) s"
proof (induction chars s rule: strip.induct)
  case (1 chars s)
  then show ?case
    by (subst strip.simps) (auto split: option.split intro: suffix_order.trans suffix_drop)
qed

section \<open>The build script\<close>

record process_output =
  succeeded :: bool
  stdout :: bytes

text \<open>The commit: \<open>output().ok()\<close> with its \<open>filter\<close>, \<open>and_then\<close> and \<open>map_or_else\<close>.\<close>

definition git_commit :: "process_output option \<Rightarrow> bytes" where
  "git_commit git =
     (case Option.bind git (\<lambda>out. if succeeded out \<and> valid_utf8 (stdout out) then Some (stdout out) else None) of
        None \<Rightarrow> ascii ''unknown''
      | Some s \<Rightarrow> trim s)"

text \<open>What the script prints; with the feature \<open>codegen\<close> it stops with a panic when the compiler fails.\<close>

definition build_script :: "process_output option \<Rightarrow> bool \<Rightarrow> 'e + unit \<Rightarrow> bytes list \<times> bool" where
  "build_script git codegen compiled =
     ([ascii ''cargo:rustc-env=GIT_COMMIT='' @ git_commit git], \<not> codegen \<or> (case compiled of Inl _ \<Rightarrow> False | Inr _ \<Rightarrow> True))"

section \<open>Properties\<close>

text \<open>The commit has no white space around it, and the text of \<open>git rev-parse\<close> is kept but for its line end.\<close>

lemma trim_clean:
  assumes "c \<in> set white_space"
  shows "\<not> suffix c (trim s)"
proof -
  have "c \<noteq> []" using assms by (auto simp: white_space_def)
  with assms have "\<not> prefix (rev c) (strip (map rev white_space) (rev (strip white_space s)))"
    by (intro strip_stripped) auto
  then show ?thesis by (simp add: trim_def suffix_to_prefix)
qed

lemma white_space_bytes: "c \<in> set white_space \<Longrightarrow> c \<noteq> [] \<and> (hd c < 33 \<or> 128 \<le> hd c) \<and> (last c < 33 \<or> 128 \<le> last c)"
  by (auto simp: white_space_def)

theorem hash_kept:
  assumes "list_all (\<lambda>b. 33 \<le> b \<and> b < 128) h" and "h \<noteq> []"
  shows "fst (build_script (Some \<lparr>succeeded = True, stdout = h @ [10]\<rparr>) codegen compiled)
      = [ascii ''cargo:rustc-env=GIT_COMMIT='' @ h]"
proof -
  have no_prefix: "\<not> prefix c s" if "c \<in> set white_space \<or> rev c \<in> set white_space" "33 \<le> hd s" "hd s < 128" "s \<noteq> []" for c s
  proof
    assume "prefix c s"
    with that show False
      using white_space_bytes [of c] white_space_bytes [of "rev c"]
      by (cases s; cases c) (auto simp: last_rev not_le [symmetric])
  qed
  obtain b t where h: "h = b # t" using assms(2) by (cases h) auto
  obtain d u where r: "rev h = d # u" using assms(2) by (cases "rev h") auto
  then have "d \<in> set h" by (metis list.set_intros(1) set_rev)
  with assms(1) have d: "33 \<le> d" "d < 128" by (auto simp: list_all_iff)
  have front: "strip white_space (h @ [10]) = h @ [10]"
    using assms(1) no_prefix [of _ "b # t @ [10]"] by (intro strip_none) (auto simp: h)
  have last: "strip (map rev white_space) (rev h) = rev h"
    using d by (intro strip_none ballI disjI2 no_prefix) (auto simp: r)
  have "find (\<lambda>c. c \<noteq> [] \<and> prefix c (10 # rev h)) (map rev white_space) = Some [10]"
    by (simp add: white_space_def)
  then have "strip (map rev white_space) (10 # rev h) = rev h"
    by (subst strip.simps) (simp add: last)
  then have "trim (h @ [10]) = h" by (simp add: trim_def front)
  moreover have "valid_utf8 (h @ [10])" using assms(1) by (intro valid_utf8_ascii) (auto simp: list_all_iff)
  ultimately show ?thesis by (simp add: build_script_def git_commit_def)
qed

theorem hash_kept_witness:
  "fst (build_script (Some \<lparr>succeeded = True, stdout = ascii ''1f9cc40'' @ [10]\<rparr>) False (Inr ()))
    = [ascii ''cargo:rustc-env=GIT_COMMIT='' @ ascii ''1f9cc40'']"
  by (rule hash_kept) (simp_all add: ascii_def)

text \<open>Without an answer of \<open>git\<close> the build goes on, and the commit is \<open>unknown\<close>.\<close>

lemma build_without_git:
  assumes "git = None \<or> (\<exists>out. git = Some out \<and> \<not> succeeded out)"
  shows "build_script git False compiled = ([ascii ''cargo:rustc-env=GIT_COMMIT=unknown''], True)"
  using assms by (auto simp: build_script_def git_commit_def ascii_def)

end
