(* ===== verification/Spec2Isabelle.thy ===== *)
theory Spec2Isabelle
  imports Startup SlotHB SlotOrder Http CatchUp IntegrationTests Build
begin

text \<open>
  A model of the order book aggregator (\<open>0xAEQI/orderbook-aggregator\<close>) and proofs of what it does.

  \<^bold>\<open>The program.\<close> Two adapters, one per exchange, each on a thread of its own, hold a WebSocket
  connection, read order book snapshots from its text frames and put each book into a slot that they
  share with the merger (\<open>src/exchange/\<close>, \<open>src/json_walker.rs\<close>, \<open>src/types.rs\<close>,
  \<open>src/atomic_slot.rs\<close>). The merger thread polls the slots, keeps the latest book of each exchange,
  drops stale ones, merges the rest into the ten best levels of each side and publishes that summary
  (\<open>src/merger.rs\<close>). A gRPC server converts summaries to protobuf messages for its clients
  (\<open>src/server.rs\<close>), an HTTP server shows counters and the state of the connections
  (\<open>src/metrics.rs\<close>), and \<open>src/main.rs\<close> starts and joins it all. \<open>src/client.rs\<close> is a program of its
  own that shows the stream in a terminal.

  \<^bold>\<open>The theories\<close>, each after those it builds on, with the part of the code it models:
  \<^item> \<open>Prelude\<close>: machine integers, bytes, panics as values, checked arithmetic, decimal digits.
  \<^item> \<open>FixedPoint\<close> (\<open>types.rs\<close>): the 8-decimal price type, \<open>parse\<close>, \<open>Display\<close>, order.
  \<^item> \<open>Float64\<close> (\<open>types.rs\<close>): \<open>to_f64\<close>, \<open>from_f64\<close>, \<open>spread_to_f64\<close> over exact binary64 rounding.
  \<^item> \<open>BookTypes\<close> (\<open>types.rs\<close>, \<open>lib.rs\<close>): levels, books, summaries, the exchange table; the crates the
    code relies on (\<open>memchr\<close>, \<open>arrayvec\<close>) as a record \<open>crates\<close> of parameters under the locale
    \<open>external_crates\<close> of their documented behaviour, with an instance.
  \<^item> \<open>Scanner\<close> (\<open>json_walker.rs\<close>): the cursor, its loops one by one, the fused decimal reader, the level
    array reader.
  \<^item> \<open>AtomicSlot\<close> (\<open>atomic_slot.rs\<close>): the triple buffer as operations, as a step relation of two threads
    (\<open>step\<close>), and as a register (\<open>latest_slot\<close>, \<open>register_step\<close>). \<open>SlotOrder\<close>: why the operations count
    as single steps elsewhere. \<open>SlotHB\<close> adds the memory orderings:
    vector clocks over the same steps.
  \<^item> \<open>Metrics\<close> (\<open>metrics.rs\<close>): histogram, counters, registry, Prometheus text, health.
  \<^item> \<open>Exchange\<close> and \<open>WsLoop\<close> (\<open>exchange/mod.rs\<close>): the handler interface, the send path, the reconnection
    loop with its backoff as a state machine over the points where it awaits something.
  \<^item> \<open>Binance\<close>, \<open>Bitstamp\<close> (\<open>exchange/*.rs\<close>): the byte walkers and the handlers; \<open>Adapters\<close> runs the loop
    with either handler.
  \<^item> \<open>Merger\<close> (\<open>merger.rs\<close>): book store, eviction, k-way merge, spread; \<open>MergerLoop\<close>: \<open>run_spsc\<close>, the
    pinning of its thread.
  \<^item> \<open>Pipeline\<close>: both adapters and the merger interleaved over the slots they share; \<open>Freshness\<close>: the
    merger's store against the newest books; \<open>CatchUp\<close>: one pass of the merger; \<open>Shutdown\<close>: how these
    threads wind down after a cancellation.
  \<^item> \<open>Service\<close> (\<open>config.rs\<close>, \<open>server.rs\<close>): symbol validation, conversion to protobuf.
  \<^item> \<open>Startup\<close> (\<open>main.rs\<close>, \<open>error.rs\<close>, \<open>config.rs\<close>, wiring): how the process comes up and down.
  \<^item> \<open>Client\<close> (\<open>client.rs\<close>): the terminal viewer, its rows, bars, event loop and way out.
  \<^item> \<open>Subscribers\<close> (\<open>server.rs\<close>): \<open>book_summary\<close> over the \<open>watch\<close> channel, as a mailbox that a new summary
    overwrites; a subscriber of a running merger, and the viewer that reads it.
  \<^item> \<open>Http\<close> (\<open>metrics.rs\<close>): the routes of the metrics server, and what \<open>/health\<close> says of the threads.
  \<^item> \<open>Grpc\<close> (\<open>gen/orderbook.rs\<close>): the generated server and client around \<open>book_summary\<close>: settings,
    interceptors, routing by path, the call.
  \<^item> \<open>UnitTestsParsing\<close>, \<open>UnitTestsState\<close> (the \<open>mod tests\<close> of each module, \<open>testutil.rs\<close>): the
    repository's unit tests, evaluated on the model; \<open>IntegrationTests\<close> (\<open>tests/integration.rs\<close>): those of
    the whole path.
  \<^item> \<open>Build\<close> (\<open>build.rs\<close>): the commit that the binary reports.
  \<^item> this theory: the path of a frame through all of them, up to a client.

  \<^bold>\<open>Correspondence.\<close> A struct is a record, an enum a datatype, a method a function that returns the changed
  receiver. A \<open>u64\<close> is a 64-bit word, so arithmetic wraps as in the release profile; \<open>checked_*\<close>
  operations return options. \<open>usize\<close> positions are naturals. A panic is \<open>Inl\<close> of a sum; an \<open>Option\<close> with
  its \<open>?\<close> is the option monad. A shared atomic is a field, a clock reading or another answer of the
  environment an argument. Loops over a buffer are recursive functions with their termination proved
  from the bytes that are left; the loops that run until shutdown (\<open>run_ws_loop\<close>, \<open>run_spsc\<close>) are
  functions of the finite list of what their environment answers. No definition uses fuel.

  \<^bold>\<open>What is shown.\<close>
  Parsing: both decimal parsers compute the floor of the decimal in units of \<open>10 ^ -8\<close> or reject, and
  agree; the level reader is sound and complete; frames of either exchange are read back exactly. The
  walkers never panic, but for one frame shape of Bitstamp (\<open>bitstamp_panics_on_trailing_backslash\<close>).
  Slots: the two threads never share a buffer, the newest value is never lost, none is delivered twice,
  every run is explained by a sequence of whole operations, the block is freed once; receives are
  ordered after the sends they read from, while the reuse of a buffer is not ordered after the
  receive that emptied it (\<open>slot_reuse_races\<close>).
  Merging: the summary is the stable sort of all levels, cut at \<open>DEPTH\<close>; the spread is exact in its
  range and wraps outside it (\<open>merged_spread_wraps\<close>); the store holds, after any sequence of insertions and
  evictions, the last fresh book of each exchange. Loops: invariants of both adapters and of the
  merger over every run, the backoff sequence, and how they end; in every interleaving of the three
  threads each summary is published by a poll that merges books fresh at its clock reading, each published
  level stands in a frame of its exchange, and the summary published last merges
  the newest book of each. Output: counters, histogram lines, messages that show every level and the
  spread within two units in the last place of a double, with order and sign kept, the rows and bars of the
  viewer; the subscription sent to Bitstamp names the configured symbol; subscribers get
  summaries in order, at most once, and end with the newest; \<open>/health\<close> is truthful while the merger
  runs; a gRPC call reaches the service and no message is too large for it. Process: the startup
  sequence with each of its errors; after a cancellation at most twelve more steps, without a panic or
  a deadlock, until every slot is freed.
  \<open>end_to_end\<close> composes walkers, handlers, slots, a merger pass and the merge;
  \<open>client_sees_only_quotes\<close> composes every interleaving of the threads with a gRPC client,
  \<open>screen_catches_up\<close> adds the viewer and says when it is up to date.

  \<^bold>\<open>Bounds.\<close> \<open>DEPTH\<close> is 10 and \<open>MAX_EXCHANGES\<close> 2, as in the code. Frames are shorter than \<open>2 ^ 32\<close> bytes
  where digits are counted in a \<open>u32\<close> (the WebSocket library's limit is far below). \<open>f64\<close> values are
  finite and in the range prices have.

  \<^bold>\<open>Interfaces.\<close> \<open>substring_search\<close>, \<open>bounded_push\<close> and \<open>external_crates\<close> (the crates), \<open>level_order\<close> (a
  comparator of the merge; both of the code's are instances), \<open>latest_slot\<close> (what the merger and the
  adapters need of a slot; the triple buffer is an instance), \<open>handler_contract\<close> (what the reconnection
  loop needs of a handler; both handlers are instances), \<open>watch_channel\<close> (tokio's channel of the latest
  value, by version numbers), \<open>http_router\<close> (axum's table of routes), \<open>tonic_stack\<close> (the gRPC transport,
  codec and streaming of tonic and prost).

  \<^bold>\<open>Not modelled.\<close> Library calls without logic of the program: TLS, TCP and HTTP set-up, logging,
  \<open>ws_config\<close> (one field of a library's record). Of the generated code the bounds of its types; of the
  viewer the borders and the padding of its frame. Of the unit tests \<open>static_size_assertions\<close>, which is
  about the layout of memory; of the integration tests the retries and timeouts. The benches, which
  measure time.
\<close>

section \<open>From the wire to the published summary\<close>

text \<open>The books the two adapters put in their slots.\<close>

definition book_of :: "exchange_id \<Rightarrow> instant \<Rightarrow> raw_level list \<Rightarrow> raw_level list \<Rightarrow> order_book" where
  "book_of eid t0 bids asks = \<lparr>ob_exchange_id = eid, ob_bids = take DEPTH (filter nonzero bids),
     ob_asks = take DEPTH (filter nonzero asks), ob_decode_start = t0\<rparr>"

lemma fresh_slot: "slot_inv (slot_new :: order_book slot)" "\<not> is_abandoned (slot_new :: order_book slot)"
  by (simp add: slot_inv_def slot_new_simps) (simp add: is_abandoned_def slot_new_def)

lemma fresh_metrics: "metrics_ok (exchange_metrics_new name)"
  by (simp add: metrics_ok_def exchange_metrics_new_def)

lemma binance_delivers:
  assumes X: "external_crates X" and "n < 2 ^ 64"
    and "list_all2 wire_level bs bids" and "list_all2 wire_level as asks"
    and "length (binance_frame n bs as t) < 2 ^ 32"
  obtains h s m where "binance_process_text X t0 d (binance_frame n bs as t) binance_new slot_new
      (exchange_metrics_new name) = Inr (h, s, m, Continue)"
    and "slot_inv s" and "slot_unread s = Some (book_of BINANCE_ID t0 bids asks)"
proof (cases rule: external_crates.binance_process_text_eq [OF X fresh_slot(1) fresh_metrics,
      of t0 d "binance_frame n bs as t" binance_new name, case_names rejected accepted])
  case rejected
  with external_crates.binance_walk_frame [OF assms] show thesis by (simp add: binance_new_def)
next
  case (accepted seq bids' asks' s' m')
  with external_crates.binance_walk_frame [OF assms] fresh_slot(2) that show thesis by (auto simp: book_of_def)
qed

lemma bitstamp_delivers:
  assumes X: "external_crates X" and "no_pair b_quote 109 pre" and "n < 2 ^ 64"
    and "list_all2 wire_level bs bids" and "list_all2 wire_level as asks"
    and "length (bitstamp_frame pre n bs as t) < 2 ^ 32" and "valid_utf8 (bitstamp_frame pre n bs as t)"
  obtains h s m where "bitstamp_process_text X t0 d (bitstamp_frame pre n bs as t) bitstamp_new slot_new
      (exchange_metrics_new name) = Inr (h, s, m, Continue)"
    and "slot_inv s" and "slot_unread s = Some (book_of BITSTAMP_ID t0 bids asks)"
proof -
  note p = bitstamp_data_event [OF external_crates.bitstamp_walk_frame [OF assms]]
  let ?b = "take DEPTH (filter nonzero bids)" and ?a = "take DEPTH (filter nonzero asks)"
  show thesis
  proof (cases rule: bitstamp_data_eq [OF fresh_slot(1) fresh_metrics,
        of "of_nat n" bitstamp_new t0 d ?b ?a name, case_names rejected accepted])
    case rejected
    then show thesis by (simp add: bitstamp_new_def)
  next
    case (accepted s' m')
    with p fresh_slot(2) that show thesis by (auto simp: book_of_def)
  qed
qed

lemma two_book_slices:
  assumes "sorted (map key l1)" and "sorted (map key l2)" and "level_order cmp key"
  shows "take DEPTH (sort_key (\<lambda>l. key (unstamp l))
      (map (stamp BINANCE_ID) (take DEPTH (filter nonzero l1)) @ map (stamp BITSTAMP_ID) (take DEPTH (filter nonzero l2))))
    = take DEPTH (sort_key (\<lambda>l. key (unstamp l))
      (map (stamp BINANCE_ID) (filter nonzero l1) @ map (stamp BITSTAMP_ID) (filter nonzero l2)))"
proof -
  let ?ts = "[\<lparr>ts_exchange_id = BINANCE_ID, ts_levels = filter nonzero l1\<rparr>,
    \<lparr>ts_exchange_id = BITSTAMP_ID, ts_levels = filter nonzero l2\<rparr>]"
  have "\<forall>t\<in>set ?ts. sorted (map key (ts_levels t))"
    using assms(1,2) by (simp add: sorted_filter)
  from level_order.sort_trim [OF assms(3) this, of DEPTH] show ?thesis
    by (simp add: all_levels_trim) (simp add: all_levels_def take_map MAX_EXCHANGES_def EXCHANGES_def)
qed

text \<open>One pass of a freshly started merger over two slots with a fresh book each.\<close>

lemma merger_first_pass:
  assumes X: "external_crates X" and s: "slot_inv s1" "slot_inv s2"
    and u: "slot_unread s1 = Some b1" "slot_unread s2 = Some b2"
    and ids: "ob_exchange_id b1 = BINANCE_ID" "ob_exchange_id b2 = BITSTAMP_ID"
    and fresh: "max t1 t2 \<le> ob_decode_start b1 + STALE_THRESHOLD" "t2 \<le> ob_decode_start b2 + STALE_THRESHOLD"
  shows "\<exists>c sm1 sm2. poll_all X [(t1, d1), (t2, d2)] 0 (merger_start [s1, s2]) = Inr c
    \<and> summaries c = [sm1, sm2] \<and> merge X \<lparr>books = [Some b1, Some b2]\<rparr> = Inr sm2"
proof -
  let ?c = "merger_start [s1, s2]"
  have inv: "merger_inv ?c" using s by (intro merger_inv_start) simp
  have at0: "0 < length (slots ?c)" "slots ?c ! 0 = s1" by (simp_all add: merger_start_def)
  obtain sm1 c1 x where 1: "poll_one X t1 d1 0 ?c = Inr c1" "merger_inv c1"
    "store c1 = evict_stale t1 STALE_THRESHOLD (store_insert store_new b1)" "summaries c1 = [sm1]"
    "slots c1 = [x, s2]"
  proof (cases rule: poll_one_cases [OF X inv at0(1), of t1 d1, case_names idle book])
    case (idle x)
    with u(1) at0 show thesis by simp
  next
    case (book b sm c')
    with u(1) at0 show thesis by (auto simp: merger_start_def intro: that)
  qed
  have at1: "1 < length (slots c1)" "slots c1 ! 1 = s2" using 1(5) by simp_all
  obtain sm2 c2 where 2: "poll_one X t2 d2 1 c1 = Inr c2" "merge X (store c2) = Inr sm2"
    "store c2 = evict_stale t2 STALE_THRESHOLD (store_insert (store c1) b2)" "summaries c2 = [sm1, sm2]"
  proof (cases rule: poll_one_cases [OF X 1(2) at1(1), of t2 d2, case_names idle book])
    case (idle y)
    with u(2) at1 show thesis by simp
  next
    case (book b sm c')
    with u(2) at1 1(4) show thesis by (auto intro: that)
  qed
  have "store c2 = \<lparr>books = [Some b1, Some b2]\<rparr>"
    using fresh ids
    by (simp add: 2(3) 1(3) evict_stale_def store_insert_def store_new_def evict_slot_def Let_def
        BINANCE_ID_def BITSTAMP_ID_def MAX_EXCHANGES_def EXCHANGES_def numeral_2_eq_2 not_less le_diff_conv)
  with 1(1) 2 show ?thesis by simp
qed

definition merged_side ::
    "(raw_level \<Rightarrow> int \<times> int) \<Rightarrow> raw_level list \<Rightarrow> raw_level list \<Rightarrow> level list" where
  "merged_side key binance_side bitstamp_side = take DEPTH (sort_key (\<lambda>l. key (unstamp l))
     (map (stamp BINANCE_ID) (filter nonzero binance_side) @ map (stamp BITSTAMP_ID) (filter nonzero bitstamp_side)))"

text \<open>
  C1. End to end: when Binance and Bitstamp each send one frame on a new connection, the merger's next
  pass publishes the ideal aggregate of what the frames say: of all levels of non-zero quantity of
  both exchanges, however many they are, the \<open>DEPTH\<close> best of each side by price, then amount. No level
  is lost by the depth limits on the way, through the parser, the slots and the merge.
\<close>

theorem end_to_end:
  assumes "external_crates X" and "n1 < 2 ^ 64" and "n2 < 2 ^ 64"
    and "list_all2 wire_level bs1 bids1" and "list_all2 wire_level as1 asks1"
    and "list_all2 wire_level bs2 bids2" and "list_all2 wire_level as2 asks2"
    and "length (binance_frame n1 bs1 as1 tail1) < 2 ^ 32"
    and "no_pair b_quote 109 pre" and "length (bitstamp_frame pre n2 bs2 as2 tail2) < 2 ^ 32"
    and "valid_utf8 (bitstamp_frame pre n2 bs2 as2 tail2)"
    and "sorted (map bid_key bids1)" and "sorted (map ask_key asks1)"
    and "sorted (map bid_key bids2)" and "sorted (map ask_key asks2)"
    and "max u1 u2 \<le> t1 + STALE_THRESHOLD" and "u2 \<le> t2 + STALE_THRESHOLD"
  shows "\<exists>h1 s1 m1 h2 s2 m2 c sm.
      binance_process_text X t1 d1 (binance_frame n1 bs1 as1 tail1) binance_new slot_new
        (exchange_metrics_new (ascii ''binance'')) = Inr (h1, s1, m1, Continue)
    \<and> bitstamp_process_text X t2 d2 (bitstamp_frame pre n2 bs2 as2 tail2) bitstamp_new slot_new
        (exchange_metrics_new (ascii ''bitstamp'')) = Inr (h2, s2, m2, Continue)
    \<and> poll_all X [(u1, e1), (u2, e2)] 0 (merger_start [s1, s2]) = Inr c
    \<and> last (summaries c) = sm
    \<and> sm_bids sm = merged_side bid_key bids1 bids2
    \<and> sm_asks sm = merged_side ask_key asks1 asks2"
proof -
  let ?b1 = "book_of BINANCE_ID t1 bids1 asks1" and ?b2 = "book_of BITSTAMP_ID t2 bids2 asks2"
  from binance_delivers [OF assms(1,2,4,5,8)] obtain h1 s1 m1
    where 1: "binance_process_text X t1 d1 (binance_frame n1 bs1 as1 tail1) binance_new slot_new
        (exchange_metrics_new (ascii ''binance'')) = Inr (h1, s1, m1, Continue)"
      and s1: "slot_inv s1" "slot_unread s1 = Some ?b1" by blast
  from bitstamp_delivers [OF assms(1,9,3,6,7,10,11)] obtain h2 s2 m2
    where 2: "bitstamp_process_text X t2 d2 (bitstamp_frame pre n2 bs2 as2 tail2) bitstamp_new slot_new
        (exchange_metrics_new (ascii ''bitstamp'')) = Inr (h2, s2, m2, Continue)"
      and s2: "slot_inv s2" "slot_unread s2 = Some ?b2" by blast
  obtain c sm1 sm where c: "poll_all X [(u1, e1), (u2, e2)] 0 (merger_start [s1, s2]) = Inr c"
    "summaries c = [sm1, sm]" "merge X \<lparr>books = [Some ?b1, Some ?b2]\<rparr> = Inr sm"
    using merger_first_pass [OF assms(1) s1(1) s2(1) s1(2) s2(2), of u1 u2 e1 e2] assms(16,17)
    by (auto simp: book_of_def)
  let ?st = "\<lparr>books = [Some ?b1, Some ?b2]\<rparr>"
  have iter: "store_iter ?st = [?b1, ?b2]" by (simp add: store_iter_def map_filter_def)
  have "sides_ordered ?st"
    unfolding iter using assms(12-15) by (simp add: book_of_def take_map [symmetric] sorted_filter)
  moreover have "length (books ?st) = MAX_EXCHANGES" by (simp add: MAX_EXCHANGES_def EXCHANGES_def)
  ultimately have m: "sm_bids sm = take DEPTH (sort_key (\<lambda>l. bid_key (unstamp l)) (side_levels ob_bids ?st))"
    "sm_asks sm = take DEPTH (sort_key (\<lambda>l. ask_key (unstamp l)) (side_levels ob_asks ?st))"
    using merge_sort [OF assms(1), of ?st] c(3) by auto
  have side: "side_levels ob_bids ?st = map (stamp BINANCE_ID) (take DEPTH (filter nonzero bids1))
      @ map (stamp BITSTAMP_ID) (take DEPTH (filter nonzero bids2))"
    "side_levels ob_asks ?st = map (stamp BINANCE_ID) (take DEPTH (filter nonzero asks1))
      @ map (stamp BITSTAMP_ID) (take DEPTH (filter nonzero asks2))"
    unfolding side_levels_def iter by (simp_all add: book_of_def)
  have "sm_bids sm = merged_side bid_key bids1 bids2" "sm_asks sm = merged_side ask_key asks1 asks2"
    unfolding m side merged_side_def
    by (rule two_book_slices [OF assms(12,14) bid_order.level_order_axioms]
        two_book_slices [OF assms(13,15) ask_order.level_order_axioms])+
  with 1 2 c show ?thesis by simp
qed

theorem end_to_end_witness:
  "\<exists>h1 s1 m1 h2 s2 m2 c sm.
      binance_process_text reference_crates 10 1 (binance_frame 160 [(ascii ''1.5'', ascii ''2'')] [] (ascii ''}''))
        binance_new slot_new (exchange_metrics_new (ascii ''binance'')) = Inr (h1, s1, m1, Continue)
    \<and> bitstamp_process_text reference_crates 15 1 (bitstamp_frame (ascii ''{\"data\":{\"timestamp\":\"17\",'') 1700
         [(ascii ''1.5'', ascii ''2'')] [] (ascii ''},\"event\":\"data\"}''))
        bitstamp_new slot_new (exchange_metrics_new (ascii ''bitstamp'')) = Inr (h2, s2, m2, Continue)
    \<and> poll_all reference_crates [(20, 1), (30, 1)] 0 (merger_start [s1, s2]) = Inr c
    \<and> last (summaries c) = sm
    \<and> sm_bids sm = merged_side bid_key [one_level] [one_level]
    \<and> sm_asks sm = merged_side ask_key [] []"
  by (rule end_to_end [OF reference.external_crates_axioms _ _ frame_160_levels list.rel_intros(1)
        data_frame_levels(2) list.rel_intros(1) length_frame_160 [unfolded frame_160_def] data_frame_levels(1)
        data_frame_ok [unfolded data_frame_def]]) (simp_all add: STALE_THRESHOLD_def)

section \<open>From the wire to the client\<close>

text \<open>What a client reads of a level a book had on that side: the name of its exchange and the \<open>f64\<close> values.\<close>

definition quoted :: "crates \<Rightarrow> pipeline_event list \<Rightarrow> (order_book \<Rightarrow> raw_level list) \<Rightarrow> proto_level \<Rightarrow> bool" where
  "quoted X wire side l \<longleftrightarrow> (\<exists>b r. from_frame X wire b \<and> r \<in> set (side b)
     \<and> exchange_name (ob_exchange_id b) = Inr (pl_exchange l)
     \<and> pl_price l = to_f64 (rl_price r) \<and> pl_amount l = to_f64 (rl_amount r))"

lemma quoted_in_frames:
  assumes "in_frames X wire side k" and "level_to_proto k = Inr l"
  shows "quoted X wire side l"
proof -
  obtain b where b: "from_frame X wire b" "ob_exchange_id b = lv_exchange_id k" "unstamp k \<in> set (side b)"
    using assms(1) by (auto simp: in_frames_def)
  with level_to_proto_eq [OF assms(2)] show ?thesis
    unfolding quoted_def by (intro exI [of _ b] exI [of _ "unstamp k"]) (simp add: unstamp_def)
qed

lemma message_quoted:
  assumes "external_crates X" and "sourced X wire sm" and "to_proto sm = Inr m"
  shows "list_all (quoted X wire ob_bids) (ps_bids m) \<and> list_all (quoted X wire ob_asks) (ps_asks m)"
  using sourced_in_frames [OF assms(1,2)] to_proto_levels [OF assms(3)]
  by (fastforce simp: list_all_iff intro: quoted_in_frames)

lemma sourced_merged: "list_all (sourced X wire) sms \<Longrightarrow> all_merged X sms"
  by (auto simp: all_merged_def list_all_iff sourced_def)

text \<open>
  C6. Clients see nothing but quotes. In every interleaving of the adapters, the merger and a client, whatever
  the connections bring, a client that subscribes over gRPC at any moment is served, the gRPC layer
  drops no message of the stream, and every level it receives is a level of a frame that the named
  exchange sent, on the same side, with the values converted.
\<close>

theorem client_sees_only_quotes:
  assumes "tonic_stack T" and "watch_channel L version current hung_up seen yielded" and "external_crates X"
    and "summaries (merger_side (pipeline_run X rand ticker wire)) = earlier @ published views"
  shows "\<exists>polls. rpc_subscription T L (Inr ()) earlier views = Inr (Inr polls)
    \<and> subscription L earlier views = Inr polls
    \<and> list_all (\<lambda>m. list_all (quoted X wire ob_bids) (ps_bids m) \<and> list_all (quoted X wire ob_asks) (ps_asks m))
        (items polls)"
proof -
  have src: "list_all (sourced X wire) (earlier @ published views)"
    using pipeline_inv_run [OF assms(3)] unfolding assms(4) [symmetric] by (simp add: pipeline_inv_def)
  note all = sourced_merged [OF src]
  let ?polls = "map (map_polled message_of_summary) (mailbox views (newest earlier) False)"
  have "list_all (quoted X wire ob_bids) (ps_bids m) \<and> list_all (quoted X wire ob_asks) (ps_asks m)"
    if "m \<in> set (items ?polls)" for m
  proof -
    from polls_from_published [OF that] obtain sm where sm: "sm \<in> set (earlier @ published views)"
      "m = message_of_summary sm" by blast
    with src have "sourced X wire sm" by (simp add: list_all_iff del: set_append)
    from message_quoted [OF assms(3) this merged_message(1) [OF assms(3) all sm(1)]] show ?thesis
      by (simp add: sm(2))
  qed
  with rpc_lossless [OF assms(1-3) all] subscription_polls [OF assms(2,3) all] show ?thesis
    by (simp add: list_all_iff)
qed

theorem client_sees_only_quotes_witness:
  "\<exists>sm m. summaries (merger_side (pipeline_run reference_crates (\<lambda>n g. 0) (ascii ''ethbtc'') first_events)) = [sm]
    \<and> rpc_subscription plain_tonic reference_watch (Inr ()) [] [Published sm, Polled] = Inr (Inr [Item m])
    \<and> list_all (quoted reference_crates first_events ob_bids) (ps_bids m)"
proof -
  obtain sm where sm: "summaries (merger_side (pipeline_run reference_crates (\<lambda>n g. 0) (ascii ''ethbtc'') first_events)) = [sm]"
    by (rule first_summary)
  from client_sees_only_quotes [of plain_tonic, OF ref_tonic.tonic_stack_axioms ref_watch.watch_channel_axioms
      reference.external_crates_axioms, of "\<lambda>n g. 0" "ascii ''ethbtc''" first_events "[]" "[Published sm, Polled]"] sm
  obtain polls where polls: "rpc_subscription plain_tonic reference_watch (Inr ()) [] [Published sm, Polled] = Inr (Inr polls)"
    "list_all (\<lambda>m. list_all (quoted reference_crates first_events ob_bids) (ps_bids m)) (items polls)"
    by (auto simp: list_all_iff)
  have all: "all_merged reference_crates ([] @ published [Published sm, Polled])"
    using pipeline_inv_run [OF reference.external_crates_axioms, of first_events "\<lambda>n g. 0" "ascii ''ethbtc''"] sm
    by (intro sourced_merged [of _ first_events]) (simp add: pipeline_inv_def)
  from rpc_lossless [of plain_tonic, OF ref_tonic.tonic_stack_axioms ref_watch.watch_channel_axioms
      reference.external_crates_axioms all]
    subscription_polls [OF ref_watch.watch_channel_axioms reference.external_crates_axioms all] polls(1)
  have "polls = [Item (message_of_summary sm)]" by (simp add: newest_def)
  with sm polls show ?thesis by auto
qed

section \<open>From the exchanges to the screen\<close>

text \<open>
  C2. The screen catches up. Whatever has happened before, when the merger is at the head of its loop and
  the adapters send nothing during one pass of it, then a viewer that subscribed over gRPC at any
  moment and has polled since shows, unless nothing was ever published, the merge of one book per
  exchange: the newest that its adapter has put in its slot, read from a frame of that exchange; an
  exchange is missing only when it had no book or the merger found the newest one stale.
\<close>

theorem screen_catches_up:
  fixes X rand ticker wire t0 d0 t1 d1
  assumes "tonic_stack T" and "watch_channel L version current hung_up seen yielded" and "external_crates X"
    and "merger_ready (pipeline_run X rand ticker wire)"
  defines "wire' \<equiv> wire @ merger_turns t0 d0 t1 d1" and "newest_of \<equiv> newest_books X rand ticker wire"
  assumes "summaries (merger_side (pipeline_run X rand ticker wire')) = earlier @ published views"
    and "earlier @ published views \<noteq> []" and "views \<noteq> []" and "last views = Polled" and "MergerGone \<notin> set views"
  shows "\<exists>polls v m sm st. rpc_subscription T L (Inr ()) earlier views = Inr (Inr polls)
    \<and> client_loop (undisturbed polls) (viewer_new title now) = (Inr () :: 'e ending + unit, v)
    \<and> vw_summary v = Some m \<and> to_proto sm = Inr m \<and> merge X st = Inr sm
    \<and> (\<forall>i<2. (books st ! i = newest_of ! i
          \<or> books st ! i = None \<and> (\<exists>b. newest_of ! i = Some b \<and> went_stale wire' b))
        \<and> (\<forall>b. newest_of ! i = Some b \<longrightarrow> from_frame X wire b \<and> unat (ob_exchange_id b) = i))"
proof -
  let ?c = "merger_side (pipeline_run X rand ticker wire')"
  have "list_all (sourced X wire') (earlier @ published views)"
    using pipeline_inv_run [OF assms(3)] unfolding assms(7) [symmetric] by (simp add: pipeline_inv_def)
  note all = sourced_merged [OF this]
  from viewer_follows [OF assms(2,3) all assms(8-11), of title now] obtain polls v m
    where view: "subscription L earlier views = Inr polls"
      "client_loop (undisturbed polls) (viewer_new title now) = (Inr () :: 'e ending + unit, v)"
      "vw_summary v = Some m" "to_proto (last (summaries ?c)) = Inr m"
    unfolding assms(7) by blast
  have "rpc_subscription T L (Inr ()) earlier views = Inr (Inr polls)"
    using rpc_lossless [OF assms(1-3) all] by (simp add: view(1))
  moreover have "summaries ?c \<noteq> []" using assms(8) by (simp add: assms(7))
  then have "merge X (store ?c) = Inr (last (summaries ?c))"
    using caught_up(1) [OF assms(3,4)] by (simp add: wire'_def)
  moreover have "\<forall>i<2. (books (store ?c) ! i = newest_of ! i
          \<or> books (store ?c) ! i = None \<and> (\<exists>b. newest_of ! i = Some b \<and> went_stale wire' b))
        \<and> (\<forall>b. newest_of ! i = Some b \<longrightarrow> from_frame X wire b \<and> unat (ob_exchange_id b) = i)"
    using caught_up(2,3) [OF assms(3,4)] unfolding wire'_def newest_of_def by blast
  ultimately show ?thesis using view(2-4)
    by (intro exI [of _ polls] exI [of _ v] exI [of _ m] exI [of _ "last (summaries ?c)"] exI [of _ "store ?c"]) blast
qed

theorem screen_catches_up_witness:
  "\<exists>earlier polls v m sm st. earlier \<noteq> []
    \<and> summaries (merger_side (pipeline_run reference_crates (\<lambda>n g. 0) (ascii ''ethbtc'')
        (first_frames @ merger_turns 10 1 20 1))) = earlier
    \<and> rpc_subscription plain_tonic reference_watch (Inr ()) earlier [Polled] = Inr (Inr polls)
    \<and> client_loop (undisturbed polls) (viewer_new (ascii ''ETHBTC'') 3) = (Inr () :: bytes ending + unit, v)
    \<and> vw_summary v = Some m \<and> to_proto sm = Inr m \<and> merge reference_crates st = Inr sm"
proof -
  let ?sms = "summaries (merger_side (pipeline_run reference_crates (\<lambda>n g. 0) (ascii ''ethbtc'')
        (first_frames @ merger_turns 10 1 20 1)))"
  have "?sms \<noteq> []" by (rule first_pass)
  with screen_catches_up [of plain_tonic, OF ref_tonic.tonic_stack_axioms ref_watch.watch_channel_axioms
      reference.external_crates_axioms first_ready, of "\<lambda>n g. 0" "ascii ''ethbtc''" 10 1 20 1 ?sms "[Polled]"
      "ascii ''ETHBTC''" 3]
  show ?thesis by fastforce
qed

end
